(* ===== verification/GoPrelude.thy ===== *)
theory GoPrelude
  imports Main "HOL-Library.Word" "HOL-Library.Multiset" "HOL-Library.AList"
begin

text \<open>
  Shared vocabulary of the development: Go's fixed-width integers as words, Go's maps as
  association lists with distinct keys, and the generic facts about words and lists that
  the component theories use.  Go integer arithmetic wraps around, as the arithmetic of
  \<^typ>\<open>'a word\<close> does.
\<close>

unbundle bit_operations_syntax

type_synonym u8 = "8 word"
type_synonym u32 = "32 word"
type_synonym u64 = "64 word"

named_theorems go_unat
  \<comment> \<open>reads a word expression as a natural number, wrap-around included\<close>

abbreviation maxU64 :: u64 where
  "maxU64 \<equiv> NOT 0"

abbreviation u64_of_u32 :: "u32 \<Rightarrow> u64" where
  "u64_of_u32 \<equiv> ucast"

abbreviation u32_of_u64 :: "u64 \<Rightarrow> u32" where
  "u32_of_u64 \<equiv> ucast"

section \<open>Words as naturals\<close>

lemma unat_maxU64 [go_unat]: "unat maxU64 = 2 ^ 64 - 1"
  by (simp add: unsigned_minus_1_eq_mask mask_eq_exp_minus_1)

lemma unat_u64_bound: "unat (x :: u64) < 2 ^ 64"
  using unsigned_less [of x, where ?'a = nat] by simp

lemma unat_u32_bound: "unat (x :: u32) < 2 ^ 32"
  using unsigned_less [of x, where ?'a = nat] by simp

lemmas unat_u64_bound_numeral [simp] = unat_u64_bound [simplified]
lemmas unat_u32_bound_numeral [simp] = unat_u32_bound [simplified]

lemma unat_u64_le_max [simp]: "unat (x :: u64) \<le> 18446744073709551615"
  by (rule less_Suc_eq_le [THEN iffD1]) simp

lemma unat_u64_of_u32 [go_unat, simp]: "unat (u64_of_u32 x) = unat x"
  by (simp add: unsigned_ucast_eq take_bit_nat_eq_self less_trans [OF unat_u32_bound_numeral])

lemma unat_u32_of_u64 [go_unat]: "unat (u32_of_u64 x) = unat x mod 2 ^ 32"
  by (simp add: unsigned_ucast_eq take_bit_nat_def)

lemma unat_drop32 [go_unat]: "unat (drop_bit 32 (x :: u64)) = unat x div 2 ^ 32"
  by (simp add: unat_drop_bit_eq drop_bit_nat_def)

lemma unat_and_low32 [go_unat]: "unat ((x :: u64) AND 4294967295) = unat x mod 2 ^ 32"
proof -
  have "x AND 4294967295 = take_bit 32 x"
    by (simp add: take_bit_eq_mask mask_eq_exp_minus_1)
  then show ?thesis
    by (simp add: unsigned_take_bit_eq take_bit_nat_def)
qed

lemma unat_add_fits: "unat a + unat b < 2 ^ LENGTH('a) \<Longrightarrow> unat (a + b :: 'a::len word) = unat a + unat b"
  by (simp add: unat_word_ariths)

lemma unat_mult_fits: "unat a * unat b < 2 ^ LENGTH('a) \<Longrightarrow> unat (a * b :: 'a::len word) = unat a * unat b"
  by (simp add: unat_word_ariths)

lemma unat_less_conv [go_unat]: "(a < b) = (unat a < unat (b :: 'a::len word))"
  by (simp add: word_less_nat_alt)

lemma unat_le_conv [go_unat]: "(a \<le> b) = (unat a \<le> unat (b :: 'a::len word))"
  by (simp add: word_le_nat_alt)

lemma shift32_split: "(n::nat) * 2^32 = n div 2^32 * 2^64 + n mod 2^32 * 2^32"
proof -
  have "n * 2^32 = (n div 2^32 * 2^32 + n mod 2^32) * 2^32"
    by (simp only: div_mult_mod_eq)
  then show ?thesis
    by (simp only: add_mult_distrib mult.assoc power_add [symmetric]) simp
qed

lemma and_low32: "(x :: u64) AND 4294967295 = take_bit 32 x"
  by (simp add: take_bit_eq_mask mask_eq_exp_minus_1)

lemma unat_push32: "unat (push_bit 32 (y :: u64)) = unat y mod 2^32 * 2^32"
proof -
  have "unat (push_bit 32 y) = unat y * 2^32 mod 2^64"
    by (simp add: push_bit_eq_mult unat_word_ariths)
  also have "unat y * 2^32 = unat y div 2^32 * 2^64 + unat y mod 2^32 * 2^32"
    by (rule shift32_split)
  also have "(unat y div 2^32 * 2^64 + unat y mod 2^32 * 2^32) mod 2^64 = unat y mod 2^32 * 2^32"
    using mod_less_divisor [of "2^32" "unat y"] by simp
  finally show ?thesis .
qed

lemma unat_low_or_high:
  "unat (((x :: u64) AND 4294967295) OR push_bit 32 y) = unat x mod 2^32 + unat y mod 2^32 * 2^32"
proof -
  have d: "(x AND 4294967295) AND push_bit 32 y = 0"
    by (rule bit_eqI) (auto simp: and_low32 bit_simps)
  have lt: "unat x mod 2^32 + unat y mod 2^32 * 2^32 < 2^64"
    using mod_less_divisor [of "2^32" "unat x"] mod_less_divisor [of "2^32" "unat y"] by simp
  have "(x AND 4294967295) OR push_bit 32 y = (x AND 4294967295) + push_bit 32 y"
    using disjunctive_add_eq_or [OF d] by simp
  then show ?thesis
    using lt by (subst \<open>_ OR _ = _\<close>, subst unat_add_fits) (simp_all add: unat_and_low32 unat_push32)
qed

lemma unat_mult_u64: "unat a * unat b < 2^64 \<Longrightarrow> unat (a * b :: u64) = unat a * unat b"
  by (rule unat_mult_fits) simp

lemma unat_add_u64: "unat a + unat b < 2^64 \<Longrightarrow> unat (a + b :: u64) = unat a + unat b"
  by (rule unat_add_fits) simp

lemma unat_add_u64_mod: "unat (a + b :: u64) = (unat a + unat b) mod 2^64"
  by (simp add: unat_word_ariths)

lemma unat_or_push_bit:
  assumes "2 ^ Suc n dvd unat (q :: u64)" "n < 64"
  shows "unat (q OR push_bit n 1) = unat q + 2 ^ n"
proof -
  have nb: "\<not> bit q n"
  proof -
    from assms(1) obtain k where "unat q = 2 ^ Suc n * k" ..
    then have "unat q div 2 ^ n = 2 * k"
      by simp
    then have "\<not> bit (unat q) n"
      by (simp add: bit_iff_odd)
    then show ?thesis
      by (simp add: bit_unsigned_iff)
  qed
  have d: "q AND push_bit n 1 = 0"
    by (rule bit_eqI) (use nb in \<open>auto simp: bit_simps\<close>)
  have "q OR push_bit n 1 = q + push_bit n 1"
    using disjunctive_add_eq_or [OF d] by simp
  moreover have p: "unat (push_bit n 1 :: u64) = 2 ^ n"
    using assms(2) power_strict_increasing [OF assms(2), of "2::nat"]
    by (subst unsigned_push_bit_eq) (simp add: take_bit_eq_mod push_bit_eq_mult)
  moreover have "unat q + 2 ^ n < 2 ^ 64"
  proof -
    have "2 ^ Suc n dvd (2 ^ 64 :: nat)"
      using assms(2) by (intro le_imp_power_dvd) simp
    with assms(1) obtain k l where kl: "unat q = 2 ^ Suc n * k" "2 ^ 64 = 2 ^ Suc n * (l :: nat)"
      by (metis dvdE)
    with unat_u64_bound [of q] have "2 ^ Suc n * k < 2 ^ Suc n * l"
      by (simp only:)
    then have "k < l"
      by (simp only: mult_less_cancel1)
    then have "2 ^ Suc n * Suc k \<le> 2 ^ Suc n * l"
      by (intro mult_le_mono) simp_all
    then have "unat q + 2 ^ n + 2 ^ n \<le> 2 ^ 64"
      unfolding kl by (simp add: algebra_simps)
    then show ?thesis
      using zero_less_power [of "2::nat" n] by linarith
  qed
  ultimately show ?thesis
    by (simp add: unat_add_u64)
qed

lemma unat_shift_in:
  assumes "unat (r :: u64) < 2 ^ 63"
  shows "unat (push_bit 1 r OR (drop_bit n lo AND 1)) = 2 * unat r + unat lo div 2 ^ n mod 2"
proof -
  have e: "even (push_bit 1 r)"
    by (simp add: push_bit_eq_mult)
  have a: "drop_bit n lo AND 1 = of_bool (odd (drop_bit n lo))"
    by (simp add: and_one_eq mod_2_eq_odd)
  have "push_bit 1 r AND (drop_bit n lo AND 1) = 0"
    unfolding a using e by (auto simp: and_one_eq mod_2_eq_odd)
  then have "push_bit 1 r OR (drop_bit n lo AND 1) = push_bit 1 r + (drop_bit n lo AND 1)"
    using disjunctive_add_eq_or [of "push_bit 1 r" "drop_bit n lo AND 1"] by simp
  moreover have "unat (push_bit 1 r) = 2 * unat r"
    using assms by (simp add: push_bit_eq_mult unat_word_ariths)
  moreover have "unat (drop_bit n lo AND 1) = unat lo div 2 ^ n mod 2"
    by (simp add: and_one_eq unat_mod unat_drop_bit_eq drop_bit_nat_def)
  ultimately show ?thesis
    using assms by (simp add: unat_add_u64)
qed

lemma unat_maxU32 [simp]: "unat (- 1 :: u32) = 4294967295"
  by (simp add: unsigned_minus_1_eq_mask mask_eq_exp_minus_1)

lemma u32_succ:
  fixes a :: u32
  assumes "unat a < 4294967295"
  shows "unat (a + 1) = unat a + 1"
  using assms by (subst unat_add_fits) simp_all

lemma unat_u32_of_nat: "n < 2 ^ 32 \<Longrightarrow> unat (word_of_nat n :: u32) = n"
  by (simp add: unsigned_of_nat take_bit_nat_eq_self)

lemma word_of_nat_unat: "word_of_nat (unat w) = (w :: 'a::len word)"
  by simp

lemmas u32_nat = word_less_nat_alt word_le_nat_alt

lemma unat_max: "unat (max a b :: u32) = max (unat a) (unat b)" and unat_min: "unat (min a b :: u32) = min (unat a) (unat b)"
  by (simp_all add: max_def min_def u32_nat)

section \<open>Binary search\<close>

text \<open>
  The loop of Go's \<open>sort.Search\<close> and of the hand-written searches that follow it: the least
  index in \<open>[lo, hi)\<close> at which a monotone predicate holds, or \<open>hi\<close>.
\<close>

function bsearch :: "(nat \<Rightarrow> bool) \<Rightarrow> nat \<Rightarrow> nat \<Rightarrow> nat" where
  "bsearch p lo hi =
     (if lo < hi
      then let mid = (lo + hi) div 2
           in if p mid then bsearch p lo mid else bsearch p (mid + 1) hi
      else lo)"
  by pat_completeness auto
termination
  by (relation "measure (\<lambda>(p, lo, hi). hi - lo)") auto

declare bsearch.simps [simp del]

lemma bsearch_lower_step:
  "lo < hi \<Longrightarrow> p ((lo + hi) div 2) \<Longrightarrow> bsearch p lo hi = bsearch p lo ((lo + hi) div 2)"
  by (simp add: bsearch.simps [of p lo hi] Let_def)

lemma bsearch_upper_step:
  "lo < hi \<Longrightarrow> \<not> p ((lo + hi) div 2) \<Longrightarrow> bsearch p lo hi = bsearch p ((lo + hi) div 2 + 1) hi"
  by (simp add: bsearch.simps [of p lo hi] Let_def)

lemma bsearch_bounds: "lo \<le> hi \<Longrightarrow> lo \<le> bsearch p lo hi \<and> bsearch p lo hi \<le> hi"
proof (induction p lo hi rule: bsearch.induct)
  case (1 p lo hi)
  show ?case
  proof (cases "lo < hi")
    case False
    with "1.prems" show ?thesis
      by (subst (1 2) bsearch.simps) simp
  next
    case True
    then have mid: "lo \<le> (lo + hi) div 2" "(lo + hi) div 2 < hi"
      by simp_all
    show ?thesis
      using 1(1) [OF True refl _ mid(1)] 1(2) [OF True refl] mid
      by (cases "p ((lo + hi) div 2)") (fastforce simp: True bsearch_lower_step bsearch_upper_step)+
  qed
qed

lemma bsearch_cong:
  "n = m \<Longrightarrow> (\<And>i. lo \<le> i \<Longrightarrow> i < m \<Longrightarrow> p i = p' i) \<Longrightarrow> bsearch p lo n = bsearch p' lo m"
proof (induction p lo n arbitrary: m rule: bsearch.induct)
  case (1 p lo hi)
  show ?case
  proof (cases "lo < hi")
    case False
    with "1.prems" show ?thesis
      by (subst (1 2) bsearch.simps) simp
  next
    case True
    let ?mid = "(lo + hi) div 2"
    have mid: "lo \<le> ?mid" "?mid < hi"
      using True by simp_all
    then have p: "p ?mid = p' ?mid" and hi: "m = hi"
      using "1.prems" by simp_all
    show ?thesis
    proof (cases "p ?mid")
      case p1: True
      have "bsearch p lo ?mid = bsearch p' lo ?mid"
        using 1(1) [OF True refl p1 refl] "1.prems"(2) mid hi by simp
      then show ?thesis
        using True p p1 hi by (simp add: bsearch_lower_step)
    next
      case p0: False
      have "bsearch p (?mid + 1) hi = bsearch p' (?mid + 1) hi"
        using 1(2) [OF True refl p0 refl] "1.prems"(2) mid hi by simp
      then show ?thesis
        using True p p0 hi by (simp add: bsearch_upper_step)
    qed
  qed
qed

lemma bsearch_split:
  assumes "\<And>i j. lo \<le> i \<Longrightarrow> i \<le> j \<Longrightarrow> j < hi \<Longrightarrow> p i \<Longrightarrow> p j" "lo \<le> i" "i < hi"
  shows "p i \<longleftrightarrow> bsearch p lo hi \<le> i"
  using assms
proof (induction p lo hi rule: bsearch.induct)
  case (1 p lo hi)
  define mid where "mid = (lo + hi) div 2"
  have lt: "lo < hi"
    using 1(4,5) by simp
  then have mid: "lo \<le> mid" "mid < hi"
    by (simp_all add: mid_def)
  have mono: "p j" if "lo \<le> i" "i \<le> j" "j < hi" "p i" for i j
    using 1(3) that by blast
  show ?case
  proof (cases "p mid")
    case True
    show ?thesis
    proof (cases "i < mid")
      case i: True
      have "p i \<longleftrightarrow> bsearch p lo mid \<le> i"
        by (rule 1(1) [OF lt mid_def True _ 1(4) i]) (rule mono, use mid in simp_all)
      then show ?thesis
        using bsearch_lower_step [of lo hi p] lt True by (simp add: mid_def)
    next
      case False
      then have "p i"
        using mono [of mid i] mid True 1(5) by simp
      moreover have "bsearch p lo hi \<le> mid"
        using bsearch_lower_step [of lo hi p] bsearch_bounds [of lo mid p] lt True mid by (simp add: mid_def)
      ultimately show ?thesis
        using False by simp
    qed
  next
    case np: False
    have e: "bsearch p lo hi = bsearch p (mid + 1) hi"
      using bsearch_upper_step [of lo hi p] lt np by (simp add: mid_def)
    show ?thesis
    proof (cases "i \<le> mid")
      case True
      then have "\<not> p i"
        using mono [of i mid] mid np 1(4) by blast
      moreover have "mid + 1 \<le> bsearch p lo hi"
        using bsearch_bounds [of "mid + 1" hi p] mid e by simp
      ultimately show ?thesis
        using True by simp
    next
      case False
      have "p i \<longleftrightarrow> bsearch p (mid + 1) hi \<le> i"
        by (rule 1(2) [OF lt mid_def np _ _ 1(5)]) (rule mono, use mid False in simp_all)
      then show ?thesis
        by (simp add: e)
    qed
  qed
qed

end
