(* ===== verification/TxqMulDiv.thy ===== *)
theory TxqMulDiv
  imports GoPrelude
begin

text \<open>
  The 128-bit multiply-and-divide of \<open>internal/txq/fee.go\<close> (\<open>mulDiv\<close>, \<open>mul64\<close>,
  \<open>div128\<close>), on which every fee-level computation of the queue rests.  The two halves of
  the product are read exactly, including the amount by which the high half is too large.
\<close>

section \<open>128-bit multiply and divide\<close>

definition mul64 :: "u64 \<Rightarrow> u64 \<Rightarrow> u64 \<times> u64" where
  "mul64 a b =
     (let mask32 = push_bit 32 1 - 1;
          a0 = a AND mask32; a1 = drop_bit 32 a;
          b0 = b AND mask32; b1 = drop_bit 32 b;
          p0 = a0 * b0; p1 = a0 * b1; p2 = a1 * b0; p3 = a1 * b1;
          mid = p1 + drop_bit 32 p0 + (p2 AND mask32);
          hi = p3 + drop_bit 32 p1 + drop_bit 32 p2 + drop_bit 32 mid;
          lo = (p0 AND mask32) OR push_bit 32 mid
      in (hi, lo))"

text \<open>
  The body of \<open>div128\<close>'s loop \<open>for i := 63; i >= 0; i--\<close>; the first argument is \<open>i + 1\<close>.
\<close>

fun div128_loop :: "nat \<Rightarrow> u64 \<Rightarrow> u64 \<Rightarrow> u64 \<Rightarrow> u64 \<Rightarrow> u64" where
  "div128_loop 0 lo divisor quo rem = quo"
| "div128_loop (Suc i) lo divisor quo rem =
     (let r = push_bit 1 rem OR (drop_bit i lo AND 1)
      in if r \<ge> divisor
         then div128_loop i lo divisor (quo OR push_bit i 1) (r - divisor)
         else div128_loop i lo divisor quo r)"

definition div128 :: "u64 \<Rightarrow> u64 \<Rightarrow> u64 \<Rightarrow> u64" where
  "div128 hi lo divisor =
     (if hi = 0 then lo div divisor else div128_loop 64 lo divisor 0 hi)"

definition mulDiv :: "u64 \<Rightarrow> u64 \<Rightarrow> u64 \<Rightarrow> u64" where
  "mulDiv a b c =
     (if c = 0 then maxU64
      else case mul64 a b of (hi, lo) \<Rightarrow>
        if hi \<ge> c then maxU64 else div128 hi lo c)"

section \<open>Correctness of the 128-bit arithmetic\<close>

lemma mul64_nat:
  fixes a0 a1 b0 b1 :: nat
  assumes "a0 < 2^32" "a1 < 2^32" "b0 < 2^32" "b1 < 2^32"
  defines "mid \<equiv> a0*b1 + a0*b0 div 2^32 + a1*b0 mod 2^32"
  shows "mid < 2^64"
    and "(a1*b1 + a1*b0 div 2^32 + mid div 2^32) * 2^64 + (a0*b0 mod 2^32 + mid mod 2^32 * 2^32)
       = (a1*2^32 + a0) * (b1*2^32+b0)"
proof -
  have p: "x*y \<le> (2^32-1)*(2^32-1)" if "x < 2^32" "y < 2^32" for x y :: nat
    using that by (intro mult_le_mono) simp_all
  have "a0*b0 div 2^32 < 2^32"
    using p [OF assms(1,3)] by (intro div_less_dividend less_mult_imp_div_less) simp
  then show "mid < 2^64"
    using p [OF assms(1,4)] mod_less_divisor [of "2^32" "a1*b0"] unfolding mid_def by simp
  let ?B = "2^32 :: nat"
  have "(a1*?B + a0) * (b1*?B + b0) = a1*b1*2^64 + a0*b1*?B + a1*b0*?B + a0*b0"
    by (simp add: algebra_simps)
  also have "a1*b0*?B = a1*b0 div ?B * 2^64 + a1*b0 mod ?B * ?B"
    by (rule shift32_split)
  also have "a0*b0 = a0*b0 div ?B * ?B + a0*b0 mod ?B"
    by simp
  also have "a1*b1*2^64 + a0*b1*?B + (a1*b0 div ?B * 2^64 + a1*b0 mod ?B * ?B) + (a0*b0 div ?B * ?B + a0*b0 mod ?B)
     = a1*b1*2^64 + a1*b0 div ?B * 2^64 + mid * ?B + a0*b0 mod ?B"
    by (simp add: mid_def algebra_simps)
  also have "mid * ?B = mid div ?B * 2^64 + mid mod ?B * ?B"
    by (rule shift32_split)
  finally show "(a1*b1 + a1*b0 div 2^32 + mid div 2^32) * 2^64 + (a0*b0 mod 2^32 + mid mod 2^32 * 2^32)
       = (a1*2^32 + a0) * (b1*2^32+b0)"
    by (simp add: algebra_simps)
qed

lemma mul64_value:
  assumes "mul64 a b = (hi, lo)"
  defines "excess \<equiv> (unat a mod 2^32) * (unat b div 2^32) div 2^32"
  shows "unat lo = unat a * unat b mod 2^64"
    and "unat hi = (unat a * unat b div 2^64 + excess) mod 2^64"
proof -
  define a0 a1 b0 b1 where d: "a0 = unat a mod 2^32" "a1 = unat a div 2^32" "b0 = unat b mod 2^32" "b1 = unat b div 2^32"
  have b: "a0 < 2^32" "a1 < 2^32" "b0 < 2^32" "b1 < 2^32"
    using unat_u64_bound [of a] unat_u64_bound [of b] by (auto simp: d less_mult_imp_div_less)
  have ab: "unat a * unat b = (a1*2^32 + a0) * (b1*2^32+b0)"
    by (simp add: d)
  have p: "x*y \<le> (2^32-1)*(2^32-1)" if "x < 2^32" "y < 2^32" for x y :: nat
    using that by (intro mult_le_mono) simp_all
  have q: "x*y < 2^64" if "x < 2^32" "y < 2^32" for x y :: nat
    using p [OF that] by simp
  define mid where "mid = a0*b1 + a0*b0 div 2^32 + a1*b0 mod 2^32"
  note m = mul64_nat [OF b, folded mid_def]
  let ?m = "4294967295 :: u64"
  have u: "unat (a AND ?m) = a0" "unat (b AND ?m) = b0" "unat (drop_bit 32 a) = a1" "unat (drop_bit 32 b) = b1"
    by (simp_all only: unat_and_low32 unat_drop32 d)
  have pr: "unat ((a AND ?m) * (b AND ?m)) = a0*b0" "unat ((a AND ?m) * drop_bit 32 b) = a0*b1"
      "unat (drop_bit 32 a * (b AND ?m)) = a1*b0" "unat (drop_bit 32 a * drop_bit 32 b) = a1*b1"
    using q [OF b(1,3)] q [OF b(1,4)] q [OF b(2,3)] q [OF b(2,4)] by (simp_all add: unat_mult_u64 u)
  define w where "w = (a AND ?m) * drop_bit 32 b + drop_bit 32 ((a AND ?m) * (b AND ?m)) + (drop_bit 32 a * (b AND ?m) AND ?m)"
  have hilo: "hi = (drop_bit 32 a * drop_bit 32 b) + drop_bit 32 ((a AND ?m) * drop_bit 32 b)
      + drop_bit 32 (drop_bit 32 a * (b AND ?m)) + drop_bit 32 w"
    "lo = (((a AND ?m) * (b AND ?m)) AND ?m) OR push_bit 32 w"
    using assms(1) by (auto simp: mul64_def Let_def w_def)
  have um: "unat w = mid"
    using m(1) by (simp add: w_def unat_add_u64 unat_drop32 unat_and_low32 pr mid_def)
  have lo: "unat lo = a0*b0 mod 2^32 + mid mod 2^32 * 2^32"
    unfolding hilo(2) unat_low_or_high um pr ..
  have lt: "a0*b0 mod 2^32 + mid mod 2^32 * 2^32 < 2^64"
    using unat_u64_bound [of lo] by (simp add: lo)
  have dmu: "(k*B + r) div B = k" "(k*B + r) mod B = r" if "r < B" for k r B :: nat
    using that by simp_all
  have dm: "unat a * unat b div 2^64 = a1*b1 + a1*b0 div 2^32 + mid div 2^32"
       "unat a * unat b mod 2^64 = a0*b0 mod 2^32 + mid mod 2^32 * 2^32"
    unfolding ab m(2) [symmetric] by (rule dmu [OF lt])+
  show "unat lo = unat a * unat b mod 2^64"
    by (simp only: lo dm)
  have "unat hi = (a1*b1 + a0*b1 div 2^32 + a1*b0 div 2^32 + mid div 2^32) mod 2^64"
    unfolding hilo(1) unat_add_u64_mod unat_drop32 um pr by (simp add: mod_simps)
  then show "unat hi = (unat a * unat b div 2^64 + excess) mod 2^64"
    unfolding dm excess_def d(1) [symmetric] d(4) [symmetric] by (simp only: ac_simps)
qed
lemma div128_loop_value:
  assumes "n \<le> 64" "unat r < unat d" "unat d \<le> 2 ^ 63" "2 ^ n dvd unat q"
  shows "unat (div128_loop n lo d q r) = unat q + (unat r * 2 ^ n + unat lo mod 2 ^ n) div unat d"
  using assms
proof (induction n arbitrary: q r)
  case 0
  then show ?case by simp
next
  case (Suc n)
  let ?r = "push_bit 1 r OR (drop_bit n lo AND 1)"
  have r: "unat ?r = 2 * unat r + unat lo div 2 ^ n mod 2"
    using Suc.prems by (intro unat_shift_in) simp
  have s: "unat r * 2 ^ Suc n + unat lo mod 2 ^ Suc n = unat ?r * 2 ^ n + unat lo mod 2 ^ n"
    unfolding r power_Suc2 mod_mult2_eq [of "unat lo" "2 ^ n" 2] by (simp add: algebra_simps)
  have qd: "2 ^ n dvd unat q"
    using Suc.prems(4) by (rule dvd_trans [OF le_imp_power_dvd, rotated]) simp
  have dist: "(x - y) * m + l + m * y = x * m + l" if "y \<le> x" for x y m l :: nat
    using that by (auto simp: le_iff_add algebra_simps)
  show ?case
  proof (cases "d \<le> ?r")
    case True
    then have le: "unat d \<le> unat ?r"
      by (simp add: word_le_nat_alt)
    have sub: "unat (?r - d) = unat ?r - unat d"
      using True by (simp add: unat_sub)
    have "unat (div128_loop n lo d (q OR push_bit n 1) (?r - d))
        = unat (q OR push_bit n 1) + (unat (?r - d) * 2 ^ n + unat lo mod 2 ^ n) div unat d"
    proof (rule Suc.IH)
      show "2 ^ n dvd unat (q OR push_bit n 1)"
        using Suc.prems qd by (subst unat_or_push_bit) simp_all
      show "unat (?r - d) < unat d"
        unfolding sub r using Suc.prems by linarith
    qed (use Suc.prems in simp_all)
    also have "unat (q OR push_bit n 1) = unat q + 2 ^ n"
      using Suc.prems by (intro unat_or_push_bit) simp_all
    also have "unat q + 2 ^ n + (unat (?r - d) * 2 ^ n + unat lo mod 2 ^ n) div unat d
        = unat q + (unat (?r - d) * 2 ^ n + unat lo mod 2 ^ n + 2 ^ n * unat d) div unat d"
      using Suc.prems by simp
    also have "unat (?r - d) * 2 ^ n + unat lo mod 2 ^ n + 2 ^ n * unat d = unat ?r * 2 ^ n + unat lo mod 2 ^ n"
      unfolding sub using dist [OF le] by simp
    finally show ?thesis
      using True by (simp add: s Let_def del: power_Suc)
  next
    case False
    then have "unat ?r < unat d"
      by (simp add: word_le_nat_alt)
    then have "unat (div128_loop n lo d q ?r) = unat q + (unat ?r * 2 ^ n + unat lo mod 2 ^ n) div unat d"
      using Suc.prems qd by (intro Suc.IH) simp_all
    then show ?thesis
      using False by (simp add: s Let_def del: power_Suc)
  qed
qed

lemma div128_value:
  assumes "unat hi < unat d" "unat d \<le> 2 ^ 63"
  shows "unat (div128 hi lo d) = (unat hi * 2 ^ 64 + unat lo) div unat d"
proof -
  have "unat (div128_loop 64 lo d 0 hi) = (unat hi * 2 ^ 64 + unat lo mod 2 ^ 64) div unat d"
    using assms by (subst div128_loop_value) simp_all
  then show ?thesis
    unfolding div128_def by (simp add: unat_div)
qed

lemma mulDiv_value:
  assumes "(unat a mod 2^32) * (unat b div 2^32) < 2^32" "unat c \<le> 2^63"
  shows "unat (mulDiv a b c) = (if c = 0 then 2^64 - 1 else min (unat a * unat b div unat c) (2^64 - 1))"
proof (cases "c = 0")
  case True
  then show ?thesis
    by (simp add: mulDiv_def unat_maxU64 [simplified])
next
  case False
  obtain hi lo where hl: "mul64 a b = (hi, lo)"
    by fastforce
  let ?p = "unat a * unat b"
  have "?p < 2^64 * 2^64"
    by (intro mult_strict_mono) simp_all
  then have "?p div 2^64 < 2^64"
    by (intro less_mult_imp_div_less)
  then have hi: "unat hi = ?p div 2^64"
    using mul64_value(2) [OF hl] assms(1) by simp
  have lo: "unat lo = ?p mod 2^64"
    using mul64_value(1) [OF hl] .
  have p: "?p = unat hi * 2^64 + unat lo"
    unfolding hi lo by simp
  have c: "0 < unat c"
    using False by (simp add: unat_gt_0)
  show ?thesis
  proof (cases "unat c \<le> unat hi")
    case True
    then have "unat c * 2^64 \<le> ?p"
      unfolding p by (intro trans_le_add1 mult_le_mono) simp_all
    then have "2^64 \<le> ?p div unat c"
      using c by (simp add: less_eq_div_iff_mult_less_eq mult.commute)
    then have "min (?p div unat c) (2^64 - 1) = 2^64 - 1"
      by linarith
    moreover have "mulDiv a b c = maxU64"
      using True False by (simp add: mulDiv_def hl word_le_nat_alt)
    ultimately show ?thesis
      using False unat_maxU64 by simp
  next
    case no: False
    have q: "unat (div128 hi lo c) = ?p div unat c"
      using no assms(2) unfolding p by (intro div128_value) simp_all
    moreover have "?p div unat c \<le> 2^64 - 1"
      using unat_u64_bound [of "div128 hi lo c"] unfolding q by linarith
    moreover have "mulDiv a b c = div128 hi lo c"
      using no False by (simp add: mulDiv_def hl word_le_nat_alt)
    ultimately show ?thesis
      using False by (simp only: if_False min.absorb1)
  qed
qed

lemma mulDiv_small:
  assumes "unat b < 2^32" "0 < unat c" "unat c \<le> 2^63"
  shows "unat (mulDiv a b c) = min (unat a * unat b div unat c) (2^64 - 1)"
proof -
  have "unat b div 2^32 = 0"
    using assms(1) by simp
  then have "(unat a mod 2^32) * (unat b div 2^32) < 2^32"
    by simp
  moreover have "c \<noteq> 0"
    using assms(2) by (auto simp: unat_gt_0)
  ultimately show ?thesis
    using mulDiv_value [of a b c] assms(3) by simp
qed

section \<open>Properties\<close>

text \<open>C37: \<open>mulDiv\<close> is the exact saturating quotient: \<open>a * b / c\<close> rounded down and capped at
  the largest uint64, and the cap itself on division by zero, provided the divisor is at most
  \<open>2 ^ 63\<close> and the cross product of the low half of \<open>a\<close> with the high half of \<open>b\<close> fits in
  32 bits.\<close>

theorem mulDiv_exact:
  assumes "(unat a mod 2^32) * (unat b div 2^32) < 2^32" and "unat c \<le> 2^63"
  shows "unat (mulDiv a b c) = (if c = 0 then 2^64 - 1 else min (unat a * unat b div unat c) (2^64 - 1))"
  using assms by (rule mulDiv_value)

theorem mulDiv_exact_witness:
  "(unat (128000 :: u64) mod 2^32) * (unat (1600 :: u64) div 2^32) < 2^32 \<and> unat (1024 :: u64) \<le> 2^63 \<and>
   unat (mulDiv 128000 1600 1024) = 200000"
  using mulDiv_exact [of 128000 1600 1024] by simp

text \<open>C38: the low word of \<open>mul64\<close> is the product modulo \<open>2 ^ 64\<close>, and the high word is the
  product's high word plus the high half of the cross product \<open>a0 * b1\<close>, which the code adds
  twice (once inside \<open>mid\<close> and once on its own).\<close>

theorem mul64_high_word_excess:
  "unat (snd (mul64 a b)) = unat a * unat b mod 2^64 \<and>
   unat (fst (mul64 a b)) =
     (unat a * unat b div 2^64 + (unat a mod 2^32) * (unat b div 2^32) div 2^32) mod 2^64"
  using mul64_value [of a b "fst (mul64 a b)" "snd (mul64 a b)"] by simp

end
