(* ===== verification/TxqFee.thy ===== *)
theory TxqFee
  imports TxqMulDiv
begin

text \<open>
  The fee-level arithmetic and the fee metrics of the transaction queue
  (\<open>internal/txq/fee.go\<close>, \<open>internal/txq/config.go\<close>).
\<close>

section \<open>Configuration\<close>

record Config =
  LedgersInQueue :: u32
  QueueSizeMin :: u32
  RetrySequencePercent :: u32
  MinimumEscalationMultiplier :: u64
  MinimumTxnInLedger :: u32
  MinimumTxnInLedgerStandalone :: u32
  TargetTxnInLedger :: u32
  MaximumTxnInLedger :: u32
  NormalConsensusIncreasePercent :: u32
  SlowConsensusDecreasePercent :: u32
  MaximumTxnPerAccount :: u32
  MinimumLastLedgerBuffer :: u32
  Standalone :: bool

definition BaseLevel :: u64 where
  "BaseLevel = 256"

definition DefaultConfig :: Config where
  "DefaultConfig = \<lparr>
     LedgersInQueue = 20,
     QueueSizeMin = 2000,
     RetrySequencePercent = 25,
     MinimumEscalationMultiplier = BaseLevel * 500,
     MinimumTxnInLedger = 32,
     MinimumTxnInLedgerStandalone = 1000,
     TargetTxnInLedger = 256,
     MaximumTxnInLedger = 0,
     NormalConsensusIncreasePercent = 20,
     SlowConsensusDecreasePercent = 50,
     MaximumTxnPerAccount = 10,
     MinimumLastLedgerBuffer = 2,
     Standalone = False\<rparr>"

definition StandaloneConfig :: Config where
  "StandaloneConfig = DefaultConfig\<lparr>Standalone := True\<rparr>"

section \<open>Fee levels\<close>

type_synonym FeeLevel = u64

definition ToFeeLevel :: "u64 \<Rightarrow> u64 \<Rightarrow> FeeLevel" where
  "ToFeeLevel drops baseFee =
     (case (if baseFee = 0 then (drops + 1, 1) else (drops, baseFee)) of
        (drops', baseFee') \<Rightarrow> mulDiv drops' BaseLevel baseFee')"

definition ToDrops :: "FeeLevel \<Rightarrow> u64 \<Rightarrow> u64" where
  "ToDrops f baseFee = mulDiv f baseFee BaseLevel"

section \<open>Fee metrics\<close>

record FeeMetrics =
  minimumTxnCount :: u32
  targetTxnCount :: u32
  maximumTxnCount :: u32
  txnsExpected :: u32
  recentTxnCounts :: "u32 list"
  recentIndex :: nat
  recentSize :: nat
  recentCapacity :: nat
  escalationMultiplier :: u64

definition NewFeeMetrics :: "Config \<Rightarrow> FeeMetrics" where
  "NewFeeMetrics cfg =
     (let minTxn = (if Standalone cfg then MinimumTxnInLedgerStandalone cfg else MinimumTxnInLedger cfg);
          targetTxn = (if TargetTxnInLedger cfg < minTxn then minTxn else TargetTxnInLedger cfg);
          maxTxn = (if MaximumTxnInLedger cfg \<noteq> 0 \<and> MaximumTxnInLedger cfg < targetTxn
                    then targetTxn else MaximumTxnInLedger cfg);
          ledgersInQueue = (if LedgersInQueue cfg = 0 then 20 else LedgersInQueue cfg)
      in \<lparr>minimumTxnCount = minTxn,
          targetTxnCount = targetTxn,
          maximumTxnCount = maxTxn,
          txnsExpected = minTxn,
          recentTxnCounts = replicate (unat ledgersInQueue) 0,
          recentIndex = 0,
          recentSize = 0,
          recentCapacity = unat ledgersInQueue,
          escalationMultiplier = MinimumEscalationMultiplier cfg\<rparr>)"

record Snapshot =
  TxnsExpected :: u32
  EscalationMultiplier :: u64

definition GetSnapshot :: "FeeMetrics \<Rightarrow> Snapshot" where
  "GetSnapshot fm = \<lparr>TxnsExpected = txnsExpected fm, EscalationMultiplier = escalationMultiplier fm\<rparr>"

definition addRecentCount :: "FeeMetrics \<Rightarrow> u32 \<Rightarrow> FeeMetrics" where
  "addRecentCount fm cnt =
     (if recentCapacity fm = 0 then fm
      else fm\<lparr>recentTxnCounts := (recentTxnCounts fm)[recentIndex fm := cnt],
              recentIndex := (recentIndex fm + 1) mod recentCapacity fm,
              recentSize := (if recentSize fm < recentCapacity fm
                             then recentSize fm + 1 else recentSize fm)\<rparr>)"

definition maxRecentCount :: "FeeMetrics \<Rightarrow> u32" where
  "maxRecentCount fm =
     (if recentSize fm = 0 then 0
      else fold (\<lambda>c m. if c > m then c else m) (take (recentSize fm) (recentTxnCounts fm)) 0)"

text \<open>The three parts of \<open>FeeMetrics.Update\<close>: the slow-consensus branch, the growth branch,
  and the median that sets the escalation multiplier.\<close>

definition Update_slow :: "FeeMetrics \<Rightarrow> u32 \<Rightarrow> Config \<Rightarrow> FeeMetrics" where
  "Update_slow fm sz cfg =
     (let cutPct = u64_of_u32 (100 - SlowConsensusDecreasePercent cfg);
          upperLimit0 = mulDiv (u64_of_u32 (txnsExpected fm)) cutPct 100;
          upperLimit = (if upperLimit0 < u64_of_u32 (minimumTxnCount fm)
                        then u64_of_u32 (minimumTxnCount fm) else upperLimit0);
          newExpected0 = mulDiv (u64_of_u32 sz) cutPct 100;
          newExpected1 = (if newExpected0 < u64_of_u32 (minimumTxnCount fm)
                          then u64_of_u32 (minimumTxnCount fm) else newExpected0);
          newExpected = (if newExpected1 > upperLimit then upperLimit else newExpected1)
      in fm\<lparr>txnsExpected := u32_of_u64 newExpected, recentSize := 0, recentIndex := 0\<rparr>)"

definition Update_grow :: "FeeMetrics \<Rightarrow> u32 \<Rightarrow> Config \<Rightarrow> FeeMetrics" where
  "Update_grow fm0 sz cfg =
     (let increased = mulDiv (u64_of_u32 sz) (100 + u64_of_u32 (NormalConsensusIncreasePercent cfg)) 100;
          fm = addRecentCount fm0 (u32_of_u64 increased);
          maxRecent = maxRecentCount fm;
          next0 = (if maxRecent \<ge> txnsExpected fm then maxRecent
                   else (txnsExpected fm * 9 + maxRecent) div 10);
          next1 = (if maximumTxnCount fm \<noteq> 0 \<and> next0 > maximumTxnCount fm
                   then maximumTxnCount fm else next0)
      in fm\<lparr>txnsExpected := next1\<rparr>)"

definition Update_median :: "FeeLevel list \<Rightarrow> u32 \<Rightarrow> Config \<Rightarrow> u64" where
  "Update_median srt sz cfg =
     (if sz = 0 then MinimumEscalationMultiplier cfg
      else let median = (if sz mod 2 = 1 then srt ! unat (sz div 2)
                         else (srt ! unat (sz div 2) + srt ! unat ((sz - 1) div 2) + 1) div 2)
           in if median < MinimumEscalationMultiplier cfg
              then MinimumEscalationMultiplier cfg else median)"

definition Update :: "FeeMetrics \<Rightarrow> FeeLevel list \<Rightarrow> bool \<Rightarrow> Config \<Rightarrow> FeeMetrics \<times> u32" where
  "Update fm feeLevels timeLeap cfg =
     (let sz = of_nat (length feeLevels);
          srt = sort feeLevels;
          fm' = (if timeLeap then Update_slow fm sz cfg
                 else if sz > txnsExpected fm \<or> sz > targetTxnCount fm
                 then Update_grow fm sz cfg else fm)
      in (fm'\<lparr>escalationMultiplier := Update_median srt sz cfg\<rparr>, sz))"

section \<open>Escalation\<close>

definition ScaleFeeLevel :: "Snapshot \<Rightarrow> u32 \<Rightarrow> FeeLevel" where
  "ScaleFeeLevel snapshot txInLedger =
     (if txInLedger \<le> TxnsExpected snapshot then BaseLevel
      else let current = u64_of_u32 txInLedger; target = u64_of_u32 (TxnsExpected snapshot)
           in mulDiv (EscalationMultiplier snapshot) (current * current) (target * target))"

definition sumOfSquares :: "u64 \<Rightarrow> u64 \<times> bool" where
  "sumOfSquares x =
     (if x \<ge> push_bit 21 1 then (maxU64, False)
      else ((x * (x + 1) * (2 * x + 1)) div 6, True))"

definition EscalatedSeriesFeeLevel :: "Snapshot \<Rightarrow> u32 \<Rightarrow> u32 \<Rightarrow> u32 \<Rightarrow> FeeLevel \<times> bool" where
  "EscalatedSeriesFeeLevel snapshot txInLedger extraCount seriesSize =
     (let current = u64_of_u32 txInLedger + u64_of_u32 extraCount;
          lst = current + u64_of_u32 seriesSize - 1;
          target = u64_of_u32 (TxnsExpected snapshot);
          (sumLast, ok1) = sumOfSquares lst;
          (sumCurrent, ok2) = sumOfSquares (current - 1)
      in if \<not> ok1 \<or> \<not> ok2 then (maxU64, False)
         else let diff = sumLast - sumCurrent
              in (mulDiv (EscalationMultiplier snapshot) diff (target * target), True))"

text \<open>What every reachable value of the fee metrics satisfies.\<close>

definition FeeMetrics_wf :: "FeeMetrics \<Rightarrow> bool" where
  "FeeMetrics_wf fm \<longleftrightarrow>
     0 < recentCapacity fm \<and> length (recentTxnCounts fm) = recentCapacity fm \<and>
     recentIndex fm < recentCapacity fm \<and> recentSize fm \<le> recentCapacity fm \<and>
     (recentSize fm < recentCapacity fm \<longrightarrow> recentIndex fm = recentSize fm) \<and>
     minimumTxnCount fm \<le> targetTxnCount fm \<and>
     (maximumTxnCount fm \<noteq> 0 \<longrightarrow> targetTxnCount fm \<le> maximumTxnCount fm) \<and>
     minimumTxnCount fm \<le> txnsExpected fm \<and>
     (maximumTxnCount fm \<noteq> 0 \<longrightarrow> txnsExpected fm \<le> maximumTxnCount fm)"

section \<open>Fee levels and escalation\<close>

lemma unat_ToFeeLevel:
  assumes "0 < unat baseFee" "unat baseFee \<le> 2^63"
  shows "unat (ToFeeLevel drops baseFee) = min (unat drops * 256 div unat baseFee) (2^64 - 1)"
proof -
  have "baseFee \<noteq> 0"
    using assms(1) by (auto simp: unat_gt_0)
  then show ?thesis
    using mulDiv_small [of BaseLevel baseFee drops] assms by (simp add: ToFeeLevel_def BaseLevel_def)
qed

lemma unat_ToDrops:
  assumes "unat baseFee < 2^32"
  shows "unat (ToDrops f baseFee) = min (unat f * unat baseFee div 256) (2^64 - 1)"
  using mulDiv_small [of baseFee BaseLevel f] assms by (simp add: ToDrops_def BaseLevel_def)

text \<open>converting a fee level to drops rounds down: the fee obtained pays a level of at most
  the one asked for, and one more drop pays at least that level.\<close>

theorem ToDrops_bracket:
  assumes "0 < unat baseFee" "unat baseFee < 2^32" "unat f * unat baseFee < 2^64"
  shows "ToFeeLevel (ToDrops f baseFee) baseFee \<le> f \<and> f \<le> ToFeeLevel (ToDrops f baseFee + 1) baseFee"
proof -
  let ?b = "unat baseFee"
  have td: "unat (ToDrops f baseFee) = unat f * ?b div 256"
  proof -
    have "unat f * ?b div 256 \<le> 2^64 - 1"
      using assms(3) by simp
    then show ?thesis
      using unat_ToDrops [OF assms(2)] by (simp only: min.absorb1)
  qed
  have "unat f * ?b div 256 * 256 div ?b \<le> unat f * ?b div ?b"
    by (intro div_le_mono) simp
  also have "\<dots> = unat f"
    using assms(1) by simp
  finally have lower: "ToFeeLevel (ToDrops f baseFee) baseFee \<le> f"
    using unat_ToFeeLevel [of baseFee "ToDrops f baseFee"] assms(1,2) td by (simp add: word_le_nat_alt)
  have lt: "unat f * ?b div 256 + 1 < 2^64"
    using assms(3) by simp
  have td1: "unat (ToDrops f baseFee + 1) = unat f * ?b div 256 + 1"
    using lt by (subst unat_add_u64) (simp_all add: td)
  have "unat f * ?b \<le> (unat f * ?b div 256 + 1) * 256"
    by simp
  then have "unat f * ?b div ?b \<le> (unat f * ?b div 256 + 1) * 256 div ?b"
    by (rule div_le_mono)
  then have "unat f \<le> (unat f * ?b div 256 + 1) * 256 div ?b"
    using assms(1) by simp
  then have "f \<le> ToFeeLevel (ToDrops f baseFee + 1) baseFee"
    using unat_ToFeeLevel [of baseFee "ToDrops f baseFee + 1"] assms(1,2) td1
    by (simp add: word_le_nat_alt)
  with lower show ?thesis ..
qed

theorem ToDrops_bracket_witness:
  "0 < unat (10 :: u64) \<and> unat (10 :: u64) < 2^32 \<and> unat (257 :: u64) * unat (10 :: u64) < 2^64 \<and>
   ToFeeLevel (ToDrops 257 10) 10 \<le> 257 \<and> 257 \<le> ToFeeLevel (ToDrops 257 10 + 1) 10"
  using ToDrops_bracket [of 10 257] by simp

lemma unat_square: "unat (x :: u32) < 2^16 \<Longrightarrow> unat (u64_of_u32 x * u64_of_u32 x) = unat x * unat x"
proof -
  assume "unat x < 2^16"
  then have "unat x * unat x < 2^16 * 2^16"
    by (intro mult_strict_mono) simp_all
  then show ?thesis
    by (subst unat_mult_u64) simp_all
qed

lemma unat_ScaleFeeLevel:
  assumes "TxnsExpected s < n" "unat n < 2^16"
  shows "unat (ScaleFeeLevel s n) =
     (if TxnsExpected s = 0 then 2^64 - 1
      else min (unat (EscalationMultiplier s) * (unat n * unat n) div (unat (TxnsExpected s) * unat (TxnsExpected s))) (2^64 - 1))"
proof -
  let ?t = "TxnsExpected s"
  have tn: "unat ?t < unat n"
    using assms(1) by (simp add: word_less_nat_alt)
  then have sq: "unat (u64_of_u32 n * u64_of_u32 n) = unat n * unat n"
      "unat (u64_of_u32 ?t * u64_of_u32 ?t) = unat ?t * unat ?t"
    using assms(2) by (simp_all add: unat_square)
  have nle: "\<not> n \<le> ?t"
    using assms(1) by simp
  have lt: "unat n * unat n < 2^16 * 2^16"
    using assms(2) by (intro mult_strict_mono) simp_all
  have tt: "unat ?t * unat ?t \<le> unat n * unat n"
    using tn by (intro mult_le_mono) simp_all
  show ?thesis
  proof (cases "?t = 0")
    case True
    then show ?thesis
      using assms(1) by (auto simp: ScaleFeeLevel_def mulDiv_def unat_maxU64 [simplified])
  next
    case False
    then have "0 < unat ?t * unat ?t"
      by (simp add: unat_gt_0)
    then show ?thesis
      using False nle mulDiv_small [of "u64_of_u32 n * u64_of_u32 n" "u64_of_u32 ?t * u64_of_u32 ?t" "EscalationMultiplier s"] lt tt
      by (simp add: ScaleFeeLevel_def Let_def sq)
  qed
qed

text \<open>the fee level needed to enter the open ledger never falls as the ledger fills up, for
  ledgers of fewer than 65536 transactions whose escalation multiplier is at least the base level.\<close>

theorem ScaleFeeLevel_mono:
  assumes "BaseLevel \<le> EscalationMultiplier s" "n \<le> m" "unat m < 2^16"
  shows "ScaleFeeLevel s n \<le> ScaleFeeLevel s m"
proof -
  let ?t = "unat (TxnsExpected s)" and ?e = "unat (EscalationMultiplier s)"
  show ?thesis
  proof (cases "m \<le> TxnsExpected s")
    case True
    then show ?thesis
      using order_trans [OF assms(2) True] by (simp add: ScaleFeeLevel_def)
  next
    case m: False
    show ?thesis
    proof (cases "TxnsExpected s = 0")
      case True
      then show ?thesis
        using m unat_ScaleFeeLevel [of s m] assms(3) by (simp add: word_le_nat_alt word_less_nat_alt)
    next
      case t: False
      have vm: "unat (ScaleFeeLevel s m) = min (?e * (unat m * unat m) div (?t * ?t)) (2^64 - 1)"
        using unat_ScaleFeeLevel [of s m] m t assms(3) by simp
      show ?thesis
      proof (cases "n \<le> TxnsExpected s")
        case True
        have "?e * (?t * ?t) div (?t * ?t) \<le> ?e * (unat m * unat m) div (?t * ?t)"
          using m by (intro div_le_mono mult_le_mono) (simp_all add: word_le_nat_alt)
        moreover have "?t * ?t \<noteq> 0"
          using t by (simp add: unat_0_iff)
        ultimately have "?e \<le> ?e * (unat m * unat m) div (?t * ?t)"
          by simp
        then have "?e \<le> unat (ScaleFeeLevel s m)"
          unfolding vm using unat_u64_bound [of "EscalationMultiplier s"] by simp
        then show ?thesis
          using True assms(1) by (simp add: ScaleFeeLevel_def word_le_nat_alt)
      next
        case False
        have "?e * (unat n * unat n) div (?t * ?t) \<le> ?e * (unat m * unat m) div (?t * ?t)"
          using assms(2) by (intro div_le_mono mult_le_mono) (simp_all add: word_le_nat_alt)
        moreover have "unat n < 2^16"
          using assms(2,3) by (simp add: word_le_nat_alt)
        ultimately show ?thesis
          using vm unat_ScaleFeeLevel [of s n] False t by (simp add: word_le_nat_alt word_less_nat_alt)
      qed
    qed
  qed
qed

theorem ScaleFeeLevel_mono_witness:
  "BaseLevel \<le> EscalationMultiplier \<lparr>TxnsExpected = 32, EscalationMultiplier = 128000\<rparr> \<and>
   (40 :: u32) \<le> 50 \<and> unat (50 :: u32) < 2^16 \<and>
   ScaleFeeLevel \<lparr>TxnsExpected = 32, EscalationMultiplier = 128000\<rparr> 40
     \<le> ScaleFeeLevel \<lparr>TxnsExpected = 32, EscalationMultiplier = 128000\<rparr> 50"
  using ScaleFeeLevel_mono [of "\<lparr>TxnsExpected = 32, EscalationMultiplier = 128000\<rparr>" 40 50]
  by (simp add: BaseLevel_def)

lemma sum_squares_nat: "6 * (\<Sum>i\<le>n. i * i) = n * (n + 1) * (2 * n + (1::nat))"
  by (induction n) (simp_all add: algebra_simps)

lemma sumOfSquares_value:
  assumes "unat x < 2^21"
  shows "snd (sumOfSquares x)" "unat (fst (sumOfSquares x)) = (\<Sum>i\<le>unat x. i * i)" "(\<Sum>i\<le>unat x. i * i) < 2^62"
proof -
  let ?n = "unat x"
  let ?p = "?n * (?n + 1) * (2 * ?n + 1)"
  have "?p \<le> 2^21 * 2^21 * (2 * ?n + 1)"
    using assms by (intro mult_le_mono) simp_all
  also have "\<dots> < 2^21 * 2^21 * 2^22"
    using assms by simp
  finally have p: "?p < 2^64"
    by simp
  have "?n * (?n + 1) < 2^64"
    by (rule le_less_trans [OF _ p]) simp
  then have u: "unat (x * (x + 1) * (2 * x + 1)) = ?p"
    using assms p by (simp add: unat_mult_u64 unat_add_u64)
  have s: "?p div 6 = (\<Sum>i\<le>?n. i * i)"
    using sum_squares_nat [of ?n] by simp
  then show "(\<Sum>i\<le>?n. i * i) < 2^62"
    using p by simp
  have ge: "\<not> push_bit 21 1 \<le> x"
    using assms by (simp add: word_le_nat_alt)
  then show "snd (sumOfSquares x)"
    by (simp add: sumOfSquares_def)
  show "unat (fst (sumOfSquares x)) = (\<Sum>i\<le>?n. i * i)"
    using ge s by (simp add: sumOfSquares_def unat_div u)
qed

text \<open>the fee level of a series is the escalation multiplier times the sum of the squares
  of the positions the series takes in the ledger, over the square of the expected ledger size,
  rounded down and saturated.\<close>

theorem EscalatedSeriesFeeLevel_value:
  assumes c: "1 \<le> unat txInLedger + unat extraCount" and k: "1 \<le> unat seriesSize"
    and l: "unat txInLedger + unat extraCount + unat seriesSize \<le> 2^21"
    and t: "0 < unat (TxnsExpected s)" "unat (TxnsExpected s) < 2^31"
  defines "S \<equiv> \<Sum>i = unat txInLedger + unat extraCount ..< unat txInLedger + unat extraCount + unat seriesSize. i * i"
  assumes m: "(unat (EscalationMultiplier s) mod 2^32) * (S div 2^32) < 2^32"
  shows "EscalatedSeriesFeeLevel s txInLedger extraCount seriesSize =
    (of_nat (min (unat (EscalationMultiplier s) * S div (unat (TxnsExpected s))\<^sup>2) (2^64 - 1)), True)"
proof -
  let ?c = "unat txInLedger + unat extraCount" and ?k = "unat seriesSize"
  let ?cur = "u64_of_u32 txInLedger + u64_of_u32 extraCount"
  let ?lst = "?cur + u64_of_u32 seriesSize - 1"
  let ?tt = "u64_of_u32 (TxnsExpected s) * u64_of_u32 (TxnsExpected s)"
  have uc: "unat ?cur = ?c"
    using l by (simp add: unat_add_u64)
  have ul: "unat (?cur + u64_of_u32 seriesSize) = ?c + ?k"
    using l by (simp add: unat_add_u64 uc)
  have nz: "?cur \<noteq> 0" "?cur + u64_of_u32 seriesSize \<noteq> 0"
    using c k ul uc by (auto simp flip: unat_0_iff)
  have u1: "unat (?cur - 1) = ?c - 1" "unat ?lst = ?c + ?k - 1"
    using nz by (simp_all add: unat_minus_one uc ul)
  have sq1: "snd (sumOfSquares ?lst)" "unat (fst (sumOfSquares ?lst)) = (\<Sum>i\<le>?c + ?k - 1. i * i)"
    using sumOfSquares_value [of ?lst] l k by (simp_all add: u1)
  have sq2: "snd (sumOfSquares (?cur - 1))" "unat (fst (sumOfSquares (?cur - 1))) = (\<Sum>i\<le>?c - 1. i * i)"
    using sumOfSquares_value [of "?cur - 1"] l c by (simp_all add: u1)
  have "{..?c + ?k - 1} = {..?c - 1} \<union> {?c..<?c + ?k}"
    using c k by auto
  then have split: "(\<Sum>i\<le>?c + ?k - 1. i * i) = (\<Sum>i\<le>?c - 1. i * i) + S"
    unfolding S_def by (simp only:) (rule sum.union_disjoint, use c in auto)
  let ?d = "fst (sumOfSquares ?lst) - fst (sumOfSquares (?cur - 1))"
  have ud: "unat ?d = S"
    using sq1(2) sq2(2) split by (subst unat_sub) (simp_all only: word_le_nat_alt le_add1 add_diff_cancel_left')
  have "unat (TxnsExpected s) * unat (TxnsExpected s) < 2^31 * 2^31"
    using t by (intro mult_strict_mono) simp_all
  then have ut: "unat ?tt = (unat (TxnsExpected s))\<^sup>2" "unat ?tt \<le> 2^63"
    by (simp_all add: unat_mult_u64 power2_eq_square)
  have tz: "?tt \<noteq> 0"
    using t(1) ut(1) by (auto simp flip: unat_0_iff)
  have v: "unat (mulDiv (EscalationMultiplier s) ?d ?tt) = min (unat (EscalationMultiplier s) * S div (unat (TxnsExpected s))\<^sup>2) (2^64 - 1)"
    using mulDiv_value [of "EscalationMultiplier s" ?d ?tt] m ut tz by (simp add: ud)
  then have "mulDiv (EscalationMultiplier s) ?d ?tt = of_nat (min (unat (EscalationMultiplier s) * S div (unat (TxnsExpected s))\<^sup>2) (2^64 - 1))"
    unfolding v [symmetric] by simp
  then show ?thesis
    using sq1(1) sq2(1) by (simp add: EscalatedSeriesFeeLevel_def Let_def case_prod_beta)
qed

theorem EscalatedSeriesFeeLevel_value_witness:
  "EscalatedSeriesFeeLevel \<lparr>TxnsExpected = 3, EscalationMultiplier = 128000\<rparr> 4 0 2 = (583111, True)"
proof -
  have "(\<Sum>i = 4..<(6::nat). i * i) = 41"
    by code_simp
  then show ?thesis
    using EscalatedSeriesFeeLevel_value [of 4 0 2 "\<lparr>TxnsExpected = 3, EscalationMultiplier = 128000\<rparr>"]
    by simp
qed

section \<open>Fee metrics: bounds and the window of recent counts\<close>

lemma NewFeeMetrics_wf: "FeeMetrics_wf (NewFeeMetrics cfg)"
  by (auto simp: FeeMetrics_wf_def NewFeeMetrics_def Let_def unat_gt_0)

lemma fold_max_word: "fold (\<lambda>c m. if m < c then c else m) xs (a::u32) = fold max xs a"
  by (rule fold_cong) (auto simp: max_def fun_eq_iff)

lemma maxRecentCount_eq:
  "maxRecentCount fm = fold max (take (recentSize fm) (recentTxnCounts fm)) 0"
  by (simp add: maxRecentCount_def fold_max_word)

lemma fold_max_Max: "fold max xs (a::'a::linorder) = Max (set (a # xs))"
  by (metis Max.set_eq_fold)

text \<open>Pushing a list of counts into an empty buffer leaves the newest \<open>recentCapacity\<close> of them.\<close>

lemma mod_window_inj:
  fixes i j n :: nat
  assumes "i mod n = j mod n" "i < j + n" "j < i + n" "0 < n"
  shows "i = j"
proof -
  have "i div n = j div n" if "i \<le> j" "j < i + n" "i mod n = j mod n" for i j
  proof (rule ccontr)
    assume "i div n \<noteq> j div n"
    with that(1) have "i div n + 1 \<le> j div n"
      using div_le_mono [OF that(1), of n] by linarith
    then have "(i div n + 1) * n \<le> j div n * n"
      by (rule mult_le_mono1)
    moreover have "i = i div n * n + i mod n" "j = j div n * n + j mod n"
      by simp_all
    ultimately have "i + n \<le> j"
      using that(3) unfolding add_mult_distrib mult_1 by linarith
    with that(2) show False by simp
  qed
  then have "i div n = j div n"
    using assms by (metis nat_le_linear)
  with assms(1) show ?thesis
    by (metis div_mult_mod_eq)
qed

lemma addRecentCount_window:
  fixes cs :: "u32 list"
  assumes "recentSize fm = 0" "recentIndex fm = 0" "0 < recentCapacity fm"
    and "length (recentTxnCounts fm) = recentCapacity fm"
  defines "N \<equiv> recentCapacity fm"
  defines "fm' \<equiv> fold (\<lambda>c f. addRecentCount f c) cs fm"
  shows "recentCapacity fm' = N \<and> length (recentTxnCounts fm') = N \<and>
    recentIndex fm' = length cs mod N \<and> recentSize fm' = min (length cs) N \<and>
    (\<forall>k. length cs \<le> k + N \<and> k < length cs \<longrightarrow> recentTxnCounts fm' ! (k mod N) = cs ! k)"
  unfolding fm'_def
proof (induction cs rule: rev_induct)
  case Nil
  then show ?case
    using assms by simp
next
  case (snoc c cs)
  let ?f = "fold (\<lambda>c f. addRecentCount f c) cs fm"
  have cap: "0 < N"
    using assms by simp
  have last: "recentTxnCounts (addRecentCount ?f c) = (recentTxnCounts ?f)[length cs mod N := c]"
    using snoc cap by (simp add: addRecentCount_def)
  have "recentTxnCounts (addRecentCount ?f c) ! (k mod N) = (cs @ [c]) ! k"
    if "length (cs @ [c]) \<le> k + N" "k < length (cs @ [c])" for k
  proof (cases "k = length cs")
    case True
    then show ?thesis
      using snoc cap by (simp add: last)
  next
    case False
    then have k: "k < length cs" "length cs < k + N"
      using that by simp_all
    then have "k mod N \<noteq> length cs mod N"
      using mod_window_inj [of k N "length cs"] cap by auto
    then show ?thesis
      using snoc k by (simp add: last nth_append)
  qed
  moreover have "(length cs mod N + 1) mod N = length (cs @ [c]) mod N"
    by (simp add: mod_Suc_eq)
  ultimately show ?case
    using snoc cap by (auto simp: addRecentCount_def)
qed

text \<open>C39: the circular buffer of recent transaction counts is a sliding window: after any
  sequence of counts pushed into an empty buffer, \<open>maxRecentCount\<close> is the largest of the last
  \<open>recentCapacity\<close> of them.\<close>

theorem maxRecentCount_window:
  assumes "recentSize fm = 0" "recentIndex fm = 0" "0 < recentCapacity fm"
    and "length (recentTxnCounts fm) = recentCapacity fm"
  shows "maxRecentCount (fold (\<lambda>c f. addRecentCount f c) cs fm)
       = Max (set (0 # drop (length cs - recentCapacity fm) cs))"
proof -
  let ?N = "recentCapacity fm" and ?f = "fold (\<lambda>c f. addRecentCount f c) cs fm"
  note w = addRecentCount_window [OF assms, of cs]
  have wk: "recentTxnCounts ?f ! (k mod ?N) = cs ! k" if "length cs \<le> k + ?N" "k < length cs" for k
    using w that by blast
  let ?buf = "take (recentSize ?f) (recentTxnCounts ?f)"
  have "set ?buf = set (drop (length cs - ?N) cs)"
  proof (cases "length cs \<le> ?N")
    case True
    have "?buf = cs"
    proof (rule nth_equalityI)
      fix i
      assume i: "i < length ?buf"
      then have "i < length cs" "i mod ?N = i"
        using w True by simp_all
      with wk [of i] True i show "?buf ! i = cs ! i"
        by simp
    qed (use w True in simp)
    then show ?thesis
      using True by simp
  next
    case False
    have buf: "?buf = recentTxnCounts ?f" "length ?buf = ?N"
      using w False by simp_all
    show ?thesis
    proof (intro set_eqI iffI)
      fix x
      assume "x \<in> set ?buf"
      then obtain j where j: "j < ?N" "recentTxnCounts ?f ! j = x"
        using buf by (auto simp: in_set_conv_nth)
      have "(\<lambda>i. (length cs - ?N + i) mod ?N) ` {..<?N} = {..<?N}"
        by (rule endo_inj_surj) (use assms(3) in \<open>auto intro!: inj_onI dest: mod_window_inj\<close>)
      with j(1) have "j \<in> (\<lambda>i. (length cs - ?N + i) mod ?N) ` {..<?N}"
        by simp
      then obtain i where i: "i < ?N" "(length cs - ?N + i) mod ?N = j"
        by auto
      then have "cs ! (length cs - ?N + i) = x"
        using wk [of "length cs - ?N + i"] False j(2) by simp
      then show "x \<in> set (drop (length cs - ?N) cs)"
        using i(1) False by (auto simp: in_set_conv_nth intro!: exI [of _ i])
    next
      fix x
      assume "x \<in> set (drop (length cs - ?N) cs)"
      then obtain i where i: "i < ?N" "x = cs ! (length cs - ?N + i)"
        using False by (auto simp: in_set_conv_nth)
      then have "recentTxnCounts ?f ! ((length cs - ?N + i) mod ?N) = x"
        using wk [of "length cs - ?N + i"] False by simp
      moreover have "(length cs - ?N + i) mod ?N < length (recentTxnCounts ?f)"
        using w assms(3) by simp
      ultimately show "x \<in> set ?buf"
        unfolding buf(1) by (auto simp: in_set_conv_nth)
    qed
  qed
  then show ?thesis
    by (simp add: maxRecentCount_eq fold_max_Max)
qed

theorem maxRecentCount_window_witness:
  "maxRecentCount (fold (\<lambda>c f. addRecentCount f c) [90, 7, 9, 8]
     (NewFeeMetrics (DefaultConfig\<lparr>LedgersInQueue := 3\<rparr>))) = 9"
  using maxRecentCount_window [of "NewFeeMetrics (DefaultConfig\<lparr>LedgersInQueue := 3\<rparr>)" "[90, 7, 9, 8]"]
  by (simp add: NewFeeMetrics_def DefaultConfig_def Let_def)

lemma addRecentCount_wf: "FeeMetrics_wf fm \<Longrightarrow> FeeMetrics_wf (addRecentCount fm c)"
  by (auto simp: FeeMetrics_wf_def addRecentCount_def)

lemma maxRecentCount_ge_added:
  assumes "FeeMetrics_wf fm"
  shows "c \<le> maxRecentCount (addRecentCount fm c)"
proof -
  let ?f = "addRecentCount fm c"
  have "recentTxnCounts ?f ! recentIndex fm = c" "recentIndex fm < recentSize ?f"
      "recentIndex fm < length (recentTxnCounts ?f)"
    using assms by (auto simp: FeeMetrics_wf_def addRecentCount_def)
  then have "c \<in> set (take (recentSize ?f) (recentTxnCounts ?f))"
    by (metis in_set_conv_nth length_take min_less_iff_conj nth_take)
  then show ?thesis
    by (simp add: maxRecentCount_eq fold_max_Max)
qed

lemma Update_median_ge: "MinimumEscalationMultiplier cfg \<le> Update_median srt sz cfg"
  by (auto simp: Update_median_def Let_def)

lemma Update_slow_bounds:
  assumes "SlowConsensusDecreasePercent cfg \<le> 100" "minimumTxnCount fm \<le> txnsExpected fm"
  shows "minimumTxnCount fm \<le> txnsExpected (Update_slow fm sz cfg)"
    and "txnsExpected (Update_slow fm sz cfg) \<le> txnsExpected fm"
proof -
  define cut where "cut = u64_of_u32 (100 - SlowConsensusDecreasePercent cfg)"
  have cut: "unat cut \<le> 100"
  proof -
    have "unat (100 - SlowConsensusDecreasePercent cfg) = 100 - unat (SlowConsensusDecreasePercent cfg)"
      using assms(1) by (subst unat_sub) simp_all
    then show ?thesis
      by (simp add: cut_def)
  qed
  let ?e = "unat (txnsExpected fm)" and ?m = "unat (minimumTxnCount fm)"
  have md: "unat (mulDiv (u64_of_u32 x) cut 100) = unat x * unat cut div 100" for x
  proof -
    have "unat x * unat cut div 100 \<le> unat x * 100 div 100"
      using cut by (intro div_le_mono mult_le_mono) simp_all
    also have "\<dots> < 2^32"
      using unat_u32_bound [of x] by simp
    finally show ?thesis
      using mulDiv_small [of cut 100 "u64_of_u32 x"] cut by simp
  qed
  define ul where "ul = max ?m (?e * unat cut div 100)"
  define ne where "ne = min ul (max ?m (unat sz * unat cut div 100))"
  have me: "?m \<le> ?e"
    using assms(2) by (simp add: word_le_nat_alt)
  have "?e * unat cut div 100 \<le> ?e * 100 div 100"
    using cut by (intro div_le_mono mult_le_mono) simp_all
  then have ul: "ul \<le> ?e" "?m \<le> ul"
    using me by (simp_all add: ul_def)
  then have ne: "ne \<le> ?e" "?m \<le> ne"
    by (simp_all add: ne_def)
  have "unat (txnsExpected (Update_slow fm sz cfg)) = ne mod 2^32"
    unfolding Update_slow_def Let_def cut_def [symmetric] ne_def ul_def
    by (simp add: unat_u32_of_u64 word_less_nat_alt md max_def min_def) (metis mod_less unat_u32_bound_numeral)
  also have "\<dots> = ne"
    using ne(1) unat_u32_bound [of "txnsExpected fm"] by (intro mod_less) linarith
  finally have "unat (txnsExpected (Update_slow fm sz cfg)) = ne" .
  with ne show "minimumTxnCount fm \<le> txnsExpected (Update_slow fm sz cfg)"
    and "txnsExpected (Update_slow fm sz cfg) \<le> txnsExpected fm"
    by (simp_all add: word_le_nat_alt)
qed

lemma Update_grow_bounds:
  assumes wf: "FeeMetrics_wf fm"
    and big: "sz > txnsExpected fm \<or> sz > targetTxnCount fm"
    and fits: "unat sz * (100 + unat (NormalConsensusIncreasePercent cfg)) div 100 < 2^32"
    and e: "unat (txnsExpected fm) \<le> 429496729"
  shows "minimumTxnCount fm \<le> txnsExpected (Update_grow fm sz cfg)"
    and "maximumTxnCount fm \<noteq> 0 \<longrightarrow> txnsExpected (Update_grow fm sz cfg) \<le> maximumTxnCount fm"
proof -
  define inc where "inc = u32_of_u64 (mulDiv (u64_of_u32 sz) (100 + u64_of_u32 (NormalConsensusIncreasePercent cfg)) 100)"
  let ?p = "NormalConsensusIncreasePercent cfg"
  have up: "unat (100 + u64_of_u32 ?p) = 100 + unat ?p"
    by (subst unat_add_u64) (simp_all add: less_trans [OF unat_u32_bound_numeral])
  have "unat (mulDiv (u64_of_u32 sz) (100 + u64_of_u32 ?p) 100) = unat sz * (100 + unat ?p) div 100"
  proof -
    have c: "(unat (u64_of_u32 sz) mod 2^32) * (unat (100 + u64_of_u32 ?p) div 2^32) < 2^32"
    proof -
      have "100 + unat ?p < 2 * 4294967296"
        using unat_u32_bound_numeral [of ?p] by linarith
      then have "unat (100 + u64_of_u32 ?p) div 2^32 \<le> 1"
        unfolding up using less_mult_imp_div_less [of "100 + unat ?p" 2 4294967296] by simp
      then have "(unat (u64_of_u32 sz) mod 2^32) * (unat (100 + u64_of_u32 ?p) div 2^32) \<le> (unat (u64_of_u32 sz) mod 2^32) * 1"
        by (rule mult_le_mono2)
      also have "\<dots> < 2^32"
        by simp
      finally show ?thesis .
    qed
    show ?thesis
      using mulDiv_value [OF c, of 100] fits by (simp add: up)
  qed
  then have inc: "unat inc = unat sz * (100 + unat ?p) div 100"
    using fits by (simp add: inc_def unat_u32_of_u64)
  have "unat sz * 100 div 100 \<le> unat sz * (100 + unat ?p) div 100"
    by (intro div_le_mono mult_le_mono2) simp
  then have szi: "sz \<le> inc"
    using inc by (simp add: word_le_nat_alt)
  let ?f = "addRecentCount fm inc"
  have same: "txnsExpected ?f = txnsExpected fm" "minimumTxnCount ?f = minimumTxnCount fm"
    "maximumTxnCount ?f = maximumTxnCount fm"
    by (simp_all add: addRecentCount_def)
  define mr where "mr = maxRecentCount ?f"
  have szm: "sz \<le> mr"
    using szi maxRecentCount_ge_added [OF wf, of inc] by (simp add: mr_def)
  define nx where "nx = (if mr \<ge> txnsExpected fm then mr else (txnsExpected fm * 9 + mr) div 10)"
  have res: "txnsExpected (Update_grow fm sz cfg) = (if maximumTxnCount fm \<noteq> 0 \<and> nx > maximumTxnCount fm then maximumTxnCount fm else nx)"
    unfolding Update_grow_def Let_def inc_def [symmetric] by (simp add: same nx_def mr_def)
  have mn: "minimumTxnCount fm \<le> nx"
  proof (cases "mr \<ge> txnsExpected fm")
    case True
    then show ?thesis
      using wf by (auto simp: nx_def FeeMetrics_wf_def)
  next
    case False
    then have lt: "unat mr < unat (txnsExpected fm)"
      by (simp add: word_le_nat_alt)
    have "targetTxnCount fm < mr"
      using big szm False by auto
    then have "unat (minimumTxnCount fm) \<le> unat mr"
      using wf by (auto simp: FeeMetrics_wf_def word_le_nat_alt word_less_nat_alt)
    moreover have "unat (txnsExpected fm * 9 + mr) = unat (txnsExpected fm) * 9 + unat mr"
      using e lt by (subst unat_add_fits) (simp_all add: unat_mult_fits)
    ultimately show ?thesis
      using False lt by (simp add: nx_def word_le_nat_alt unat_div)
  qed
  then show "minimumTxnCount fm \<le> txnsExpected (Update_grow fm sz cfg)"
    using wf by (auto simp: res FeeMetrics_wf_def)
  show "maximumTxnCount fm \<noteq> 0 \<longrightarrow> txnsExpected (Update_grow fm sz cfg) \<le> maximumTxnCount fm"
    by (auto simp: res)
qed

lemma Update_slow_frame:
  "minimumTxnCount (Update_slow fm sz cfg) = minimumTxnCount fm"
  "targetTxnCount (Update_slow fm sz cfg) = targetTxnCount fm"
  "maximumTxnCount (Update_slow fm sz cfg) = maximumTxnCount fm"
  "recentTxnCounts (Update_slow fm sz cfg) = recentTxnCounts fm"
  "recentCapacity (Update_slow fm sz cfg) = recentCapacity fm"
  "recentIndex (Update_slow fm sz cfg) = 0"
  "recentSize (Update_slow fm sz cfg) = 0"
  by (simp_all add: Update_slow_def Let_def)

lemma Update_grow_frame:
  "\<exists>c e. Update_grow fm sz cfg = (addRecentCount fm c)\<lparr>txnsExpected := e\<rparr>"
  by (auto simp: Update_grow_def Let_def)

lemma Update_slow_wf:
  assumes "FeeMetrics_wf fm" "SlowConsensusDecreasePercent cfg \<le> 100"
  shows "FeeMetrics_wf (Update_slow fm sz cfg)"
  using assms Update_slow_bounds [of cfg fm sz] unfolding FeeMetrics_wf_def Update_slow_frame by auto

lemma Update_grow_wf:
  assumes wf: "FeeMetrics_wf fm"
    and "sz > txnsExpected fm \<or> sz > targetTxnCount fm"
    and "unat sz * (100 + unat (NormalConsensusIncreasePercent cfg)) div 100 < 2^32"
    and "unat (txnsExpected fm) \<le> 429496729"
  shows "FeeMetrics_wf (Update_grow fm sz cfg)"
proof -
  obtain c e where e: "Update_grow fm sz cfg = (addRecentCount fm c)\<lparr>txnsExpected := e\<rparr>"
    using Update_grow_frame by blast
  have "minimumTxnCount fm \<le> e" "maximumTxnCount fm \<noteq> 0 \<longrightarrow> e \<le> maximumTxnCount fm"
    using Update_grow_bounds [OF assms] by (simp_all add: e)
  with addRecentCount_wf [OF wf, of c] show ?thesis
    unfolding e by (auto simp: FeeMetrics_wf_def addRecentCount_def)
qed

lemma Update_wf_aux:
  assumes wf: "FeeMetrics_wf fm" and slow: "SlowConsensusDecreasePercent cfg \<le> 100"
    and fits: "length feeLevels * (100 + unat (NormalConsensusIncreasePercent cfg)) div 100 < 2^32"
    and e: "unat (txnsExpected fm) \<le> 429496729"
  shows "FeeMetrics_wf (fst (Update fm feeLevels timeLeap cfg)) \<and>
    MinimumEscalationMultiplier cfg \<le> escalationMultiplier (fst (Update fm feeLevels timeLeap cfg)) \<and>
    (timeLeap \<longrightarrow> txnsExpected (fst (Update fm feeLevels timeLeap cfg)) \<le> txnsExpected fm)"
proof -
  define sz :: u32 where "sz = of_nat (length feeLevels)"
  have "length feeLevels * 100 div 100 \<le> length feeLevels * (100 + unat (NormalConsensusIncreasePercent cfg)) div 100"
    by (intro div_le_mono mult_le_mono2) simp
  with fits have "length feeLevels < 2^32"
    by simp
  then have sz: "unat sz = length feeLevels"
    by (simp add: sz_def unsigned_of_nat take_bit_nat_eq_self)
  let ?fm = "if timeLeap then Update_slow fm sz cfg
     else if sz > txnsExpected fm \<or> sz > targetTxnCount fm then Update_grow fm sz cfg else fm"
  have u: "fst (Update fm feeLevels timeLeap cfg) = ?fm\<lparr>escalationMultiplier := Update_median (sort feeLevels) sz cfg\<rparr>"
    by (simp add: Update_def Let_def sz_def)
  have "FeeMetrics_wf ?fm"
    using wf Update_slow_wf [OF wf slow] Update_grow_wf [OF wf _ _ e, of sz cfg] fits by (auto simp: sz)
  moreover have "timeLeap \<Longrightarrow> txnsExpected ?fm \<le> txnsExpected fm"
    using Update_slow_bounds(2) [OF slow] wf by (simp add: FeeMetrics_wf_def)
  ultimately show ?thesis
    unfolding u by (simp add: FeeMetrics_wf_def Update_median_ge)
qed



end
