(* ===== verification/Amounts.thy ===== *)
theory Amounts
  imports GoPrelude
begin

text \<open>
  The amount data of \<open>internal/ledger/state/amount.go\<close>: an amount is native XRP (drops), an
  issued currency (signed mantissa and exponent) or a multi-purpose token.  Go's \<open>int64\<close> is a
  64-bit word read in two's complement; a nil pointer is \<open>None\<close>.
\<close>

type_synonym i64 = "64 word"

record IOUAmountValue =
  mantissa :: i64
  exponent :: int

record Amount =
  xrp_drops :: i64
  iou :: IOUAmountValue
  Currency :: string
  Issuer :: string
  Native :: bool
  mptRaw :: "i64 option"
  mptIssuanceID :: string

definition IsNative :: "Amount \<Rightarrow> bool" where
  "IsNative a = Native a"

definition Drops :: "Amount \<Rightarrow> i64" where
  "Drops a = (if \<not> IsNative a then 0 else xrp_drops a)"

end
