(* ===== verification/TxqCandidate.thy ===== *)
theory TxqCandidate
  imports TxqFee Amounts
begin

text \<open>
  Queued transactions and the per-account queues (\<open>internal/txq/candidate.go\<close>), with the parts
  of a transaction the queue reads (\<open>internal/tx/transaction.go\<close>) and the result codes it
  returns (\<open>internal/tx/result.go\<close>).

  Candidates are shared by pointer between the fee-ordered list and the account queues and are
  compared by pointer, so the model keeps them in a store: a pointer is an index into a list of
  candidates.  A Go map is an association list with distinct keys; a \<open>range\<close> loop over it is a
  \<^const>\<open>fold\<close>, and the lemmas below show that what each loop returns does not depend on the
  order of the list.
\<close>

section \<open>Result codes\<close>

type_synonym Result = int

definition TesSUCCESS :: Result where "TesSUCCESS = 0"
definition TefINTERNAL :: Result where "TefINTERNAL = -192"
definition TefPAST_SEQ :: Result where "TefPAST_SEQ = -190"
definition TefNO_TICKET :: Result where "TefNO_TICKET = -180"
definition TelCAN_NOT_QUEUE :: Result where "TelCAN_NOT_QUEUE = -392"
definition TelCAN_NOT_QUEUE_BALANCE :: Result where "TelCAN_NOT_QUEUE_BALANCE = -391"
definition TelCAN_NOT_QUEUE_BLOCKS :: Result where "TelCAN_NOT_QUEUE_BLOCKS = -390"
definition TelCAN_NOT_QUEUE_BLOCKED :: Result where "TelCAN_NOT_QUEUE_BLOCKED = -389"
definition TelCAN_NOT_QUEUE_FEE :: Result where "TelCAN_NOT_QUEUE_FEE = -388"
definition TelCAN_NOT_QUEUE_FULL :: Result where "TelCAN_NOT_QUEUE_FULL = -387"
definition TerNO_ACCOUNT :: Result where "TerNO_ACCOUNT = -96"
definition TerPRE_SEQ :: Result where "TerPRE_SEQ = -92"
definition TerQUEUED :: Result where "TerQUEUED = -89"
definition TerPRE_TICKET :: Result where "TerPRE_TICKET = -88"

lemmas result_defs =
  TesSUCCESS_def TefINTERNAL_def TefPAST_SEQ_def TefNO_TICKET_def TelCAN_NOT_QUEUE_def
  TelCAN_NOT_QUEUE_BALANCE_def TelCAN_NOT_QUEUE_BLOCKS_def TelCAN_NOT_QUEUE_BLOCKED_def
  TelCAN_NOT_QUEUE_FEE_def TelCAN_NOT_QUEUE_FULL_def TerNO_ACCOUNT_def TerPRE_SEQ_def
  TerQUEUED_def TerPRE_TICKET_def

section \<open>Transactions\<close>

record Common =
  Fee :: string
  Sequence :: "u32 option"
  AccountTxnID :: string
  Flags :: "u32 option"
  LastLedgerSequence :: "u32 option"
  TicketSequence :: "u32 option"

text \<open>The transaction types the queue tells apart, each with the fields it reads.\<close>

datatype TxBody =
    TicketCreate (TicketCount: u32)
  | AccountSet (SetFlag: "u32 option") (ClearFlag: "u32 option")
  | Payment (PaymentAmount: Amount)
  | OfferCreate (TakerGets: Amount)
  | RegularKeySet
  | SignerListSet
  | OtherTx nat

record Transaction =
  GetCommon :: "Common option"
  body :: TxBody

text \<open>
  \<open>strconv.ParseUint(s, 10, 64)\<close> with its error ignored, as the queue calls it: a syntax error
  gives 0, a value out of range gives the largest uint64, whichever comes first from the left.
\<close>

fun ParseUint_loop :: "nat \<Rightarrow> string \<Rightarrow> u64" where
  "ParseUint_loop n [] = of_nat n"
| "ParseUint_loop n (c # cs) =
     (if of_char c < (48::nat) \<or> of_char c > (57::nat) then 0
      else let n' = 10 * n + (of_char c - 48)
           in if n' \<ge> 2 ^ 64 then maxU64 else ParseUint_loop n' cs)"

definition ParseUint :: "string \<Rightarrow> u64" where
  "ParseUint s = (if s = [] then 0 else ParseUint_loop 0 s)"

section \<open>Sequence proxies\<close>

datatype SeqProxy = SeqProxy (Value: u32) (IsTicket: bool)

definition NewSeqProxySequence :: "u32 \<Rightarrow> SeqProxy" where
  "NewSeqProxySequence s = SeqProxy s False"

definition NewSeqProxyTicket :: "u32 \<Rightarrow> SeqProxy" where
  "NewSeqProxyTicket ticket = SeqProxy ticket True"

definition Less :: "SeqProxy \<Rightarrow> SeqProxy \<Rightarrow> bool" where
  "Less s other =
     (if \<not> IsTicket s \<and> IsTicket other then True
      else if IsTicket s \<and> \<not> IsTicket other then False
      else Value s < Value other)"

text \<open>\<^const>\<open>Less\<close> is a linear order: the library's \<open>min\<close>, \<open>max\<close> and sorting apply to it.\<close>

instantiation SeqProxy :: linorder
begin

definition less_SeqProxy :: "SeqProxy \<Rightarrow> SeqProxy \<Rightarrow> bool" where
  "less_SeqProxy = Less"

definition less_eq_SeqProxy :: "SeqProxy \<Rightarrow> SeqProxy \<Rightarrow> bool" where
  "less_eq_SeqProxy a b = (\<not> Less b a)"

instance
proof
  fix x y z :: SeqProxy
  show "(x < y) = (x \<le> y \<and> \<not> y \<le> x)"
    by (auto simp: less_SeqProxy_def less_eq_SeqProxy_def Less_def)
  show "x \<le> x"
    by (simp add: less_eq_SeqProxy_def Less_def)
  show "x \<le> z" if "x \<le> y" "y \<le> z"
    using that by (auto simp: less_eq_SeqProxy_def Less_def split: if_splits)
  show "x = y" if "x \<le> y" "y \<le> x"
    using that by (auto simp: less_eq_SeqProxy_def Less_def intro: SeqProxy.expand split: if_splits)
  show "x \<le> y \<or> y \<le> x"
    by (auto simp: less_eq_SeqProxy_def Less_def)
qed

end

section \<open>Candidates\<close>

type_synonym AccountID = "u8 list"
type_synonym Hash256 = "u8 list"

record TxConsequences =
  ConsFee :: u64
  PotentialSpend :: u64
  IsBlocker :: bool
  FollowingSeq :: SeqProxy

record Candidate =
  Txn :: Transaction
  TxID :: Hash256
  Account :: AccountID
  CandFeeLevel :: FeeLevel
  CandSeqProxy :: SeqProxy
  LastValid :: u32
  RetriesRemaining :: int
  LastResult :: Result
  PreflightResult :: Result
  CandFee :: u64
  Consequences :: TxConsequences

definition RetriesAllowed :: int where
  "RetriesAllowed = 10"

definition NewCandidate ::
  "Transaction \<Rightarrow> Hash256 \<Rightarrow> AccountID \<Rightarrow> FeeLevel \<Rightarrow> SeqProxy \<Rightarrow> u32 \<Rightarrow> Result \<Rightarrow> TxConsequences \<Rightarrow> Candidate"
where
  "NewCandidate txn txID account feeLevel seqProxy lastValid preflightResult consequences =
     \<lparr>Txn = txn, TxID = txID, Account = account, CandFeeLevel = feeLevel, CandSeqProxy = seqProxy,
      LastValid = lastValid, RetriesRemaining = RetriesAllowed, LastResult = 0,
      PreflightResult = preflightResult, CandFee = 0, Consequences = consequences\<rparr>"

text \<open>A pointer to a candidate, and the store it points into.\<close>

type_synonym ref = nat
type_synonym store = "Candidate list"

section \<open>Account queues\<close>

record AccountQueue =
  AqAccount :: AccountID
  Transactions :: "(SeqProxy \<times> ref) list"
  RetryPenalty :: bool
  DropPenalty :: bool

definition NewAccountQueue :: "AccountID \<Rightarrow> AccountQueue" where
  "NewAccountQueue account =
     \<lparr>AqAccount = account, Transactions = [], RetryPenalty = False, DropPenalty = False\<rparr>"

definition AqAdd :: "store \<Rightarrow> AccountQueue \<Rightarrow> ref \<Rightarrow> AccountQueue" where
  "AqAdd h aq c = aq\<lparr>Transactions := AList.update (CandSeqProxy (h ! c)) c (Transactions aq)\<rparr>"

definition AqRemove :: "AccountQueue \<Rightarrow> SeqProxy \<Rightarrow> AccountQueue \<times> bool" where
  "AqRemove aq seqProxy =
     (case map_of (Transactions aq) seqProxy of
        Some _ \<Rightarrow> (aq\<lparr>Transactions := AList.delete seqProxy (Transactions aq)\<rparr>, True)
      | None \<Rightarrow> (aq, False))"

definition AqCount :: "AccountQueue \<Rightarrow> nat" where
  "AqCount aq = length (Transactions aq)"

definition AqEmpty :: "AccountQueue \<Rightarrow> bool" where
  "AqEmpty aq = (length (Transactions aq) = 0)"

definition GetPrevTx :: "store \<Rightarrow> AccountQueue \<Rightarrow> SeqProxy \<Rightarrow> ref option" where
  "GetPrevTx h aq seqProxy =
     fold (\<lambda>(sp, c) prev.
             if Less sp seqProxy then
               (case prev of None \<Rightarrow> Some c
                | Some p \<Rightarrow> if Less (CandSeqProxy (h ! p)) sp then Some c else prev)
             else prev)
          (Transactions aq) None"

definition GetFirstSeqTx :: "store \<Rightarrow> AccountQueue \<Rightarrow> ref option" where
  "GetFirstSeqTx h aq =
     fold (\<lambda>(sp, c) first.
             if \<not> IsTicket (CandSeqProxy (h ! c)) then
               (case first of None \<Rightarrow> Some c
                | Some f \<Rightarrow> if Value (CandSeqProxy (h ! c)) < Value (CandSeqProxy (h ! f)) then Some c else first)
             else first)
          (Transactions aq) None"

definition RelevantCount :: "AccountQueue \<Rightarrow> SeqProxy \<Rightarrow> nat" where
  "RelevantCount aq acctSeqProx =
     fold (\<lambda>(sp, c) cnt. if \<not> Less sp acctSeqProx then cnt + 1 else cnt) (Transactions aq) 0"

definition FirstRelevant :: "store \<Rightarrow> AccountQueue \<Rightarrow> SeqProxy \<Rightarrow> ref option" where
  "FirstRelevant h aq acctSeqProx =
     fold (\<lambda>(sp, c) first.
             if \<not> Less sp acctSeqProx then
               (case first of None \<Rightarrow> Some c
                | Some f \<Rightarrow> if Less sp (CandSeqProxy (h ! f)) then Some c else first)
             else first)
          (Transactions aq) None"

definition GetSortedCandidates :: "store \<Rightarrow> AccountQueue \<Rightarrow> ref list" where
  "GetSortedCandidates h aq = sort_key (\<lambda>c. CandSeqProxy (h ! c)) (map snd (Transactions aq))"

section \<open>Scanning a map for its best entry\<close>

text \<open>
  Five loops of the queue scan a map for the entry that none of the others replaces.  The
  interface: which keys count (\<open>P\<close>) and when a key replaces the current one (\<open>rp\<close>), a linear
  order on the keys that count.
\<close>

definition best_of :: "('k \<Rightarrow> bool) \<Rightarrow> ('k \<Rightarrow> 'k \<Rightarrow> bool) \<Rightarrow> ('r \<Rightarrow> 'k) \<Rightarrow> ('k \<times> 'r) list \<Rightarrow> 'r option" where
  "best_of P rp key xs =
     fold (\<lambda>(k, c) acc.
             if P k then (case acc of None \<Rightarrow> Some c | Some p \<Rightarrow> if rp (key p) k then Some c else acc)
             else acc)
          xs None"

definition is_best :: "('k \<Rightarrow> bool) \<Rightarrow> ('k \<Rightarrow> 'k \<Rightarrow> bool) \<Rightarrow> ('k \<times> 'r) list \<Rightarrow> 'r option \<Rightarrow> bool" where
  "is_best P rp xs r =
     (case r of
        None \<Rightarrow> \<forall>(k, c) \<in> set xs. \<not> P k
      | Some c \<Rightarrow> \<exists>k. (k, c) \<in> set xs \<and> P k \<and> (\<forall>(k', c') \<in> set xs. P k' \<and> k' \<noteq> k \<longrightarrow> rp k' k))"

locale map_scan =
  fixes P :: "'k \<Rightarrow> bool" and rp :: "'k \<Rightarrow> 'k \<Rightarrow> bool"
  assumes rp_total: "P a \<Longrightarrow> P b \<Longrightarrow> a \<noteq> b \<Longrightarrow> rp a b \<or> rp b a"
    and rp_asym: "P a \<Longrightarrow> P b \<Longrightarrow> a \<noteq> b \<Longrightarrow> rp a b \<Longrightarrow> \<not> rp b a"
    and rp_trans: "P a \<Longrightarrow> P b \<Longrightarrow> P c \<Longrightarrow> a \<noteq> c \<Longrightarrow> rp a b \<Longrightarrow> rp b c \<Longrightarrow> rp a c"
begin

lemma best_of_is_best:
  assumes "distinct (map fst xs)" "\<forall>(k, c) \<in> set xs. key c = k"
  shows "is_best P rp xs (best_of P rp key xs)"
  using assms
proof (induction xs rule: rev_induct)
  case Nil
  then show ?case by (simp add: best_of_def is_best_def)
next
  case (snoc x xs)
  obtain k c where x: "x = (k, c)" by fastforce
  let ?r = "best_of P rp key xs"
  have IH: "is_best P rp xs ?r"
    using snoc by simp
  have new: "k \<notin> fst ` set xs" and key: "\<forall>(k, c) \<in> set xs. key c = k"
    using snoc.prems by (auto simp: x)
  have step: "best_of P rp key (xs @ [x]) =
      (if P k then (case ?r of None \<Rightarrow> Some c | Some p \<Rightarrow> if rp (key p) k then Some c else ?r) else ?r)"
    unfolding best_of_def x by simp
  show ?case
  proof (cases "P k")
    case False
    then show ?thesis
      unfolding step using IH by (auto simp: is_best_def x split: option.splits)
  next
    case True
    show ?thesis
    proof (cases ?r)
      case None
      then show ?thesis
        unfolding step using True IH by (auto simp: is_best_def x)
    next
      case (Some p)
      then obtain kp where kp: "(kp, p) \<in> set xs" "P kp" and best: "\<forall>(k', c') \<in> set xs. P k' \<and> k' \<noteq> kp \<longrightarrow> rp k' kp"
        using IH by (auto simp: is_best_def)
      have ne: "kp \<noteq> k" and kkp: "key p = kp"
        using kp new key by force+
      show ?thesis
      proof (cases "rp kp k")
        case True
        have "rp k' k" if "(k', c') \<in> set xs" "P k'" for k' c'
        proof (cases "k' = kp")
          case False
          then have "rp k' kp"
            using best that by blast
          then show ?thesis
            using rp_trans [of k' kp k] True that kp \<open>P k\<close> new by force
        qed (use True in simp)
        then show ?thesis
          unfolding step using True \<open>P k\<close> Some kkp by (auto simp: is_best_def x)
      next
        case False
        then have "rp k kp"
          using rp_total [OF kp(2) \<open>P k\<close> ne] by blast
        then show ?thesis
          unfolding step using False \<open>P k\<close> Some kkp kp best by (fastforce simp: is_best_def x)
      qed
    qed
  qed
qed

lemma is_best_unique:
  assumes "distinct (map fst xs)" "is_best P rp xs r" "is_best P rp xs r'"
  shows "r = r'"
proof (cases r; cases r')
  fix c c'
  assume r: "r = Some c" "r' = Some c'"
  obtain k where k: "(k, c) \<in> set xs" "P k" "\<forall>(j, _) \<in> set xs. P j \<and> j \<noteq> k \<longrightarrow> rp j k"
    using assms(2) by (auto simp: is_best_def r)
  obtain k' where k': "(k', c') \<in> set xs" "P k'" "\<forall>(j, _) \<in> set xs. P j \<and> j \<noteq> k' \<longrightarrow> rp j k'"
    using assms(3) by (auto simp: is_best_def r)
  have "k = k'"
  proof (rule ccontr)
    assume "k \<noteq> k'"
    then have "rp k' k" "rp k k'"
      using k k' by fastforce+
    then show False
      using rp_asym k(2) k'(2) \<open>k \<noteq> k'\<close> by blast
  qed
  then show ?thesis
    using assms(1) k(1) k'(1) by (auto simp: r dest: eq_key_imp_eq_value)
qed (use assms in \<open>auto simp: is_best_def\<close>)

text \<open>The order in which the entries are visited does not matter.\<close>

lemma best_of_perm:
  assumes "mset xs = mset ys" "distinct (map fst xs)" "\<forall>(k, c) \<in> set xs. key c = k"
  shows "best_of P rp key xs = best_of P rp key ys"
proof -
  have s: "set xs = set ys"
    using assms(1) by (rule mset_eq_setD)
  have d: "distinct (map fst ys)"
    using assms(1,2) by (metis mset_map mset_eq_imp_distinct_iff)
  have "is_best P rp xs (best_of P rp key ys)"
    using best_of_is_best [OF d, of key] assms(3) unfolding is_best_def s by simp
  then show ?thesis
    using is_best_unique [OF assms(2)] best_of_is_best [OF assms(2,3)] by blast
qed

end

section \<open>Account queues: well-formedness and what the scans return\<close>

definition aq_wf :: "store \<Rightarrow> AccountQueue \<Rightarrow> bool" where
  "aq_wf h aq \<longleftrightarrow> distinct (map fst (Transactions aq)) \<and>
     (\<forall>(sp, c) \<in> set (Transactions aq). c < length h \<and> CandSeqProxy (h ! c) = sp)"

interpretation prev_scan: map_scan "\<lambda>k. Less k sp" Less
  by unfold_locales (auto simp: Less_def intro: SeqProxy.expand split: if_splits)

interpretation first_scan: map_scan "\<lambda>k. \<not> Less k sp" "\<lambda>a b. Less b a"
  by unfold_locales (auto simp: Less_def intro: SeqProxy.expand split: if_splits)

interpretation first_seq_scan: map_scan "\<lambda>k. \<not> IsTicket k" "\<lambda>a b. Value b < Value a"
  by unfold_locales (auto intro: SeqProxy.expand)

lemma GetPrevTx_best_of:
  "GetPrevTx h aq sp = best_of (\<lambda>k. Less k sp) Less (\<lambda>c. CandSeqProxy (h ! c)) (Transactions aq)"
  by (simp add: GetPrevTx_def best_of_def)

lemma FirstRelevant_best_of:
  "FirstRelevant h aq sp = best_of (\<lambda>k. \<not> Less k sp) (\<lambda>a b. Less b a) (\<lambda>c. CandSeqProxy (h ! c)) (Transactions aq)"
  by (simp add: FirstRelevant_def best_of_def)

lemma GetFirstSeqTx_best_of:
  assumes "aq_wf h aq"
  shows "GetFirstSeqTx h aq =
    best_of (\<lambda>k. \<not> IsTicket k) (\<lambda>a b. Value b < Value a) (\<lambda>c. CandSeqProxy (h ! c)) (Transactions aq)"
  unfolding GetFirstSeqTx_def best_of_def
  by (rule fold_cong) (use assms in \<open>auto simp: aq_wf_def fun_eq_iff split: option.splits\<close>)

lemma RelevantCount_filter:
  "RelevantCount aq sp = length (filter (\<lambda>(k, c). \<not> Less k sp) (Transactions aq))"
proof -
  have "fold (\<lambda>(k, c) cnt. if \<not> Less k sp then cnt + 1 else cnt) xs n
      = n + length (filter (\<lambda>(k, c). \<not> Less k sp) xs)" for xs :: "(SeqProxy \<times> ref) list" and n :: nat
    by (induction xs arbitrary: n) auto
  then show ?thesis
    by (simp add: RelevantCount_def)
qed

end
