(* ===== verification/TxqQueue.thy ===== *)
theory TxqQueue
  imports TxqCandidate
begin

text \<open>
  The queue itself (\<open>internal/txq/txq.go\<close>): the fee-ordered list of candidates and the account
  queues, their primitive updates, and the invariants every operation keeps.  The mutex makes each
  exported method one atomic step, so a method is a function on the queue's state.
\<close>

record TxQ =
  config :: Config
  feeMetrics :: FeeMetrics
  byFee :: "ref list"
  byAccount :: "(AccountID \<times> AccountQueue) list"
  maxSize :: "u32 option"
  parentHash :: Hash256
  cands :: store

definition New :: "Config \<Rightarrow> TxQ" where
  "New cfg = \<lparr>config = cfg, feeMetrics = NewFeeMetrics cfg, byFee = [], byAccount = [],
     maxSize = None, parentHash = replicate 32 0, cands = []\<rparr>"

section \<open>Metrics and size\<close>

definition isFull :: "TxQ \<Rightarrow> bool" where
  "isFull q = (case maxSize q of None \<Rightarrow> False | Some m \<Rightarrow> of_nat (length (byFee q)) \<ge> m)"

definition isFullPct :: "TxQ \<Rightarrow> u32 \<Rightarrow> bool" where
  "isFullPct q fillPct =
     (case maxSize q of None \<Rightarrow> False | Some m \<Rightarrow> of_nat (length (byFee q)) \<ge> m * fillPct div 100)"

definition Size :: "TxQ \<Rightarrow> nat" where
  "Size q = length (byFee q)"

record Metrics =
  TxCount :: u32
  TxQMaxSize :: "u32 option"
  TxInLedger :: u32
  TxPerLedger :: u32
  ReferenceFeeLevel :: u64
  MinProcessingFeeLevel :: u64
  MedFeeLevel :: u64
  OpenLedgerFeeLevel :: u64

definition GetMetrics :: "TxQ \<Rightarrow> u32 \<Rightarrow> Metrics" where
  "GetMetrics q txInLedger =
     (let snapshot = GetSnapshot (feeMetrics q);
          openLedgerFeeLevel = ScaleFeeLevel snapshot txInLedger;
          minProcessingFeeLevel =
            (if isFull q \<and> length (byFee q) > 0
             then CandFeeLevel (cands q ! (byFee q ! (length (byFee q) - 1))) + 1 else BaseLevel)
      in \<lparr>TxCount = of_nat (length (byFee q)), TxQMaxSize = maxSize q, TxInLedger = txInLedger,
          TxPerLedger = TxnsExpected snapshot, ReferenceFeeLevel = BaseLevel,
          MinProcessingFeeLevel = minProcessingFeeLevel,
          MedFeeLevel = EscalationMultiplier snapshot,
          OpenLedgerFeeLevel = openLedgerFeeLevel\<rparr>)"

definition GetRequiredFeeLevel :: "TxQ \<Rightarrow> u32 \<Rightarrow> FeeLevel" where
  "GetRequiredFeeLevel q txInLedger = ScaleFeeLevel (GetSnapshot (feeMetrics q)) txInLedger"

section \<open>The fee order\<close>

definition xorHash :: "Hash256 \<Rightarrow> Hash256 \<Rightarrow> Hash256" where
  "xorHash a b = map2 (\<lambda>x y. x XOR y) a b"

fun compareHashes :: "Hash256 \<Rightarrow> Hash256 \<Rightarrow> int" where
  "compareHashes (a # as) (b # bs) =
     (if a < b then -1 else if a > b then 1 else compareHashes as bs)"
| "compareHashes _ _ = 0"

definition candLess :: "Hash256 \<Rightarrow> Candidate \<Rightarrow> Candidate \<Rightarrow> bool" where
  "candLess ph a b =
     (if CandFeeLevel a \<noteq> CandFeeLevel b then CandFeeLevel a > CandFeeLevel b
      else compareHashes (xorHash (TxID a) ph) (xorHash (TxID b) ph) < 0)"

definition candidateLess :: "TxQ \<Rightarrow> ref \<Rightarrow> ref \<Rightarrow> bool" where
  "candidateLess q a b = candLess (parentHash q) (cands q ! a) (cands q ! b)"

definition findInsertPosition :: "TxQ \<Rightarrow> ref \<Rightarrow> nat" where
  "findInsertPosition q c = bsearch (\<lambda>mid. candidateLess q c (byFee q ! mid)) 0 (length (byFee q))"

definition insertByFee :: "ref \<Rightarrow> TxQ \<Rightarrow> TxQ" where
  "insertByFee c q =
     (let pos = findInsertPosition q c
      in q\<lparr>byFee := take pos (byFee q) @ c # drop pos (byFee q)\<rparr>)"

section \<open>Removal and rebuilding\<close>

definition removeByFee :: "ref \<Rightarrow> TxQ \<Rightarrow> TxQ" where
  "removeByFee c q = q\<lparr>byFee := remove1 c (byFee q)\<rparr>"

definition erase :: "ref \<Rightarrow> TxQ \<Rightarrow> TxQ" where
  "erase c q =
     (let q1 = removeByFee c q; cand = cands q ! c
      in case map_of (byAccount q1) (Account cand) of
           None \<Rightarrow> q1
         | Some aq \<Rightarrow>
             let aq' = fst (AqRemove aq (CandSeqProxy cand))
             in if AqEmpty aq' then q1\<lparr>byAccount := AList.delete (Account cand) (byAccount q1)\<rparr>
                else q1\<lparr>byAccount := AList.update (Account cand) aq' (byAccount q1)\<rparr>)"

definition rebuildByFee :: "TxQ \<Rightarrow> TxQ" where
  "rebuildByFee q =
     fold (\<lambda>(_, aq). fold (\<lambda>(_, c). insertByFee c) (Transactions aq)) (byAccount q) (q\<lparr>byFee := []\<rparr>)"

section \<open>Queries\<close>

record CandidateDetails =
  DTxID :: Hash256
  DAccount :: AccountID
  DFeeLevel :: FeeLevel
  DSeqProxy :: SeqProxy
  DLastValid :: u32
  DRetriesRemaining :: int
  DLastResult :: Result

definition details :: "Candidate \<Rightarrow> CandidateDetails" where
  "details c = \<lparr>DTxID = TxID c, DAccount = Account c, DFeeLevel = CandFeeLevel c,
     DSeqProxy = CandSeqProxy c, DLastValid = LastValid c,
     DRetriesRemaining = RetriesRemaining c, DLastResult = LastResult c\<rparr>"

definition GetAccountTxs :: "TxQ \<Rightarrow> AccountID \<Rightarrow> CandidateDetails list" where
  "GetAccountTxs q account =
     (case map_of (byAccount q) account of
        None \<Rightarrow> []
      | Some aq \<Rightarrow> if AqEmpty aq then []
                   else map (\<lambda>c. details (cands q ! c)) (GetSortedCandidates (cands q) aq))"

definition GetAllTxs :: "TxQ \<Rightarrow> CandidateDetails list" where
  "GetAllTxs q = map (\<lambda>c. details (cands q ! c)) (byFee q)"

section \<open>Invariants\<close>

definition fee_sorted :: "TxQ \<Rightarrow> bool" where
  "fee_sorted q = sorted_wrt (\<lambda>a b. \<not> candidateLess q b a) (byFee q)"

text \<open>The account queues hold no key twice and none of them is empty.\<close>

definition accounts_wf :: "(AccountID \<times> AccountQueue) list \<Rightarrow> bool" where
  "accounts_wf al \<longleftrightarrow> distinct (map fst al) \<and>
     (\<forall>(a, aq) \<in> set al. distinct (map fst (Transactions aq)) \<and> Transactions aq \<noteq> [])"

definition entry_wf :: "TxQ \<Rightarrow> AccountID \<times> AccountQueue \<Rightarrow> bool" where
  "entry_wf q = (\<lambda>(a, aq). \<forall>(sp, c) \<in> set (Transactions aq).
     c \<in> set (byFee q) \<and> Account (cands q ! c) = a \<and> CandSeqProxy (cands q ! c) = sp)"

text \<open>What holds of every reachable queue.\<close>

definition txq_wf :: "TxQ \<Rightarrow> bool" where
  "txq_wf q \<longleftrightarrow> length (parentHash q) = 32 \<and> (\<forall>c \<in> set (cands q). length (TxID c) = 32) \<and>
     distinct (byFee q) \<and> (\<forall>r \<in> set (byFee q). r < length (cands q)) \<and> fee_sorted q \<and>
     accounts_wf (byAccount q) \<and> (\<forall>e \<in> set (byAccount q). entry_wf q e)"

text \<open>
  The abstract view of the account queues: the candidate queued for an account and a sequence
  proxy.
\<close>

definition queued :: "TxQ \<Rightarrow> AccountID \<Rightarrow> SeqProxy \<Rightarrow> ref option" where
  "queued q a sp = (case map_of (byAccount q) a of None \<Rightarrow> None | Some aq \<Rightarrow> map_of (Transactions aq) sp)"

text \<open>The candidate is found under its account and sequence proxy.\<close>

definition indexed :: "TxQ \<Rightarrow> ref \<Rightarrow> bool" where
  "indexed q c = (queued q (Account (cands q ! c)) (CandSeqProxy (cands q ! c)) = Some c)"

text \<open>The two indexes hold the same candidates.\<close>

definition txq_inv :: "TxQ \<Rightarrow> bool" where
  "txq_inv q \<longleftrightarrow> txq_wf q \<and> (\<forall>c \<in> set (byFee q). indexed q c)"

section \<open>The fee order is a strict weak order\<close>

lemma compareHashes_less:
  "length a = length b \<Longrightarrow> compareHashes a b < 0 \<longleftrightarrow> ord_class.lexordp a b"
  by (induction a b rule: compareHashes.induct) (auto simp: less_not_sym)

locale insertion_order =
  fixes ok :: "'a \<Rightarrow> bool" and lt :: "'a \<Rightarrow> 'a \<Rightarrow> bool"
  assumes lt_asym: "ok a \<Longrightarrow> ok b \<Longrightarrow> lt a b \<Longrightarrow> \<not> lt b a"
    and lt_weak: "ok a \<Longrightarrow> ok b \<Longrightarrow> ok c \<Longrightarrow> \<not> lt b a \<Longrightarrow> \<not> lt c b \<Longrightarrow> \<not> lt c a"
begin

lemma search_split:
  assumes "\<forall>x \<in> set xs. ok x" "ok c" "sorted_wrt (\<lambda>a b. \<not> lt b a) xs" "i < length xs"
  shows "lt c (xs ! i) \<longleftrightarrow> bsearch (\<lambda>i. lt c (xs ! i)) 0 (length xs) \<le> i"
proof (rule bsearch_split [of 0 "length xs" "\<lambda>i. lt c (xs ! i)" i])
  fix i j
  assume ij: "i \<le> j" "j < length xs" "lt c (xs ! i)"
  show "lt c (xs ! j)"
  proof (cases "i = j")
    case False
    then have "\<not> lt (xs ! j) (xs ! i)"
      using ij assms(3) by (simp add: sorted_wrt_iff_nth_less)
    moreover have "ok (xs ! i)" "ok (xs ! j)"
      using ij assms(1) by simp_all
    ultimately show ?thesis
      using lt_weak [of "xs ! i" "xs ! j" c] ij(3) assms(2) by blast
  qed (use ij in simp)
qed (use assms in simp_all)

text \<open>Inserting at the position the binary search finds keeps the list sorted, after the elements
  equivalent to the new one.\<close>

lemma insert_at_search_sorted:
  assumes "\<forall>x \<in> set xs. ok x" "ok c" "sorted_wrt (\<lambda>a b. \<not> lt b a) xs"
  defines "pos \<equiv> bsearch (\<lambda>i. lt c (xs ! i)) 0 (length xs)"
  shows "sorted_wrt (\<lambda>a b. \<not> lt b a) (take pos xs @ c # drop pos xs)"
proof -
  note split = search_split [OF assms(1-3), folded pos_def]
  have pos: "pos \<le> length xs"
    using bsearch_bounds [of 0 "length xs"] by (simp add: pos_def)
  have before: "\<not> lt c x" if "x \<in> set (take pos xs)" for x
    using that split pos by (auto simp: in_set_conv_nth)
  have after: "\<not> lt x c" if x: "x \<in> set (drop pos xs)" for x
  proof -
    obtain i where "i < length xs - pos" "x = xs ! (pos + i)"
      using x by (auto simp: in_set_conv_nth)
    then have "lt c x" "ok x"
      using split [of "pos + i"] assms(1) by auto
    then show ?thesis
      using lt_asym assms(2) by blast
  qed
  have "sorted_wrt (\<lambda>a b. \<not> lt b a) (take pos xs @ drop pos xs)"
    using assms(3) by simp
  then show ?thesis
    using before after unfolding sorted_wrt_append by auto
qed

end

lemma candLess_iff:
  assumes "length (TxID a) = 32" "length (TxID b) = 32"
  shows "candLess ph a b \<longleftrightarrow> CandFeeLevel a > CandFeeLevel b \<or>
    CandFeeLevel a = CandFeeLevel b \<and> ord_class.lexordp (xorHash (TxID a) ph) (xorHash (TxID b) ph)"
  using assms by (auto simp: candLess_def compareHashes_less xorHash_def)

lemma lexordp_weak:
  fixes x y z :: "'a::linorder list"
  assumes "\<not> ord_class.lexordp x y" "\<not> ord_class.lexordp z x"
  shows "\<not> ord_class.lexordp z y"
  using lexordp_linear [of x y] lexordp_linear [of z x] assms
    lexordp_trans [of y x z] lexordp_antisym [of y z] by blast

interpretation fee: insertion_order "\<lambda>c. length (TxID c) = 32" "candLess ph"
proof
  fix a b c :: Candidate
  assume l: "length (TxID a) = 32" "length (TxID b) = 32"
  then show "candLess ph a b \<Longrightarrow> \<not> candLess ph b a"
    by (auto simp: candLess_iff dest: lexordp_antisym)
  assume "length (TxID c) = 32" "\<not> candLess ph b a" "\<not> candLess ph c b"
  with l show "\<not> candLess ph c a"
    using lexordp_weak [of "xorHash (TxID b) ph" "xorHash (TxID a) ph" "xorHash (TxID c) ph"]
    by (auto simp: candLess_iff)
qed

section \<open>The abstract view of the updates\<close>

lemma accounts_wf_lookup:
  "accounts_wf al \<Longrightarrow> map_of al a = Some aq \<Longrightarrow> distinct (map fst (Transactions aq)) \<and> Transactions aq \<noteq> []"
  by (auto simp: accounts_wf_def dest: map_of_SomeD)

lemma accounts_wf_update:
  assumes "accounts_wf al" "distinct (map fst (Transactions aq))" "Transactions aq \<noteq> []"
  shows "accounts_wf (AList.update a aq al)"
proof -
  have "distinct (map fst (Transactions b)) \<and> Transactions b \<noteq> []"
    if "(x, b) \<in> set (AList.update a aq al)" for x b
  proof -
    have "map_of (AList.update a aq al) x = Some b"
      using that assms(1) by (simp add: accounts_wf_def distinct_update)
    then have "x = a \<and> b = aq \<or> map_of al x = Some b"
      by (auto simp: update_conv' split: if_splits)
    then show ?thesis
      using assms accounts_wf_lookup by blast
  qed
  then show ?thesis
    using assms(1) by (auto simp: accounts_wf_def distinct_update)
qed

lemma accounts_wf_delete:
  assumes "accounts_wf al"
  shows "accounts_wf (AList.delete a al)"
proof -
  have "set (AList.delete a al) \<subseteq> set al"
    by (auto simp: AList.delete_eq)
  then show ?thesis
    using assms by (auto simp: accounts_wf_def distinct_delete)
qed

lemma txq_wf_iff:
  "txq_wf q \<longleftrightarrow> length (parentHash q) = 32 \<and> (\<forall>c \<in> set (cands q). length (TxID c) = 32) \<and>
     distinct (byFee q) \<and> (\<forall>r \<in> set (byFee q). r < length (cands q)) \<and> fee_sorted q \<and>
     accounts_wf (byAccount q) \<and>
     (\<forall>a sp c. queued q a sp = Some c \<longrightarrow>
        c \<in> set (byFee q) \<and> Account (cands q ! c) = a \<and> CandSeqProxy (cands q ! c) = sp)"
proof -
  have "(\<forall>e \<in> set (byAccount q). entry_wf q e) \<longleftrightarrow> (\<forall>a sp c. queued q a sp = Some c \<longrightarrow>
        c \<in> set (byFee q) \<and> Account (cands q ! c) = a \<and> CandSeqProxy (cands q ! c) = sp)"
    (is "?L \<longleftrightarrow> ?R") if wf: "accounts_wf (byAccount q)"
  proof
    assume ?L
    then show ?R
      by (fastforce simp: queued_def entry_wf_def split: option.splits dest: map_of_SomeD)
  next
    assume R: ?R
    have "queued q a sp = Some c" if "(a, aq) \<in> set (byAccount q)" "(sp, c) \<in> set (Transactions aq)" for a aq sp c
      using that wf by (auto simp: queued_def accounts_wf_def)
    then show ?L
      using R by (fastforce simp: entry_wf_def)
  qed
  then show ?thesis
    by (auto simp: txq_wf_def)
qed

lemma erase_simps [simp]:
  "byFee (erase c q) = remove1 c (byFee q)"
  "cands (erase c q) = cands q"
  "parentHash (erase c q) = parentHash q"
  "config (erase c q) = config q"
  "feeMetrics (erase c q) = feeMetrics q"
  "maxSize (erase c q) = maxSize q"
  by (simp_all add: erase_def removeByFee_def Let_def split: option.split)

lemma insertByFee_simps [simp]:
  "byAccount (insertByFee c q) = byAccount q"
  "cands (insertByFee c q) = cands q"
  "parentHash (insertByFee c q) = parentHash q"
  "config (insertByFee c q) = config q"
  "feeMetrics (insertByFee c q) = feeMetrics q"
  "maxSize (insertByFee c q) = maxSize q"
  by (simp_all add: insertByFee_def Let_def)

lemma mset_byFee_insertByFee [simp]: "mset (byFee (insertByFee c q)) = add_mset c (mset (byFee q))"
proof -
  have "mset (take n xs) + mset (drop n xs) = mset xs" for n and xs :: "ref list"
    by (metis append_take_drop_id mset_append)
  then show ?thesis
    by (simp add: insertByFee_def Let_def)
qed

lemma set_byFee_insertByFee [simp]: "set (byFee (insertByFee c q)) = insert c (set (byFee q))"
  by (metis mset_byFee_insertByFee set_mset_add_mset_insert set_mset_mset)

lemma map_of_delete_empty: "AList.delete k xs = [] \<Longrightarrow> x \<noteq> k \<Longrightarrow> map_of xs x = None"
  using delete_conv' [of k xs] by (auto simp: fun_eq_iff split: if_splits)

lemma queued_erase [simp]:
  "queued (erase c q) a sp =
     (if a = Account (cands q ! c) \<and> sp = CandSeqProxy (cands q ! c) then None else queued q a sp)"
proof (cases "map_of (byAccount q) (Account (cands q ! c))")
  case None
  then show ?thesis
    by (simp add: erase_def removeByFee_def queued_def)
next
  case (Some aq)
  then show ?thesis
    by (cases "map_of (Transactions aq) (CandSeqProxy (cands q ! c))")
      (auto simp: erase_def removeByFee_def queued_def Let_def AqRemove_def AqEmpty_def
        update_conv' delete_conv' map_of_delete_empty)
qed

lemma accounts_wf_erase: "accounts_wf (byAccount q) \<Longrightarrow> accounts_wf (byAccount (erase c q))"
  by (auto simp: erase_def removeByFee_def Let_def AqRemove_def AqEmpty_def distinct_delete
      split: option.split intro!: accounts_wf_update accounts_wf_delete dest: accounts_wf_lookup)

section \<open>The updates keep the invariants\<close>

lemma sorted_wrt_remove1: "sorted_wrt P xs \<Longrightarrow> sorted_wrt P (remove1 x xs)"
  by (induction xs) (auto dest: notin_set_remove1)

lemma fee_sorted_cong:
  "byFee q' = byFee q \<Longrightarrow> cands q' = cands q \<Longrightarrow> parentHash q' = parentHash q \<Longrightarrow> fee_sorted q' = fee_sorted q"
  by (simp add: fee_sorted_def candidateLess_def)

lemma erase_wf:
  assumes "txq_wf q"
  shows "txq_wf (erase c q)"
proof -
  have "fee_sorted (erase c q)"
    using assms by (simp add: txq_wf_iff fee_sorted_def candidateLess_def sorted_wrt_remove1)
  moreover have "r \<in> set (remove1 c (byFee q))"
    if "queued q a sp = Some r" "a \<noteq> Account (cands q ! c) \<or> sp \<noteq> CandSeqProxy (cands q ! c)" for a sp r
    using assms that by (auto simp: txq_wf_iff)
  ultimately show ?thesis
    using assms unfolding txq_wf_iff
    by (auto simp: accounts_wf_erase dest: notin_set_remove1 split: if_splits)
qed

lemma erase_inv:
  assumes "txq_inv q" "c \<in> set (byFee q)"
  shows "txq_inv (erase c q)"
proof -
  have "indexed (erase c q) r" if r: "r \<in> set (remove1 c (byFee q))" for r
  proof -
    have "r \<noteq> c" "indexed q r" "indexed q c"
      using r assms by (auto simp: txq_inv_def txq_wf_def dest: notin_set_remove1)
    then show ?thesis
      by (auto simp: indexed_def)
  qed
  then show ?thesis
    using assms(1) erase_wf by (simp add: txq_inv_def)
qed

lemma insertByFee_sorted:
  assumes "\<forall>c \<in> set (cands q). length (TxID c) = 32" "\<forall>r \<in> set (byFee q). r < length (cands q)"
    "fee_sorted q" "c < length (cands q)"
  shows "fee_sorted (insertByFee c q)"
proof -
  let ?xs = "map ((!) (cands q)) (byFee q)"
  let ?pos = "bsearch (\<lambda>i. candLess (parentHash q) (cands q ! c) (?xs ! i)) 0 (length ?xs)"
  have pos: "findInsertPosition q c = ?pos"
    unfolding findInsertPosition_def candidateLess_def
    by (auto intro: bsearch_cong)
  have "sorted_wrt (\<lambda>a b. \<not> candLess (parentHash q) b a) (take ?pos ?xs @ (cands q ! c) # drop ?pos ?xs)"
    using assms by (intro fee.insert_at_search_sorted)
      (auto simp: fee_sorted_def candidateLess_def sorted_wrt_map)
  then show ?thesis
    by (simp add: fee_sorted_def candidateLess_def insertByFee_def pos Let_def
        sorted_wrt_append sorted_wrt_map take_map drop_map)
qed

section \<open>Rebuilding the fee index\<close>

definition account_refs :: "TxQ \<Rightarrow> ref list" where
  "account_refs q = concat (map (\<lambda>(_, aq). map snd (Transactions aq)) (byAccount q))"

lemma rebuildByFee_fold: "rebuildByFee q = fold insertByFee (account_refs q) (q\<lparr>byFee := []\<rparr>)"
proof -
  have inner: "fold (\<lambda>(_, c). insertByFee c) ts = fold insertByFee (map snd ts)" for ts :: "(SeqProxy \<times> ref) list"
    by (induction ts) auto
  have "fold (\<lambda>(_, aq). fold (\<lambda>(_, c). insertByFee c) (Transactions aq)) al q'
      = fold insertByFee (concat (map (\<lambda>(_, aq). map snd (Transactions aq)) al)) q'" for al q'
    by (induction al arbitrary: q') (auto simp: inner)
  then show ?thesis
    by (simp add: rebuildByFee_def account_refs_def)
qed

lemma fold_insertByFee_simps [simp]:
  "byAccount (fold insertByFee cs q) = byAccount q"
  "cands (fold insertByFee cs q) = cands q"
  "parentHash (fold insertByFee cs q) = parentHash q"
  "config (fold insertByFee cs q) = config q"
  "feeMetrics (fold insertByFee cs q) = feeMetrics q"
  "maxSize (fold insertByFee cs q) = maxSize q"
  "mset (byFee (fold insertByFee cs q)) = mset cs + mset (byFee q)"
  by (induction cs arbitrary: q) simp_all

lemma set_byFee_fold [simp]: "set (byFee (fold insertByFee cs q)) = set cs \<union> set (byFee q)"
  by (induction cs arbitrary: q) auto

lemma fold_insertByFee_sorted:
  assumes "\<forall>c \<in> set (cands q). length (TxID c) = 32" "\<forall>r \<in> set (byFee q). r < length (cands q)"
    "fee_sorted q" "\<forall>c \<in> set cs. c < length (cands q)"
  shows "fee_sorted (fold insertByFee cs q)"
  using assms
proof (induction cs arbitrary: q)
  case (Cons c cs)
  then show ?case
    by (auto intro!: Cons.IH insertByFee_sorted)
qed simp

lemma account_keys_distinct:
  "accounts_wf al \<Longrightarrow> distinct (concat (map (\<lambda>(a, aq). map (\<lambda>(sp, _). (a, sp)) (Transactions aq)) al))"
proof (induction al)
  case (Cons e al)
  obtain a aq where e: "e = (a, aq)" by fastforce
  have "distinct (map (\<lambda>(sp, _). (a, sp)) (Transactions aq))"
  proof -
    have "map (\<lambda>(sp, _). (a, sp)) (Transactions aq) = map (Pair a) (map fst (Transactions aq))"
      by auto
    moreover have "distinct (map fst (Transactions aq))"
      using Cons.prems by (simp add: e accounts_wf_def)
    ultimately show ?thesis
      by (simp only: distinct_map) (simp add: inj_on_def)
  qed
  moreover have "accounts_wf al"
    using Cons.prems by (auto simp: e accounts_wf_def)
  moreover have "a \<notin> fst ` set al"
    using Cons.prems by (simp add: e accounts_wf_def)
  ultimately show ?case
    using Cons.IH by (force simp: e)
qed simp

lemma set_account_refs:
  assumes "accounts_wf (byAccount q)"
  shows "c \<in> set (account_refs q) \<longleftrightarrow> (\<exists>a sp. queued q a sp = Some c)"
proof
  assume "c \<in> set (account_refs q)"
  then obtain a aq sp where "(a, aq) \<in> set (byAccount q)" "(sp, c) \<in> set (Transactions aq)"
    by (auto simp: account_refs_def)
  then have "queued q a sp = Some c"
    using assms by (auto simp: queued_def accounts_wf_def)
  then show "\<exists>a sp. queued q a sp = Some c" by blast
next
  assume "\<exists>a sp. queued q a sp = Some c"
  then obtain a sp aq where "map_of (byAccount q) a = Some aq" "map_of (Transactions aq) sp = Some c"
    by (auto simp: queued_def split: option.splits)
  then have "(a, aq) \<in> set (byAccount q)" "(sp, c) \<in> set (Transactions aq)"
    by (auto dest: map_of_SomeD)
  then show "c \<in> set (account_refs q)"
    by (force simp: account_refs_def)
qed

lemma distinct_account_refs:
  assumes "txq_wf q"
  shows "distinct (account_refs q)"
proof -
  have wf: "accounts_wf (byAccount q)" "\<forall>e \<in> set (byAccount q). entry_wf q e"
    using assms by (simp_all add: txq_wf_def)
  have key: "Account (cands q ! c) = a \<and> CandSeqProxy (cands q ! c) = sp"
    if "(a, aq) \<in> set (byAccount q)" "(sp, c) \<in> set (Transactions aq)" for a aq sp c
    using that wf(2) by (fastforce simp: entry_wf_def)
  have eq: "map (\<lambda>c. (Account (cands q ! c), CandSeqProxy (cands q ! c))) (account_refs q)
      = concat (map (\<lambda>(a, aq). map (\<lambda>(sp, _). (a, sp)) (Transactions aq)) (byAccount q))"
    unfolding account_refs_def map_concat map_map
    by (intro arg_cong [where f = concat] map_cong) (auto, (drule (1) key, simp)+)
  show ?thesis
    using account_keys_distinct [OF wf(1)] unfolding eq [symmetric] by (simp only: distinct_map)
qed

lemma rebuildByFee_simps [simp]:
  "byAccount (rebuildByFee q) = byAccount q"
  "cands (rebuildByFee q) = cands q"
  "parentHash (rebuildByFee q) = parentHash q"
  "config (rebuildByFee q) = config q"
  "feeMetrics (rebuildByFee q) = feeMetrics q"
  "maxSize (rebuildByFee q) = maxSize q"
  "mset (byFee (rebuildByFee q)) = mset (account_refs q)"
  by (simp_all add: rebuildByFee_fold)

lemma queued_byAccount: "byAccount q' = byAccount q \<Longrightarrow> queued q' = queued q"
  by (simp add: queued_def fun_eq_iff)

lemma rebuildByFee_inv:
  assumes "txq_wf q" "length ph = 32"
  shows "txq_inv (rebuildByFee (q\<lparr>parentHash := ph\<rparr>))"
proof -
  let ?q = "q\<lparr>parentHash := ph\<rparr>"
  have wf: "accounts_wf (byAccount q)"
    using assms(1) by (simp add: txq_wf_def)
  have refs: "account_refs ?q = account_refs q"
    by (simp add: account_refs_def)
  have set: "set (byFee (rebuildByFee ?q)) = set (account_refs q)"
    by (simp add: rebuildByFee_fold refs)
  have dist: "distinct (byFee (rebuildByFee ?q))"
    using distinct_account_refs [OF assms(1)] rebuildByFee_simps(7) [of ?q] refs
    by (metis mset_eq_imp_distinct_iff)
  have qd: "queued (rebuildByFee ?q) = queued q"
    by (rule queued_byAccount) simp
  have in_q: "c < length (cands q)" "indexed q c" if "c \<in> set (account_refs q)" for c
    using that assms(1) wf by (auto simp: set_account_refs indexed_def txq_wf_iff)
  have "fee_sorted (rebuildByFee ?q)"
    unfolding rebuildByFee_fold refs using assms(1) in_q(1)
    by (intro fold_insertByFee_sorted) (auto simp: txq_wf_def fee_sorted_def)
  then have "txq_wf (rebuildByFee ?q)"
    using assms dist in_q wf unfolding txq_wf_iff set qd by (auto simp: set_account_refs)
  then show ?thesis
    using in_q(2) unfolding txq_inv_def set by (auto simp: indexed_def qd)
qed

lemma rebuildByFee_subset:
  assumes "txq_wf q"
  shows "set (byFee (rebuildByFee (q\<lparr>parentHash := ph\<rparr>))) \<subseteq> set (byFee q)"
proof -
  have "account_refs (q\<lparr>parentHash := ph\<rparr>) = account_refs q"
    by (simp add: account_refs_def)
  then have "set (byFee (rebuildByFee (q\<lparr>parentHash := ph\<rparr>))) = set (account_refs q)"
    by (simp add: rebuildByFee_fold)
  also have "\<dots> \<subseteq> set (byFee q)"
    using assms by (auto simp: txq_wf_iff set_account_refs)
  finally show ?thesis .
qed

end
