(* ===== verification/TxqApply.thy ===== *)
theory TxqApply
  imports TxqQueue
begin

text \<open>
  Submitting a transaction (\<open>internal/txq/apply.go\<close>): it enters the open ledger directly, replaces
  a queued transaction, clears the account's queue by paying for it, is queued, or is rejected.
  The open ledger is the abstract state \<open>'l\<close> behind \<open>ApplyContext\<close>; the value \<open>None\<close> of
  \<open>Apply\<close> is a nil pointer dereference.
\<close>

record ApplyResult =
  Res :: Result
  Applied :: bool
  Queued :: bool

record 'l ApplyContext =
  GetAccountSequence :: "'l \<Rightarrow> AccountID \<Rightarrow> u32"
  AccountExists :: "'l \<Rightarrow> AccountID \<Rightarrow> bool"
  TicketExists :: "'l \<Rightarrow> AccountID \<Rightarrow> u32 \<Rightarrow> bool"
  GetAccountBalance :: "'l \<Rightarrow> AccountID \<Rightarrow> u64"
  GetAccountReserve :: "'l \<Rightarrow> u32 \<Rightarrow> u64"
  GetBaseFee :: "'l \<Rightarrow> Transaction \<Rightarrow> u64"
  GetTxInLedger :: "'l \<Rightarrow> u32"
  GetLedgerSequence :: "'l \<Rightarrow> u32"
  ApplyTransaction :: "'l \<Rightarrow> Transaction \<Rightarrow> (Result \<times> bool) \<times> 'l"
  PreclaimTransaction :: "'l \<Rightarrow> Transaction \<Rightarrow> AccountID \<Rightarrow> u64 \<Rightarrow> u32 \<Rightarrow> Result"

definition rejected :: "Result \<Rightarrow> ApplyResult" where
  "rejected r = \<lparr>Res = r, Applied = False, Queued = False\<rparr>"

section \<open>Consequences of a transaction\<close>

definition tfRequireAuth :: u32 where "tfRequireAuth = 0x00040000"
definition tfOptionalAuth :: u32 where "tfOptionalAuth = 0x00080000"
definition asfRequireAuth :: u32 where "asfRequireAuth = 2"
definition asfDisableMaster :: u32 where "asfDisableMaster = 4"
definition asfAccountTxnID :: u32 where "asfAccountTxnID = 5"

definition auth_flag :: "u32 option \<Rightarrow> bool" where
  "auth_flag f = (case f of None \<Rightarrow> False
     | Some v \<Rightarrow> v = asfRequireAuth \<or> v = asfDisableMaster \<or> v = asfAccountTxnID)"

definition isAccountSetBlocker :: "Common \<Rightarrow> TxBody \<Rightarrow> bool" where
  "isAccountSetBlocker common b =
     (case b of
        AccountSet setFlag clearFlag \<Rightarrow>
          if (case Flags common of None \<Rightarrow> False
              | Some flags \<Rightarrow> flags AND (tfRequireAuth OR tfOptionalAuth) \<noteq> 0) then True
          else if auth_flag setFlag then True
          else auth_flag clearFlag
      | _ \<Rightarrow> False)"

definition computeConsequences :: "Common \<Rightarrow> TxBody \<Rightarrow> SeqProxy \<Rightarrow> TxConsequences" where
  "computeConsequences common b seqProxy =
     \<lparr>ConsFee = ParseUint (Fee common),
      PotentialSpend =
        (case b of
           Payment a \<Rightarrow> if IsNative a then Drops a else 0
         | OfferCreate a \<Rightarrow> if IsNative a then Drops a else 0
         | _ \<Rightarrow> 0),
      IsBlocker =
        (case b of
           RegularKeySet \<Rightarrow> True
         | SignerListSet \<Rightarrow> True
         | AccountSet _ _ \<Rightarrow> isAccountSetBlocker common b
         | _ \<Rightarrow> False),
      FollowingSeq =
        (if IsTicket seqProxy then seqProxy
         else NewSeqProxySequence
                (case b of
                   TicketCreate n \<Rightarrow> if n > 0 then Value seqProxy + n else Value seqProxy + 1
                 | _ \<Rightarrow> Value seqProxy + 1))\<rparr>"

definition canBeQueued :: "Result \<Rightarrow> bool" where
  "canBeQueued r = (r = TerPRE_SEQ \<or> r = TerQUEUED)"

section \<open>The per-account limit\<close>

text \<open>The walk over the sorted candidates after the one at the account's sequence.\<close>

fun nextSeq_walk :: "store \<Rightarrow> SeqProxy \<Rightarrow> u32 \<Rightarrow> ref list \<Rightarrow> u32" where
  "nextSeq_walk h acctSeqProx attempt [] = attempt"
| "nextSeq_walk h acctSeqProx attempt (c # cs) =
     (let sp = CandSeqProxy (h ! c)
      in if IsTicket sp then nextSeq_walk h acctSeqProx attempt cs
         else if Less sp acctSeqProx then nextSeq_walk h acctSeqProx attempt cs
         else if attempt < Value sp then attempt
         else nextSeq_walk h acctSeqProx (Value (FollowingSeq (Consequences (h ! c)))) cs)"

definition getNextQueuableSeq :: "store \<Rightarrow> AccountQueue option \<Rightarrow> u32 \<Rightarrow> u32" where
  "getNextQueuableSeq h aqo acctSeq =
     (case aqo of
        None \<Rightarrow> acctSeq
      | Some aq \<Rightarrow>
          if AqEmpty aq then acctSeq
          else let acctSeqProx = NewSeqProxySequence acctSeq;
                   srt = GetSortedCandidates h aq;
                   rest = dropWhile (\<lambda>c. IsTicket (CandSeqProxy (h ! c)) \<or> Less (CandSeqProxy (h ! c)) acctSeqProx) srt
               in case rest of
                    [] \<Rightarrow> acctSeq
                  | c # cs \<Rightarrow>
                      if CandSeqProxy (h ! c) = acctSeqProx
                      then nextSeq_walk h acctSeqProx (Value (FollowingSeq (Consequences (h ! c)))) cs
                      else acctSeq)"

definition canBeHeld :: "TxQ \<Rightarrow> AccountQueue \<Rightarrow> ref option \<Rightarrow> SeqProxy \<Rightarrow> u32 \<Rightarrow> Result option" where
  "canBeHeld q aq replacing seqProxy acctSeq =
     (if replacing \<noteq> None \<or> of_nat (AqCount aq) < MaximumTxnPerAccount (config q) then None
      else let nextSeq = getNextQueuableSeq (cands q) (Some aq) acctSeq
           in if \<not> IsTicket seqProxy \<and> Value seqProxy = nextSeq
              then if list_ex (\<lambda>(sp, _). \<not> IsTicket sp \<and> Value sp > Value seqProxy) (Transactions aq)
                   then None else Some TelCAN_NOT_QUEUE_FULL
              else Some TelCAN_NOT_QUEUE_FULL)"

section \<open>The checks before queuing\<close>

definition seqProxyOf :: "Common \<Rightarrow> SeqProxy option" where
  "seqProxyOf common =
     (case TicketSequence common of
        Some t \<Rightarrow> if t \<noteq> 0 then Some (NewSeqProxyTicket t)
                  else map_option NewSeqProxySequence (Sequence common)
      | None \<Rightarrow> map_option NewSeqProxySequence (Sequence common))"

definition lastValidOf :: "Common \<Rightarrow> u32" where
  "lastValidOf common = (case LastLedgerSequence common of None \<Rightarrow> 0 | Some v \<Rightarrow> v)"

definition holdCheck ::
  "'l ApplyContext \<Rightarrow> 'l \<Rightarrow> TxQ \<Rightarrow> Common \<Rightarrow> AccountID \<Rightarrow> SeqProxy \<Rightarrow> u32 \<Rightarrow> u32 \<Rightarrow> Result option" where
  "holdCheck ctx l q common account seqProxy acctSeq ledgerSeq =
     (if AccountTxnID common \<noteq> '''' then Some TelCAN_NOT_QUEUE
      else if \<not> AccountExists ctx l account then Some TerNO_ACCOUNT
      else if IsTicket seqProxy \<and> \<not> TicketExists ctx l account (Value seqProxy)
      then (if Value seqProxy < acctSeq then Some TefNO_TICKET else Some TerPRE_TICKET)
      else if lastValidOf common \<noteq> 0 \<and> lastValidOf common < ledgerSeq + MinimumLastLedgerBuffer (config q)
      then Some TelCAN_NOT_QUEUE
      else None)"

definition acctTxCountOf :: "AccountQueue option \<Rightarrow> SeqProxy \<Rightarrow> nat" where
  "acctTxCountOf aqo acctSeqProx =
     (case aqo of None \<Rightarrow> 0 | Some aq \<Rightarrow> RelevantCount aq acctSeqProx)"

definition firstRelevantOf :: "store \<Rightarrow> AccountQueue option \<Rightarrow> SeqProxy \<Rightarrow> ref option" where
  "firstRelevantOf h aqo acctSeqProx =
     (case aqo of None \<Rightarrow> None | Some aq \<Rightarrow> FirstRelevant h aq acctSeqProx)"

definition replacingOf :: "AccountQueue option \<Rightarrow> SeqProxy \<Rightarrow> ref option" where
  "replacingOf aqo seqProxy = (case aqo of None \<Rightarrow> None | Some aq \<Rightarrow> map_of (Transactions aq) seqProxy)"

definition blockerCheck :: "store \<Rightarrow> AccountQueue option \<Rightarrow> SeqProxy \<Rightarrow> SeqProxy \<Rightarrow> TxConsequences \<Rightarrow> Result option" where
  "blockerCheck h aqo acctSeqProx seqProxy consequences =
     (let acctTxCount = acctTxCountOf aqo acctSeqProx
      in if IsBlocker consequences
         then if acctTxCount > 1 then Some TelCAN_NOT_QUEUE_BLOCKS
              else if acctTxCount = 1
              then (case firstRelevantOf h aqo acctSeqProx of
                      None \<Rightarrow> Some TelCAN_NOT_QUEUE_BLOCKS
                    | Some f \<Rightarrow> if CandSeqProxy (h ! f) \<noteq> seqProxy then Some TelCAN_NOT_QUEUE_BLOCKS else None)
              else None
         else None)"

definition blockedCheck ::
  "Config \<Rightarrow> store \<Rightarrow> AccountQueue option \<Rightarrow> SeqProxy \<Rightarrow> SeqProxy \<Rightarrow> FeeLevel \<Rightarrow> Result option" where
  "blockedCheck cfg h aqo acctSeqProx seqProxy feeLevel =
     (let acctTxCount = acctTxCountOf aqo acctSeqProx; firstRelevant = firstRelevantOf h aqo acctSeqProx
      in if acctTxCount > 0
         then if acctTxCount = 1 \<and> (case firstRelevant of None \<Rightarrow> False
                | Some f \<Rightarrow> IsBlocker (Consequences (h ! f)) \<and> CandSeqProxy (h ! f) \<noteq> seqProxy)
              then Some TelCAN_NOT_QUEUE_BLOCKED
              else case replacingOf aqo seqProxy of
                     None \<Rightarrow> None
                   | Some r \<Rightarrow>
                       if feeLevel \<le> mulDiv (CandFeeLevel (h ! r)) (100 + u64_of_u32 (RetrySequencePercent cfg)) 100
                       then Some TelCAN_NOT_QUEUE_FEE else None
         else None)"

definition requiresMultiTxn :: "nat \<Rightarrow> ref option \<Rightarrow> bool" where
  "requiresMultiTxn acctTxCount replacing = (acctTxCount > 0 \<and> (acctTxCount > 1 \<or> replacing = None))"

definition frontCheck :: "SeqProxy \<Rightarrow> u32 \<Rightarrow> Result option" where
  "frontCheck seqProxy acctSeq =
     (if Value seqProxy < acctSeq then Some TefPAST_SEQ
      else if Value seqProxy > acctSeq then Some TerPRE_SEQ else None)"

definition multiSeqCheck :: "store \<Rightarrow> AccountQueue \<Rightarrow> ref option \<Rightarrow> SeqProxy \<Rightarrow> u32 \<Rightarrow> Result option" where
  "multiSeqCheck h aq replacing seqProxy acctSeq =
     (if IsTicket seqProxy then None
      else case GetPrevTx h aq seqProxy of
             None \<Rightarrow> frontCheck seqProxy acctSeq
           | Some p \<Rightarrow>
               if Less seqProxy (CandSeqProxy (h ! p)) \<or> Less (CandSeqProxy (h ! p)) (NewSeqProxySequence acctSeq)
               then frontCheck seqProxy acctSeq
               else if replacing = None
               then let prevFollowingSeq = Value (FollowingSeq (Consequences (h ! p)))
                    in if Value seqProxy \<noteq> prevFollowingSeq
                       then if Value seqProxy < prevFollowingSeq then Some TefPAST_SEQ else Some TelCAN_NOT_QUEUE
                       else None
               else None)"

definition hasNext :: "AccountQueue \<Rightarrow> SeqProxy \<Rightarrow> SeqProxy \<Rightarrow> bool" where
  "hasNext aq acctSeqProx seqProxy =
     list_ex (\<lambda>(sp2, _). \<not> Less sp2 acctSeqProx \<and> sp2 \<noteq> seqProxy \<and> \<not> Less sp2 seqProxy) (Transactions aq)"

text \<open>The fees and the potential spend of the transactions in flight.\<close>

definition inFlight :: "store \<Rightarrow> AccountQueue \<Rightarrow> SeqProxy \<Rightarrow> SeqProxy \<Rightarrow> TxConsequences \<Rightarrow> u64 \<times> u64" where
  "inFlight h aq acctSeqProx seqProxy consequences =
     fold (\<lambda>(sp, c) (totalFee, potentialSpend).
             if Less sp acctSeqProx then (totalFee, potentialSpend)
             else if sp \<noteq> seqProxy
             then (totalFee + ConsFee (Consequences (h ! c)), potentialSpend + PotentialSpend (Consequences (h ! c)))
             else if hasNext aq acctSeqProx seqProxy
             then (totalFee + ConsFee consequences, potentialSpend + PotentialSpend consequences)
             else (totalFee, potentialSpend))
          (Transactions aq) (0, 0)"

definition balanceCheck ::
  "'l ApplyContext \<Rightarrow> 'l \<Rightarrow> store \<Rightarrow> Transaction \<Rightarrow> AccountID \<Rightarrow> AccountQueue \<Rightarrow> SeqProxy \<Rightarrow> u32 \<Rightarrow>
   TxConsequences \<Rightarrow> Result option" where
  "balanceCheck ctx l h txn account aq seqProxy acctSeq consequences =
     (let (totalFee, potentialSpend) = inFlight h aq (NewSeqProxySequence acctSeq) seqProxy consequences;
          balance = GetAccountBalance ctx l account;
          reserve = GetAccountReserve ctx l 0;
          baseFeeVal = GetBaseFee ctx l txn
      in if totalFee \<ge> balance \<or> (reserve > 10 * baseFeeVal \<and> totalFee \<ge> reserve)
         then Some TelCAN_NOT_QUEUE_BALANCE
         else let minBalReserve = (if reserve < balance then reserve else balance);
                  spendable = balance - minBalReserve;
                  spendableAboveReserve = (if potentialSpend < spendable then potentialSpend else spendable);
                  potentialTotalSpend = totalFee + spendableAboveReserve
              in if potentialTotalSpend > 0 \<or> Value seqProxy \<noteq> acctSeq
                 then let adjustedBalance = (if potentialTotalSpend \<le> balance then balance - potentialTotalSpend else 0);
                          adjustedSeq = (if IsTicket seqProxy then getNextQueuableSeq h (Some aq) acctSeq
                                         else Value seqProxy);
                          result = PreclaimTransaction ctx l txn account adjustedBalance adjustedSeq
                      in if result \<noteq> 0 then Some result else None
                 else None)"

definition sequenceCheck ::
  "'l ApplyContext \<Rightarrow> 'l \<Rightarrow> TxQ \<Rightarrow> Transaction \<Rightarrow> AccountID \<Rightarrow> AccountQueue option \<Rightarrow> SeqProxy \<Rightarrow> u32 \<Rightarrow>
   TxConsequences \<Rightarrow> Result option" where
  "sequenceCheck ctx l q txn account aqo seqProxy acctSeq consequences =
     (let acctTxCount = acctTxCountOf aqo (NewSeqProxySequence acctSeq);
          replacing = replacingOf aqo seqProxy
      in case (if acctTxCount = 0 then None else aqo) of
           None \<Rightarrow> if \<not> IsTicket seqProxy then frontCheck seqProxy acctSeq else None
         | Some aq \<Rightarrow>
             if \<not> IsTicket seqProxy \<and> acctSeq > Value seqProxy then Some TefPAST_SEQ
             else if requiresMultiTxn acctTxCount replacing
             then (case canBeHeld q aq replacing seqProxy acctSeq of
                     Some r \<Rightarrow> Some r
                   | None \<Rightarrow>
                       case multiSeqCheck (cands q) aq replacing seqProxy acctSeq of
                         Some r \<Rightarrow> Some r
                       | None \<Rightarrow> balanceCheck ctx l (cands q) txn account aq seqProxy acctSeq consequences)
             else None)"

section \<open>Clearing the account's queue\<close>

definition updCand :: "ref \<Rightarrow> (Candidate \<Rightarrow> Candidate) \<Rightarrow> TxQ \<Rightarrow> TxQ" where
  "updCand c f q = q\<lparr>cands := (cands q)[c := f (cands q ! c)]\<rparr>"

definition precedingOf :: "store \<Rightarrow> AccountQueue \<Rightarrow> SeqProxy \<Rightarrow> ref list" where
  "precedingOf h aq seqProxy =
     sort_key (\<lambda>c. CandSeqProxy (h ! c)) (map snd (filter (\<lambda>(sp, _). Less sp seqProxy) (Transactions aq)))"

text \<open>
  The loop that applies the preceding candidates; it returns the candidates applied so far and
  whether every one of them was.
\<close>

fun clearLoop :: "'l ApplyContext \<Rightarrow> ref list \<Rightarrow> 'l \<Rightarrow> TxQ \<Rightarrow> ref list \<Rightarrow> bool \<times> ref list \<times> 'l \<times> TxQ" where
  "clearLoop ctx [] l q applied = (True, applied, l, q)"
| "clearLoop ctx (c # cs) l q applied =
     (let ((result, ok), l') = ApplyTransaction ctx l (Txn (cands q ! c));
          q' = updCand c (\<lambda>x. x\<lparr>RetriesRemaining := RetriesRemaining x - 1, LastResult := result\<rparr>) q
      in if result = TefNO_TICKET then clearLoop ctx cs l' q' (applied @ [c])
         else if \<not> ok then (False, applied, l', q')
         else clearLoop ctx cs l' q' (applied @ [c]))"

definition tryClearAccountQueue ::
  "'l ApplyContext \<Rightarrow> 'l \<Rightarrow> TxQ \<Rightarrow> AccountQueue \<Rightarrow> Transaction \<Rightarrow> SeqProxy \<Rightarrow> FeeLevel \<Rightarrow> u32 \<Rightarrow> AccountID \<Rightarrow>
   ApplyResult option \<times> 'l \<times> TxQ" where
  "tryClearAccountQueue ctx l q aq txn seqProxy feeLevelPaid txInLedger account =
     (let preceding = precedingOf (cands q) aq seqProxy
      in if length preceding = 0 then (None, l, q)
         else let dist = of_nat (length preceding);
                  (requiredTotalFeeLevel, ok) =
                    EscalatedSeriesFeeLevel (GetSnapshot (feeMetrics q)) txInLedger 0 (dist + 1)
              in if \<not> ok then (None, l, q)
                 else let totalFeeLevelPaid =
                            fold (\<lambda>c acc. acc + CandFeeLevel (cands q ! c)) preceding feeLevelPaid
                      in if totalFeeLevelPaid < requiredTotalFeeLevel then (None, l, q)
                         else let (allApplied, applied, l1, q1) = clearLoop ctx preceding l q []
                              in if \<not> allApplied then (None, l1, fold erase applied q1)
                                 else let ((result, ok'), l2) = ApplyTransaction ctx l1 txn;
                                          q2 = fold erase applied q1
                                      in if ok'
                                         then (Some \<lparr>Res = result, Applied = True, Queued = False\<rparr>, l2,
                                               case queued q2 account seqProxy of
                                                 Some c \<Rightarrow> erase c q2 | None \<Rightarrow> q2)
                                         else (Some (rejected result), l2, q2))"

text \<open>When the attempt is made.\<close>

definition clearPhase ::
  "'l ApplyContext \<Rightarrow> 'l \<Rightarrow> TxQ \<Rightarrow> Transaction \<Rightarrow> AccountQueue option \<Rightarrow> bool \<Rightarrow> SeqProxy \<Rightarrow> FeeLevel \<Rightarrow> FeeLevel \<Rightarrow>
   u32 \<Rightarrow> AccountID \<Rightarrow> ApplyResult option \<times> 'l \<times> TxQ" where
  "clearPhase ctx l q txn aqo multi seqProxy feeLevel requiredFeeLevel txInLedger account =
     (if \<not> IsTicket seqProxy \<and> multi \<and> feeLevel > requiredFeeLevel \<and> requiredFeeLevel > BaseLevel
      then case aqo of
             None \<Rightarrow> (None, l, q)
           | Some aq \<Rightarrow>
               (case GetFirstSeqTx (cands q) aq of
                  None \<Rightarrow> (None, l, q)
                | Some f \<Rightarrow>
                    if RetriesRemaining (cands q ! f) = RetriesAllowed
                    then tryClearAccountQueue ctx l q aq txn seqProxy feeLevel txInLedger account
                    else (None, l, q))
      else (None, l, q))"

section \<open>Making room in a full queue\<close>

fun averageLoop :: "FeeLevel \<Rightarrow> FeeLevel list \<Rightarrow> FeeLevel \<Rightarrow> FeeLevel \<Rightarrow> FeeLevel" where
  "averageLoop cnt [] sumDiv sumMod = sumDiv + sumMod div cnt"
| "averageLoop cnt (f # fs) sumDiv sumMod =
     (let nxt = f div cnt; md = f mod cnt
      in if sumDiv \<ge> maxU64 - nxt \<or> sumMod \<ge> maxU64 - md then maxU64
         else averageLoop cnt fs (sumDiv + nxt) (sumMod + md))"

definition lowestOther :: "TxQ \<Rightarrow> AccountID \<Rightarrow> ref option" where
  "lowestOther q account = find (\<lambda>c. Account (cands q ! c) \<noteq> account) (rev (byFee q))"

definition dropCandidate :: "store \<Rightarrow> AccountQueue \<Rightarrow> ref option" where
  "dropCandidate h aq =
     fold (\<lambda>(_, c) d. case d of None \<Rightarrow> Some c
             | Some x \<Rightarrow> if \<not> Less (CandSeqProxy (h ! c)) (CandSeqProxy (h ! x)) then Some c else d)
          (Transactions aq) None"

datatype Room = NilDereference | NoRoom | Room TxQ

definition makeRoom :: "TxQ \<Rightarrow> AccountID \<Rightarrow> FeeLevel \<Rightarrow> Room" where
  "makeRoom q account feeLevel =
     (case lowestOther q account of
        None \<Rightarrow> NoRoom
      | Some low \<Rightarrow>
          let lowLevel = CandFeeLevel (cands q ! low)
          in if lowLevel \<le> feeLevel
             then (case map_of (byAccount q) (Account (cands q ! low)) of
                     None \<Rightarrow> NilDereference
                   | Some endAccount \<Rightarrow>
                       let effective =
                             (if AqCount endAccount > 1
                              then averageLoop (of_nat (AqCount endAccount))
                                     (map (\<lambda>(_, c). CandFeeLevel (cands q ! c)) (Transactions endAccount)) 0 0
                              else lowLevel)
                       in if feeLevel > effective
                          then (case dropCandidate (cands q) endAccount of
                                  None \<Rightarrow> Room q | Some c \<Rightarrow> Room (erase c q))
                          else NoRoom)
             else NoRoom)"

section \<open>Queuing and the whole of Apply\<close>

text \<open>
  The account queue found at the beginning is a pointer.  Erasing the replaced candidate may have
  emptied it and taken it out of \<open>byAccount\<close>; then the new candidate is added to a queue that is
  no longer in the map.
\<close>

definition enqueue :: "TxQ \<Rightarrow> AccountID \<Rightarrow> bool \<Rightarrow> ref option \<Rightarrow> Candidate \<Rightarrow> TxQ" where
  "enqueue q account ex replacing cand =
     (let q1 = (case replacing of None \<Rightarrow> q | Some r \<Rightarrow> erase r q);
          c = length (cands q1);
          q2 = q1\<lparr>cands := cands q1 @ [cand]\<rparr>;
          q3 = (if ex
                then case map_of (byAccount q2) account of
                       None \<Rightarrow> q2
                     | Some aq \<Rightarrow> q2\<lparr>byAccount := AList.update account (AqAdd (cands q2) aq c) (byAccount q2)\<rparr>
                else q2\<lparr>byAccount :=
                       AList.update account (AqAdd (cands q2) (NewAccountQueue account) c) (byAccount q2)\<rparr>)
      in insertByFee c q3)"

text \<open>From the full-queue check on.\<close>

definition queueTx ::
  "TxQ \<Rightarrow> AccountID \<Rightarrow> bool \<Rightarrow> ref option \<Rightarrow> Candidate \<Rightarrow> (ApplyResult \<times> TxQ) option" where
  "queueTx q account ex replacing cand =
     (if replacing = None \<and> isFull q
      then case makeRoom q account (CandFeeLevel cand) of
             NilDereference \<Rightarrow> None
           | NoRoom \<Rightarrow> Some (rejected TelCAN_NOT_QUEUE_FULL, q)
           | Room q' \<Rightarrow> Some (\<lparr>Res = TerQUEUED, Applied = False, Queued = True\<rparr>, enqueue q' account ex replacing cand)
      else Some (\<lparr>Res = TerQUEUED, Applied = False, Queued = True\<rparr>, enqueue q account ex replacing cand))"

text \<open>From the decision to hold the transaction on.\<close>

definition holdTx ::
  "'l ApplyContext \<Rightarrow> 'l \<Rightarrow> TxQ \<Rightarrow> Transaction \<Rightarrow> Common \<Rightarrow> Hash256 \<Rightarrow> AccountID \<Rightarrow> SeqProxy \<Rightarrow> FeeLevel \<Rightarrow>
   u32 \<Rightarrow> u32 \<Rightarrow> u32 \<Rightarrow> FeeLevel \<Rightarrow> (ApplyResult \<times> 'l \<times> TxQ) option" where
  "holdTx ctx l q txn common txID account seqProxy feeLevel acctSeq txInLedger ledgerSeq requiredFeeLevel =
     (let consequences = computeConsequences common (body txn) seqProxy;
          aqo = map_of (byAccount q) account;
          acctSeqProx = NewSeqProxySequence acctSeq;
          acctTxCount = acctTxCountOf aqo acctSeqProx;
          replacing = replacingOf aqo seqProxy;
          multi = requiresMultiTxn acctTxCount replacing;
          cand = NewCandidate txn txID account feeLevel seqProxy (lastValidOf common) TesSUCCESS consequences
      in case holdCheck ctx l q common account seqProxy acctSeq ledgerSeq of Some r \<Rightarrow> Some (rejected r, l, q) | None \<Rightarrow>
         case blockerCheck (cands q) aqo acctSeqProx seqProxy consequences of Some r \<Rightarrow> Some (rejected r, l, q) | None \<Rightarrow>
         case blockedCheck (config q) (cands q) aqo acctSeqProx seqProxy feeLevel of Some r \<Rightarrow> Some (rejected r, l, q) | None \<Rightarrow>
         case sequenceCheck ctx l q txn account aqo seqProxy acctSeq consequences of Some r \<Rightarrow> Some (rejected r, l, q) | None \<Rightarrow>
         case clearPhase ctx l q txn aqo multi seqProxy feeLevel requiredFeeLevel txInLedger account of
           (Some r, l', q') \<Rightarrow> Some (r, l', q')
         | (None, l', q') \<Rightarrow>
             case (if multi then None
                   else case aqo of None \<Rightarrow> None | Some aq \<Rightarrow> canBeHeld q' aq replacing seqProxy acctSeq) of
               Some r \<Rightarrow> Some (rejected r, l', q')
             | None \<Rightarrow>
                 case queueTx q' account (aqo \<noteq> None) replacing cand of
                   None \<Rightarrow> None
                 | Some (r, q'') \<Rightarrow> Some (r, l', q''))"

definition Apply ::
  "'l ApplyContext \<Rightarrow> 'l \<Rightarrow> TxQ \<Rightarrow> Transaction \<Rightarrow> Hash256 \<Rightarrow> AccountID \<Rightarrow> (ApplyResult \<times> 'l \<times> TxQ) option" where
  "Apply ctx l q txn txID account =
     (case GetCommon txn of
        None \<Rightarrow> Some (rejected TefINTERNAL, l, q)
      | Some common \<Rightarrow>
          let feeLevel = ToFeeLevel (ParseUint (Fee common)) (GetBaseFee ctx l txn);
              acctSeq = GetAccountSequence ctx l account;
              txInLedger = GetTxInLedger ctx l;
              ledgerSeq = GetLedgerSequence ctx l
          in case seqProxyOf common of
               None \<Rightarrow> Some (rejected TefINTERNAL, l, q)
             | Some seqProxy \<Rightarrow>
                 let requiredFeeLevel = ScaleFeeLevel (GetSnapshot (feeMetrics q)) txInLedger;
                     canDirectApply = (IsTicket seqProxy \<or> Value seqProxy = acctSeq)
                 in if canDirectApply \<and> feeLevel \<ge> requiredFeeLevel
                    then let ((result, applied), l') = ApplyTransaction ctx l txn
                         in if applied
                            then Some (\<lparr>Res = result, Applied = True, Queued = False\<rparr>, l',
                                       case queued q account seqProxy of Some c \<Rightarrow> erase c q | None \<Rightarrow> q)
                            else if \<not> canBeQueued result then Some (rejected result, l', q)
                            else holdTx ctx l' q txn common txID account seqProxy feeLevel acctSeq txInLedger
                                   ledgerSeq requiredFeeLevel
                    else holdTx ctx l q txn common txID account seqProxy feeLevel acctSeq txInLedger
                           ledgerSeq requiredFeeLevel)"

end
