(* ===== verification/TxqInvariant.thy ===== *)
theory TxqInvariant
  imports TxqApply
begin

text \<open>
  The building blocks of \<open>Apply\<close>, \<open>Accept\<close> and \<open>ProcessClosedLedger\<close> keep the queue's
  invariants: changes of the candidates' mutable fields, repeated erasing, adding a candidate and
  making room for it.
\<close>

section \<open>Changing the store\<close>

text \<open>The fields of a candidate that are never assigned after its creation and that the indexes
  depend on.\<close>

definition ids :: "Candidate \<Rightarrow> Hash256 \<times> AccountID \<times> FeeLevel \<times> SeqProxy" where
  "ids c = (TxID c, Account c, CandFeeLevel c, CandSeqProxy c)"

lemma ids_eqD:
  assumes "ids c = ids d"
  shows "TxID c = TxID d" "Account c = Account d" "CandFeeLevel c = CandFeeLevel d"
    "CandSeqProxy c = CandSeqProxy d"
  using assms by (simp_all add: ids_def)

definition store_ext :: "store \<Rightarrow> store \<Rightarrow> bool" where
  "store_ext h h' \<longleftrightarrow> length h \<le> length h' \<and> (\<forall>i < length h. ids (h' ! i) = ids (h ! i)) \<and>
     ((\<forall>c \<in> set h. length (TxID c) = 32) \<longrightarrow> (\<forall>c \<in> set h'. length (TxID c) = 32))"

lemma store_ext_refl [simp]: "store_ext h h"
  by (simp add: store_ext_def)

lemma store_ext_trans:
  assumes "store_ext h1 h2" "store_ext h2 h3"
  shows "store_ext h1 h3"
proof -
  have "ids (h3 ! i) = ids (h1 ! i)" if "i < length h1" for i
    using that assms by (simp add: store_ext_def)
  moreover have "length h1 \<le> length h3"
    using assms by (simp add: store_ext_def)
  ultimately show ?thesis
    using assms unfolding store_ext_def by blast
qed

lemma store_ext_append: "length (TxID c) = 32 \<Longrightarrow> store_ext h (h @ [c])"
  by (auto simp: store_ext_def nth_append)

lemma store_ext_update:
  assumes "\<And>x. ids (f x) = ids x"
  shows "store_ext h (h[c := f (h ! c)])"
  using assms ids_eqD(1) [OF assms]
  by (cases "c < length h") (auto simp: store_ext_def nth_list_update all_set_conv_all_nth)

lemma store_ext_nth:
  assumes "store_ext h h'" "i < length h"
  shows "TxID (h' ! i) = TxID (h ! i)" "Account (h' ! i) = Account (h ! i)"
    "CandFeeLevel (h' ! i) = CandFeeLevel (h ! i)" "CandSeqProxy (h' ! i) = CandSeqProxy (h ! i)"
  using assms ids_eqD [of "h' ! i" "h ! i"] by (simp_all add: store_ext_def)

lemma sorted_wrt_cong_set:
  "(\<And>a b. a \<in> set xs \<Longrightarrow> b \<in> set xs \<Longrightarrow> P a b = Q a b) \<Longrightarrow> sorted_wrt P xs = sorted_wrt Q xs"
  by (induction xs) auto

lemma queued_cands [simp]: "queued (q\<lparr>cands := h\<rparr>) = queued q"
  by (rule queued_byAccount) simp

lemma store_ext_wf:
  assumes "txq_wf q" "store_ext (cands q) h"
  shows "txq_wf (q\<lparr>cands := h\<rparr>)"
proof -
  have in_range: "r < length (cands q)" if "r \<in> set (byFee q)" for r
    using that assms(1) by (simp add: txq_wf_iff)
  have "fee_sorted (q\<lparr>cands := h\<rparr>) = fee_sorted q"
    unfolding fee_sorted_def
    by (simp, rule sorted_wrt_cong_set)
      (simp add: candidateLess_def candLess_def store_ext_nth [OF assms(2)] in_range)
  moreover have "length (cands q) \<le> length h" "\<forall>c \<in> set h. length (TxID c) = 32"
    using assms by (simp_all add: txq_wf_iff store_ext_def)
  ultimately show ?thesis
    using assms(1) in_range unfolding txq_wf_iff
    by (auto simp: store_ext_nth [OF assms(2)] dest!: in_range intro: order_less_le_trans)
qed

lemma store_ext_inv:
  assumes "txq_inv q" "store_ext (cands q) h"
  shows "txq_inv (q\<lparr>cands := h\<rparr>)"
proof -
  have "indexed (q\<lparr>cands := h\<rparr>) c" if "c \<in> set (byFee q)" for c
    using that assms by (auto simp: txq_inv_def txq_wf_iff indexed_def store_ext_nth [OF assms(2)])
  then show ?thesis
    using assms store_ext_wf by (simp add: txq_inv_def)
qed

lemma updCand_simps [simp]:
  "byFee (updCand c f q) = byFee q"
  "byAccount (updCand c f q) = byAccount q"
  "parentHash (updCand c f q) = parentHash q"
  "config (updCand c f q) = config q"
  "feeMetrics (updCand c f q) = feeMetrics q"
  "maxSize (updCand c f q) = maxSize q"
  "length (cands (updCand c f q)) = length (cands q)"
  by (simp_all add: updCand_def)

lemma queued_updCand [simp]: "queued (updCand c f q) = queued q"
  by (rule queued_byAccount) simp

lemma updCand_store_ext: "(\<And>x. ids (f x) = ids x) \<Longrightarrow> store_ext (cands q) (cands (updCand c f q))"
  by (simp add: updCand_def store_ext_update)

section \<open>Erasing several candidates\<close>

lemma fold_erase_simps [simp]:
  "cands (fold erase cs q) = cands q"
  "parentHash (fold erase cs q) = parentHash q"
  "config (fold erase cs q) = config q"
  "feeMetrics (fold erase cs q) = feeMetrics q"
  "maxSize (fold erase cs q) = maxSize q"
  "byFee (fold erase cs q) = fold remove1 cs (byFee q)"
  by (induction cs arbitrary: q) simp_all

lemma queued_fold_erase:
  "queued (fold erase cs q) a sp =
     (if \<exists>c \<in> set cs. a = Account (cands q ! c) \<and> sp = CandSeqProxy (cands q ! c) then None else queued q a sp)"
  by (induction cs arbitrary: q) auto

lemma fold_erase_wf: "txq_wf q \<Longrightarrow> txq_wf (fold erase cs q)"
  by (induction cs arbitrary: q) (auto intro: erase_wf)

lemma fold_erase_inv:
  "txq_inv q \<Longrightarrow> distinct cs \<Longrightarrow> set cs \<subseteq> set (byFee q) \<Longrightarrow> txq_inv (fold erase cs q)"
proof (induction cs arbitrary: q)
  case (Cons c cs)
  have "set cs \<subseteq> set (remove1 c (byFee q))"
  proof
    fix x
    assume "x \<in> set cs"
    then have "x \<noteq> c" "x \<in> set (byFee q)"
      using Cons.prems by auto
    then show "x \<in> set (remove1 c (byFee q))" by simp
  qed
  then show ?case
    using Cons by (simp add: erase_inv)
qed simp

lemma fold_remove1_filter: "distinct xs \<Longrightarrow> fold remove1 cs xs = filter (\<lambda>x. x \<notin> set cs) xs"
  by (induction cs arbitrary: xs) (auto simp: distinct_remove1_removeAll removeAll_filter_not_eq
      intro!: filter_cong)

lemma fold_remove1_subset: "mset (fold remove1 cs xs) \<subseteq># mset xs"
proof (induction cs arbitrary: xs)
  case (Cons c cs)
  have "mset (fold remove1 cs (remove1 c xs)) \<subseteq># mset (remove1 c xs)"
    by (rule Cons.IH)
  also have "\<dots> \<subseteq># mset xs"
    by simp
  finally show ?case
    by simp
qed simp

section \<open>Adding a candidate\<close>

lemma insertByFee_wf:
  assumes "length (parentHash q) = 32" "\<forall>c \<in> set (cands q). length (TxID c) = 32"
    "distinct (byFee q)" "\<forall>r \<in> set (byFee q). r < length (cands q)" "fee_sorted q"
    "accounts_wf (byAccount q)" "c \<notin> set (byFee q)" "c < length (cands q)"
    "\<And>a sp r. queued q a sp = Some r \<Longrightarrow>
       r \<in> insert c (set (byFee q)) \<and> Account (cands q ! r) = a \<and> CandSeqProxy (cands q ! r) = sp"
  shows "txq_wf (insertByFee c q)"
proof -
  have "distinct (byFee (insertByFee c q))"
    using assms(3,7) mset_eq_imp_distinct_iff [of "byFee (insertByFee c q)" "c # byFee q"] by simp
  moreover have "queued (insertByFee c q) = queued q"
    by (rule queued_byAccount) simp
  ultimately show ?thesis
    using assms insertByFee_sorted [of q c] unfolding txq_wf_iff by auto
qed

lemma queued_update_account:
  assumes "map_of (Transactions aq) = (case map_of (byAccount q) a of None \<Rightarrow> Map.empty | Some b \<Rightarrow> map_of (Transactions b))"
  shows "queued (q\<lparr>byAccount := AList.update a (AqAdd h aq c) (byAccount q)\<rparr>) x sp =
    (if x = a \<and> sp = CandSeqProxy (h ! c) then Some c else queued q x sp)"
  using assms by (auto simp: queued_def AqAdd_def update_conv' split: option.splits)

lemma AqAdd_wf:
  assumes "accounts_wf al" "distinct (map fst (Transactions aq))"
  shows "accounts_wf (AList.update a (AqAdd h aq c) al)"
proof (rule accounts_wf_update)
  show "distinct (map fst (Transactions (AqAdd h aq c)))"
    using assms(2) by (simp add: AqAdd_def distinct_update)
  have "map_of (Transactions (AqAdd h aq c)) (CandSeqProxy (h ! c)) = Some c"
    by (simp add: AqAdd_def update_conv')
  then show "Transactions (AqAdd h aq c) \<noteq> []"
    by auto
qed (rule assms(1))

text \<open>The queue that \<^const>\<open>enqueue\<close> hands to \<^const>\<open>insertByFee\<close>.\<close>

definition add_index :: "TxQ \<Rightarrow> AccountID \<Rightarrow> bool \<Rightarrow> Candidate \<Rightarrow> TxQ" where
  "add_index q account ex cand =
     (let c = length (cands q); q2 = q\<lparr>cands := cands q @ [cand]\<rparr>
      in if ex
         then case map_of (byAccount q2) account of
                None \<Rightarrow> q2
              | Some aq \<Rightarrow> q2\<lparr>byAccount := AList.update account (AqAdd (cands q2) aq c) (byAccount q2)\<rparr>
         else q2\<lparr>byAccount := AList.update account (AqAdd (cands q2) (NewAccountQueue account) c) (byAccount q2)\<rparr>)"

lemma enqueue_eq:
  "enqueue q account ex replacing cand =
     (let q1 = (case replacing of None \<Rightarrow> q | Some r \<Rightarrow> erase r q)
      in insertByFee (length (cands q)) (add_index q1 account ex cand))"
  by (simp add: enqueue_def add_index_def Let_def split: option.split)

lemma add_index_simps [simp]:
  "byFee (add_index q account ex cand) = byFee q"
  "cands (add_index q account ex cand) = cands q @ [cand]"
  "parentHash (add_index q account ex cand) = parentHash q"
  "config (add_index q account ex cand) = config q"
  "feeMetrics (add_index q account ex cand) = feeMetrics q"
  "maxSize (add_index q account ex cand) = maxSize q"
  by (simp_all add: add_index_def Let_def split: option.split)

definition lost :: "TxQ \<Rightarrow> AccountID \<Rightarrow> bool \<Rightarrow> bool" where
  "lost q account ex = (ex \<and> map_of (byAccount q) account = None)"

lemma queued_add_index:
  assumes "ex \<or> map_of (byAccount q) account = None"
  shows "queued (add_index q account ex cand) a sp =
    (if a = account \<and> sp = CandSeqProxy cand \<and> \<not> lost q account ex then Some (length (cands q)) else queued q a sp)"
proof -
  let ?q2 = "q\<lparr>cands := cands q @ [cand]\<rparr>"
  have upd: "queued (?q2\<lparr>byAccount := AList.update account (AqAdd (cands q @ [cand]) aq (length (cands q))) (byAccount ?q2)\<rparr>) a sp
      = (if a = account \<and> sp = CandSeqProxy cand then Some (length (cands q)) else queued q a sp)"
    if "map_of (Transactions aq) = (case map_of (byAccount ?q2) account of None \<Rightarrow> Map.empty | Some b \<Rightarrow> map_of (Transactions b))"
    for aq
    using queued_update_account [OF that] by simp
  show ?thesis
    using assms upd [of "NewAccountQueue account"] upd
    by (cases ex; cases "map_of (byAccount q) account")
      (simp_all add: add_index_def lost_def NewAccountQueue_def)
qed

lemma accounts_wf_add_index:
  assumes "accounts_wf (byAccount q)"
  shows "accounts_wf (byAccount (add_index q account ex cand))"
  using assms AqAdd_wf accounts_wf_lookup [OF assms]
  by (auto simp: add_index_def Let_def NewAccountQueue_def split: option.split)

lemma add_index_fee_sorted:
  assumes "txq_wf q"
  shows "fee_sorted (add_index q account ex cand) = fee_sorted q"
proof -
  have "r < length (cands q)" if "r \<in> set (byFee q)" for r
    using that assms by (simp add: txq_wf_iff)
  then show ?thesis
    unfolding fee_sorted_def
    by (simp, intro sorted_wrt_cong_set) (simp add: candidateLess_def nth_append)
qed

lemma add_insert_wf:
  assumes "txq_wf q" "length (TxID cand) = 32" "Account cand = account"
    "ex \<or> map_of (byAccount q) account = None"
  shows "txq_wf (insertByFee (length (cands q)) (add_index q account ex cand))"
proof (rule insertByFee_wf)
  fix a sp r
  assume "queued (add_index q account ex cand) a sp = Some r"
  note eq = this [unfolded queued_add_index [OF assms(4)]]
  show "r \<in> insert (length (cands q)) (set (byFee (add_index q account ex cand))) \<and>
      Account (cands (add_index q account ex cand) ! r) = a \<and>
      CandSeqProxy (cands (add_index q account ex cand) ! r) = sp"
  proof (cases "a = account \<and> sp = CandSeqProxy cand \<and> \<not> lost q account ex")
    case True
    then show ?thesis
      using eq assms(3) by auto
  next
    case False
    then have "queued q a sp = Some r"
      using eq by (simp only: if_False)
    then have "r \<in> set (byFee q)" "r < length (cands q)" "Account (cands q ! r) = a" "CandSeqProxy (cands q ! r) = sp"
      using assms(1) by (auto simp: txq_wf_iff)
    then show ?thesis
      by (simp add: nth_append)
  qed
next
  show "accounts_wf (byAccount (add_index q account ex cand))" "fee_sorted (add_index q account ex cand)"
    using assms(1) by (simp_all add: accounts_wf_add_index add_index_fee_sorted txq_wf_def)
qed (use assms(1,2) in \<open>auto simp: txq_wf_def\<close>)

lemma add_insert_inv:
  assumes "txq_inv q" "length (TxID cand) = 32" "Account cand = account"
    "ex \<or> map_of (byAccount q) account = None"
    "\<not> lost q account ex" "queued q account (CandSeqProxy cand) = None"
  shows "txq_inv (insertByFee (length (cands q)) (add_index q account ex cand))"
    (is "txq_inv ?q'")
proof -
  have wf: "txq_wf q"
    using assms(1) by (simp add: txq_inv_def)
  have qd: "queued ?q' = queued (add_index q account ex cand)"
    by (rule queued_byAccount) simp
  have "indexed ?q' c" if c: "c \<in> set (byFee q)" for c
  proof -
    have "c < length (cands q)" "indexed q c"
        using c assms(1) by (simp_all add: txq_inv_def txq_wf_def)
    then show ?thesis
      using assms(6) by (auto simp: indexed_def qd queued_add_index [OF assms(4)] nth_append)
  qed
  moreover have "indexed ?q' (length (cands q))"
    using assms(3,5) by (simp add: indexed_def qd queued_add_index [OF assms(4)])
  ultimately show ?thesis
    using add_insert_wf [OF wf assms(2-4)] by (simp add: txq_inv_def)
qed

lemma map_of_byAccount_erase:
  "a \<noteq> Account (cands q ! c) \<Longrightarrow> map_of (byAccount (erase c q)) a = map_of (byAccount q) a"
  by (simp add: erase_def removeByFee_def Let_def update_conv' delete_conv' split: option.split)

text \<open>The account's queue holds exactly the transaction with this sequence proxy.\<close>

definition sole :: "TxQ \<Rightarrow> AccountID \<Rightarrow> SeqProxy \<Rightarrow> bool" where
  "sole q account sp = (case map_of (byAccount q) account of
     None \<Rightarrow> False | Some aq \<Rightarrow> map fst (Transactions aq) = [sp])"

lemma delete_empty_iff:
  assumes "distinct (map fst xs)" "map_of xs k = Some v"
  shows "AList.delete k xs = [] \<longleftrightarrow> map fst xs = [k]"
proof -
  have "AList.delete k xs = [] \<longleftrightarrow> set (map fst xs) \<subseteq> {k}"
    by (auto simp: AList.delete_eq filter_empty_conv)
  also have "\<dots> \<longleftrightarrow> map fst xs = [k]"
  proof
    assume "set (map fst xs) \<subseteq> {k}"
    moreover have "k \<in> set (map fst xs)"
      using assms(2) by (force dest: map_of_SomeD)
    ultimately have "set (map fst xs) = {k}" by blast
    then have "length (map fst xs) = 1"
      using distinct_card [OF assms(1)] by simp
    then show "map fst xs = [k]"
      using \<open>set (map fst xs) = {k}\<close> by (cases xs) auto
  qed simp
  finally show ?thesis .
qed

lemma erase_lost:
  assumes "txq_wf q" "queued q a sp = Some r"
  shows "map_of (byAccount (erase r q)) a = None \<longleftrightarrow> sole q a sp"
proof -
  obtain aq where aq: "map_of (byAccount q) a = Some aq" "map_of (Transactions aq) sp = Some r"
    using assms(2) by (auto simp: queued_def split: option.splits)
  have d: "distinct (map fst (Transactions aq))"
    using assms(1) aq(1) accounts_wf_lookup by (auto simp: txq_wf_def)
  have k: "Account (cands q ! r) = a" "CandSeqProxy (cands q ! r) = sp"
    using assms by (auto simp: txq_wf_iff)
  show ?thesis
    using delete_empty_iff [OF d aq(2)]
    by (simp add: erase_def removeByFee_def Let_def k aq AqRemove_def AqEmpty_def sole_def update_conv' delete_conv')
qed

lemma enqueue_wf:
  assumes "txq_wf q" "length (TxID cand) = 32" "Account cand = account"
    "ex \<or> map_of (byAccount q) account = None \<and> replacing = None"
  shows "txq_wf (enqueue q account ex replacing cand)"
proof (cases replacing)
  case None
  then show ?thesis
    using add_insert_wf [OF assms(1-3), of ex] assms(4) by (auto simp: enqueue_eq)
next
  case (Some r)
  then show ?thesis
    using add_insert_wf [OF erase_wf [OF assms(1)] assms(2,3), of ex r] assms(4) by (auto simp: enqueue_eq)
qed

lemma enqueue_inv:
  assumes "txq_inv q" "length (TxID cand) = 32" "Account cand = account"
    "ex = (map_of (byAccount q) account \<noteq> None)" "replacing = queued q account (CandSeqProxy cand)"
    "\<not> sole q account (CandSeqProxy cand)"
  shows "txq_inv (enqueue q account ex replacing cand)"
proof (cases replacing)
  case None
  then show ?thesis
    using add_insert_inv [OF assms(1-3), of ex] assms(4,5) by (auto simp: enqueue_eq lost_def)
next
  case (Some r)
  have wf: "txq_wf q"
    using assms(1) by (simp add: txq_inv_def)
  have r: "r \<in> set (byFee q)" "Account (cands q ! r) = account" "CandSeqProxy (cands q ! r) = CandSeqProxy cand"
    using wf Some assms(5) by (auto simp: txq_wf_iff)
  have "ex"
    using assms(4,5) Some by (auto simp: queued_def split: option.splits)
  moreover have "map_of (byAccount (erase r q)) account \<noteq> None"
    using erase_lost [OF wf, of account "CandSeqProxy cand" r] assms(5,6) Some by simp
  ultimately have "txq_inv (insertByFee (length (cands (erase r q))) (add_index (erase r q) account ex cand))"
    using r by (intro add_insert_inv erase_inv assms) (auto simp: lost_def)
  then show ?thesis
    by (simp add: enqueue_eq Some)
qed

section \<open>Making room\<close>

lemma dropCandidate_some:
  assumes "Transactions aq \<noteq> []"
  shows "\<exists>c sp. dropCandidate h aq = Some c \<and> (sp, c) \<in> set (Transactions aq)"
proof -
  let ?f = "\<lambda>(_ :: SeqProxy, c) d. case d of None \<Rightarrow> Some c
             | Some x \<Rightarrow> if \<not> Less (CandSeqProxy (h ! c)) (CandSeqProxy (h ! x)) then Some c else d"
  have "xs \<noteq> [] \<longrightarrow> (\<exists>c sp. fold ?f xs None = Some c \<and> (sp, c) \<in> set xs)" for xs
  proof (induction xs rule: rev_induct)
    case (snoc x xs)
    then show ?case
      by (cases "xs = []"; cases x) (auto split: option.split)
  qed simp
  then show ?thesis
    using assms by (simp add: dropCandidate_def)
qed

lemma find_SomeD: "find P xs = Some x \<Longrightarrow> x \<in> set xs \<and> P x"
  by (induction xs) (auto split: if_splits)

lemma lowestOther_SomeD: "lowestOther q account = Some c \<Longrightarrow> c \<in> set (byFee q) \<and> Account (cands q ! c) \<noteq> account"
  unfolding lowestOther_def by (auto dest: find_SomeD)

lemma case_Room:
  "(case d of None \<Rightarrow> Room q | Some c \<Rightarrow> Room (erase c q)) = Room (case d of None \<Rightarrow> q | Some c \<Rightarrow> erase c q)"
  by (simp split: option.split)

lemma makeRoom_room:
  assumes "txq_wf q" "makeRoom q account feeLevel = Room q'"
  obtains c where "q' = erase c q" "c \<in> set (byFee q)" "Account (cands q ! c) \<noteq> account"
proof -
  obtain low aq where low: "lowestOther q account = Some low" "map_of (byAccount q) (Account (cands q ! low)) = Some aq"
    and q': "q' = (case dropCandidate (cands q) aq of None \<Rightarrow> q | Some c \<Rightarrow> erase c q)"
  proof (cases "lowestOther q account")
    case (Some low)
    then show thesis
      using assms(2) that
      by (cases "map_of (byAccount q) (Account (cands q ! low))"; cases "CandFeeLevel (cands q ! low) \<le> feeLevel")
        (auto simp: makeRoom_def Let_def case_Room split: if_splits)
  qed (use assms(2) in \<open>simp add: makeRoom_def\<close>)
  have ne: "Transactions aq \<noteq> []"
    using assms(1) low(2) accounts_wf_lookup by (auto simp: txq_wf_def)
  obtain c sp where c: "dropCandidate (cands q) aq = Some c" "(sp, c) \<in> set (Transactions aq)"
    using dropCandidate_some [OF ne] by blast
  have "queued q (Account (cands q ! low)) sp = Some c"
    using low(2) c(2) assms(1) accounts_wf_lookup by (auto simp: queued_def txq_wf_def)
  then have "c \<in> set (byFee q)" "Account (cands q ! c) = Account (cands q ! low)"
    using assms(1) by (auto simp: txq_wf_iff)
  moreover have "Account (cands q ! low) \<noteq> account"
    using low(1) by (simp add: lowestOther_SomeD)
  ultimately show thesis
    using that q' c(1) by simp
qed

text \<open>A candidate of the fee index whose account has no queue is what makes it crash.\<close>

lemma makeRoom_no_crash:
  assumes "txq_inv q"
  shows "makeRoom q account feeLevel \<noteq> NilDereference"
proof -
  have "map_of (byAccount q) (Account (cands q ! low)) \<noteq> None" if "lowestOther q account = Some low" for low
  proof -
    have "indexed q low"
      using assms lowestOther_SomeD [OF that] by (simp add: txq_inv_def)
    then show ?thesis
      by (auto simp: indexed_def queued_def split: option.splits)
  qed
  then show ?thesis
    by (auto simp: makeRoom_def Let_def split: option.split)
qed

end
