(* ===== verification/TxqApplyInv.thy ===== *)
theory TxqApplyInv
  imports TxqInvariant
begin

text \<open>
  What \<open>Apply\<close> does to the queue (\<open>internal/txq/apply.go\<close>): it keeps the well-formedness of the
  indexes, its size limit and every other account's transactions; it keeps the agreement of the two
  indexes except when it replaces the only transaction of an account.
\<close>

section \<open>Erasing transactions of one account\<close>

text \<open>The queue \<open>q'\<close> is \<open>q\<close> with some of the account's candidates erased and mutable fields of
  candidates changed.\<close>

definition shrinks :: "TxQ \<Rightarrow> AccountID \<Rightarrow> ref list \<Rightarrow> TxQ \<Rightarrow> bool" where
  "shrinks q account cs q' \<longleftrightarrow> distinct cs \<and> store_ext (cands q) (cands q') \<and>
     q' = fold erase cs (q\<lparr>cands := cands q'\<rparr>) \<and>
     (\<forall>c \<in> set cs. c \<in> set (byFee q) \<and> Account (cands q ! c) = account)"

lemma shrinks_refl: "shrinks q account [] q"
  by (simp add: shrinks_def)

lemma shrinksI:
  assumes "distinct cs" "store_ext (cands q) h"
    "\<And>c. c \<in> set cs \<Longrightarrow> c \<in> set (byFee q) \<and> Account (cands q ! c) = account"
  shows "shrinks q account cs (fold erase cs (q\<lparr>cands := h\<rparr>))"
  using assms by (simp add: shrinks_def)

lemma shrinks_wf:
  assumes "txq_wf q" "shrinks q account cs q'"
  shows "txq_wf q'"
  using fold_erase_wf [OF store_ext_wf [OF assms(1)], of "cands q'" cs] assms(2) by (simp add: shrinks_def)

lemma shrinks_inv:
  assumes "txq_inv q" "shrinks q account cs q'"
  shows "txq_inv q'"
  using fold_erase_inv [OF store_ext_inv [OF assms(1)], of "cands q'" cs] assms(2)
  by (auto simp: shrinks_def)

lemma shrinks_simps:
  assumes "shrinks q account cs q'"
  shows "byFee q' = fold remove1 cs (byFee q)" "parentHash q' = parentHash q" "config q' = config q"
    "feeMetrics q' = feeMetrics q" "maxSize q' = maxSize q" "store_ext (cands q) (cands q')"
proof -
  have q': "q' = fold erase cs (q\<lparr>cands := cands q'\<rparr>)"
    using assms by (simp add: shrinks_def)
  show "byFee q' = fold remove1 cs (byFee q)"
    by (subst q') simp
  show "parentHash q' = parentHash q"
    by (subst q') simp
  show "config q' = config q"
    by (subst q') simp
  show "feeMetrics q' = feeMetrics q"
    by (subst q') simp
  show "maxSize q' = maxSize q"
    by (subst q') simp
qed (use assms in \<open>simp add: shrinks_def\<close>)

lemma shrinks_mset: "shrinks q account cs q' \<Longrightarrow> mset (byFee q') \<subseteq># mset (byFee q)"
  by (simp add: shrinks_simps(1) fold_remove1_subset)

lemma map_of_byAccount_fold_erase:
  "\<forall>c \<in> set cs. Account (cands q ! c) \<noteq> a \<Longrightarrow> map_of (byAccount (fold erase cs q)) a = map_of (byAccount q) a"
  by (induction cs arbitrary: q) (auto simp: map_of_byAccount_erase)

lemma shrinks_in_range:
  assumes "txq_wf q" "shrinks q account cs q'" "c \<in> set cs"
  shows "Account (cands q' ! c) = account \<and> CandSeqProxy (cands q' ! c) = CandSeqProxy (cands q ! c)"
proof -
  have "c < length (cands q)" "Account (cands q ! c) = account" "store_ext (cands q) (cands q')"
    using assms by (auto simp: shrinks_def txq_wf_def)
  then show ?thesis
    using store_ext_nth by metis
qed

lemma shrinks_other:
  assumes "txq_wf q" "shrinks q account cs q'" "a \<noteq> account"
  shows "map_of (byAccount q') a = map_of (byAccount q) a"
proof -
  have q': "q' = fold erase cs (q\<lparr>cands := cands q'\<rparr>)"
    using assms(2) by (simp add: shrinks_def)
  have "map_of (byAccount (fold erase cs (q\<lparr>cands := cands q'\<rparr>))) a = map_of (byAccount (q\<lparr>cands := cands q'\<rparr>)) a"
    using shrinks_in_range [OF assms(1,2)] assms(3) by (intro map_of_byAccount_fold_erase) auto
  then show ?thesis
    using q' by simp
qed

lemma shrinks_queued:
  assumes "txq_wf q" "shrinks q account cs q'"
  shows "queued q' a sp = (if a = account \<and> sp \<in> (\<lambda>c. CandSeqProxy (cands q ! c)) ` set cs then None else queued q a sp)"
proof -
  have q': "q' = fold erase cs (q\<lparr>cands := cands q'\<rparr>)"
    using assms(2) by (simp add: shrinks_def)
  have "queued (fold erase cs (q\<lparr>cands := cands q'\<rparr>)) a sp =
     (if \<exists>c \<in> set cs. a = Account (cands q' ! c) \<and> sp = CandSeqProxy (cands q' ! c) then None else queued q a sp)"
    by (auto simp: queued_fold_erase)
  moreover have "(\<exists>c \<in> set cs. a = Account (cands q' ! c) \<and> sp = CandSeqProxy (cands q' ! c)) \<longleftrightarrow>
      a = account \<and> sp \<in> (\<lambda>c. CandSeqProxy (cands q ! c)) ` set cs"
    using shrinks_in_range [OF assms] by (auto simp: image_iff)
  ultimately show ?thesis
    using q' by simp
qed

section \<open>Clearing the account's queue\<close>

lemma clearLoop_effect:
  assumes "clearLoop ctx cs l q applied = (ok, applied', l', q')"
  shows "\<exists>k. applied' = applied @ take k cs \<and> (ok \<longrightarrow> k = length cs) \<and> (\<not> ok \<longrightarrow> k < length cs) \<and>
    q' = q\<lparr>cands := cands q'\<rparr> \<and> store_ext (cands q) (cands q')"
  using assms
proof (induction cs arbitrary: l q applied)
  case (Cons c cs)
  obtain result res l1 where a: "ApplyTransaction ctx l (Txn (cands q ! c)) = ((result, res), l1)"
    by (metis surj_pair)
  let ?f = "\<lambda>x. x\<lparr>RetriesRemaining := RetriesRemaining x - 1, LastResult := result\<rparr>"
  let ?q1 = "updCand c ?f q"
  have ext: "store_ext (cands q) (cands ?q1)"
    by (rule updCand_store_ext) (simp add: ids_def)
  show ?case
  proof (cases "result \<noteq> TefNO_TICKET \<and> \<not> res")
    case True
    then have "(ok, applied', l', q') = (False, applied, l1, ?q1)"
      using Cons.prems by (simp add: a)
    then show ?thesis
      using ext by (intro exI [of _ 0]) (simp add: updCand_def)
  next
    case False
    then have "clearLoop ctx cs l1 ?q1 (applied @ [c]) = (ok, applied', l', q')"
      using Cons.prems by (auto simp: a Let_def split: if_splits)
    from Cons.IH [OF this] obtain k where k: "applied' = (applied @ [c]) @ take k cs" "ok \<longrightarrow> k = length cs"
      "\<not> ok \<longrightarrow> k < length cs" "q' = ?q1\<lparr>cands := cands q'\<rparr>" "store_ext (cands ?q1) (cands q')"
      by blast
    have "q' = q\<lparr>cands := cands q'\<rparr>"
      using k(4) by (simp add: updCand_def)
    then show ?thesis
      using k store_ext_trans [OF ext] by (intro exI [of _ "Suc k"]) simp
  qed
qed (auto intro: exI [of _ 0])

lemma precedingOf_props:
  assumes "txq_wf q" "map_of (byAccount q) account = Some aq"
  shows "distinct (precedingOf (cands q) aq sp)"
    "c \<in> set (precedingOf (cands q) aq sp) \<Longrightarrow>
       Less (CandSeqProxy (cands q ! c)) sp \<and> queued q account (CandSeqProxy (cands q ! c)) = Some c \<and>
       c \<in> set (byFee q) \<and> Account (cands q ! c) = account"
proof -
  have d: "distinct (map fst (Transactions aq))"
    using assms accounts_wf_lookup by (auto simp: txq_wf_def)
  have entry: "queued q account s = Some r" if "(s, r) \<in> set (Transactions aq)" for s r
    using that assms(2) d by (simp add: queued_def)
  have wf: "r \<in> set (byFee q) \<and> Account (cands q ! r) = account \<and> CandSeqProxy (cands q ! r) = s"
    if "(s, r) \<in> set (Transactions aq)" for s r
    using entry [OF that] assms(1) by (simp add: txq_wf_iff)
  have "distinct (map snd (Transactions aq))"
  proof -
    have "map fst (Transactions aq) = map (\<lambda>c. CandSeqProxy (cands q ! c)) (map snd (Transactions aq))"
      unfolding map_map by (rule map_cong) (use wf in auto)
    then show ?thesis
      using d by (simp only: distinct_map)
  qed
  then show "distinct (precedingOf (cands q) aq sp)"
    by (simp add: precedingOf_def distinct_map_filter)
  assume "c \<in> set (precedingOf (cands q) aq sp)"
  then obtain s where "(s, c) \<in> set (Transactions aq)" "Less s sp"
    by (auto simp: precedingOf_def)
  then show "Less (CandSeqProxy (cands q ! c)) sp \<and> queued q account (CandSeqProxy (cands q ! c)) = Some c \<and>
       c \<in> set (byFee q) \<and> Account (cands q ! c) = account"
    using entry wf by auto
qed

lemma tryClear_cases:
  assumes "tryClearAccountQueue ctx l q aq txn sp level txInLedger account = (r, l', q')"
    "clearLoop ctx (precedingOf (cands q) aq sp) l q [] = (ok, applied, l1, q1)"
  shows "q' = q \<and> r = None \<or>
    \<not> ok \<and> r = None \<and> q' = fold erase applied q1 \<or>
    ok \<and> (\<exists>x. r = Some x \<and> \<not> Queued x) \<and> q' = fold erase applied q1 \<or>
    ok \<and> (\<exists>x. r = Some x \<and> \<not> Queued x) \<and>
      (\<exists>c. queued (fold erase applied q1) account sp = Some c \<and> q' = erase c (fold erase applied q1))"
proof -
  let ?p = "precedingOf (cands q) aq sp"
  obtain req ok1 where E: "EscalatedSeriesFeeLevel (GetSnapshot (feeMetrics q)) txInLedger 0 (of_nat (length ?p) + 1) = (req, ok1)"
    by (metis surj_pair)
  obtain res ok2 l2 where A: "ApplyTransaction ctx l1 txn = ((res, ok2), l2)"
    by (metis surj_pair)
  note run = assms(1) [symmetric, unfolded tryClearAccountQueue_def Let_def E assms(2) A prod.case]
  show ?thesis
  proof (cases "length ?p = 0 \<or> \<not> ok1 \<or> fold (\<lambda>c acc. acc + CandFeeLevel (cands q ! c)) ?p level < req")
    case True
    then show ?thesis
      using run by (auto split: if_splits)
  next
    case False
    then show ?thesis
      using run by (cases ok; cases ok2; cases "queued (fold erase applied q1) account sp")
        (simp_all add: rejected_def)
  qed
qed

lemma clearLoop_shrinks:
  assumes wf: "txq_wf q" and aq: "map_of (byAccount q) account = Some aq"
    and run: "clearLoop ctx (precedingOf (cands q) aq sp) l q [] = (ok, applied, l1, q1)"
  shows "shrinks q account applied (fold erase applied q1)"
    "sp \<notin> (\<lambda>c. CandSeqProxy (cands q ! c)) ` set applied"
    "\<not> ok \<Longrightarrow> \<exists>sp'. sp' \<noteq> sp \<and> queued (fold erase applied q1) account sp' \<noteq> None"
proof -
  let ?prec = "precedingOf (cands q) aq sp"
  have prec: "distinct ?prec" "\<And>c. c \<in> set ?prec \<Longrightarrow> Less (CandSeqProxy (cands q ! c)) sp \<and>
      queued q account (CandSeqProxy (cands q ! c)) = Some c \<and> c \<in> set (byFee q) \<and> Account (cands q ! c) = account"
    using precedingOf_props [OF wf aq] by blast+
  obtain k where k: "applied = take k ?prec" "\<not> ok \<longrightarrow> k < length ?prec"
    "q1 = q\<lparr>cands := cands q1\<rparr>" "store_ext (cands q) (cands q1)"
    using clearLoop_effect [OF run] by auto
  have sub: "c \<in> set ?prec" if "c \<in> set applied" for c
    using that k(1) in_set_takeD by fast
  have "shrinks q account applied (fold erase applied (q\<lparr>cands := cands q1\<rparr>))"
    using prec k(1,4) sub by (intro shrinksI) auto
  then show sh: "shrinks q account applied (fold erase applied q1)"
    using k(3) by simp
  have ne: "CandSeqProxy (cands q ! c) \<noteq> sp" if "c \<in> set ?prec" for c
    using prec(2) [OF that] by (auto simp: Less_def)
  then show "sp \<notin> (\<lambda>c. CandSeqProxy (cands q ! c)) ` set applied"
    using sub by auto
  assume "\<not> ok"
  then have k': "k < length ?prec"
    using k(2) by simp
  define c where "c = ?prec ! k"
  have c: "c \<in> set ?prec" "c \<notin> set applied"
    using k' k(1) prec(1) by (auto simp: c_def in_set_conv_nth nth_eq_iff_index_eq)
  have "CandSeqProxy (cands q ! c) \<notin> (\<lambda>c. CandSeqProxy (cands q ! c)) ` set applied"
  proof
    assume "CandSeqProxy (cands q ! c) \<in> (\<lambda>c. CandSeqProxy (cands q ! c)) ` set applied"
    then obtain d where d: "CandSeqProxy (cands q ! c) = CandSeqProxy (cands q ! d)" "d \<in> set applied"
      by (rule imageE)
    then have "Some d = Some c"
      using prec(2) [OF sub [OF d(2)]] prec(2) [OF c(1)] by simp
    then show False
      using c(2) d(2) by simp
  qed
  then have "queued (fold erase applied q1) account (CandSeqProxy (cands q ! c)) = Some c"
    using prec(2) [OF c(1)] by (simp only: shrinks_queued [OF wf sh] simp_thms if_False)
  then have "queued (fold erase applied q1) account (CandSeqProxy (cands q ! c)) \<noteq> None"
    by simp
  then show "\<exists>sp'. sp' \<noteq> sp \<and> queued (fold erase applied q1) account sp' \<noteq> None"
    using ne [OF c(1)] by blast
qed

lemma shrinks_erase:
  assumes wf: "txq_wf q" and sh: "shrinks q account cs q'" and c: "queued q' account sp = Some c"
  shows "shrinks q account (cs @ [c]) (erase c q')"
proof -
  have q: "queued q account sp = Some c" "sp \<notin> (\<lambda>c. CandSeqProxy (cands q ! c)) ` set cs"
    using c shrinks_queued [OF wf sh] by (simp_all split: if_splits)
  then have "c \<in> set (byFee q)" "Account (cands q ! c) = account" "CandSeqProxy (cands q ! c) = sp"
    using wf by (auto simp: txq_wf_iff)
  moreover have "c \<notin> set cs"
    using q(2) calculation(3) by blast
  ultimately show ?thesis
    using sh by (simp add: shrinks_def)
qed

text \<open>
  An attempt to clear the queue erases transactions of this account only.  When it gives up, the
  replaced transaction is untouched and the account's queue holds another transaction, unless
  nothing was changed at all.
\<close>

lemma tryClear_effect:
  assumes wf: "txq_wf q" and aq: "map_of (byAccount q) account = Some aq"
    and run: "tryClearAccountQueue ctx l q aq txn sp level txInLedger account = (r, l', q')"
  shows "\<exists>cs. shrinks q account cs q' \<and> (\<forall>x. r = Some x \<longrightarrow> \<not> Queued x) \<and>
    (r = None \<longrightarrow> queued q' account sp = queued q account sp \<and>
       (q' = q \<or> (\<exists>sp'. sp' \<noteq> sp \<and> queued q' account sp' \<noteq> None)))"
proof -
  obtain ok applied l1 q1 where loop: "clearLoop ctx (precedingOf (cands q) aq sp) l q [] = (ok, applied, l1, q1)"
    by (metis surj_pair)
  note sh = clearLoop_shrinks [OF wf aq loop]
  from tryClear_cases [OF run loop] show ?thesis
  proof (elim disjE)
    assume "q' = q \<and> r = None"
    then show ?thesis
      using shrinks_refl by auto
  next
    assume "\<not> ok \<and> r = None \<and> q' = fold erase applied q1"
    then show ?thesis
      using sh shrinks_queued [OF wf sh(1)] by (intro exI [of _ applied]) simp
  next
    assume "ok \<and> (\<exists>x. r = Some x \<and> \<not> Queued x) \<and> q' = fold erase applied q1"
    then show ?thesis
      using sh(1) by auto
  next
    assume "ok \<and> (\<exists>x. r = Some x \<and> \<not> Queued x) \<and>
      (\<exists>c. queued (fold erase applied q1) account sp = Some c \<and> q' = erase c (fold erase applied q1))"
    then show ?thesis
      using shrinks_erase [OF wf sh(1)] by auto
  qed
qed

lemma queued_Some_account: "queued q a sp \<noteq> None \<Longrightarrow> map_of (byAccount q) a \<noteq> None"
  by (auto simp: queued_def split: option.splits)

text \<open>What the clearing phase hands to the queuing phase when it did not settle the transaction.\<close>

definition cleared :: "TxQ \<Rightarrow> AccountID \<Rightarrow> SeqProxy \<Rightarrow> TxQ \<Rightarrow> bool" where
  "cleared q account sp q1 \<longleftrightarrow> (\<exists>cs. shrinks q account cs q1) \<and> queued q1 account sp = queued q account sp \<and>
     (map_of (byAccount q1) account = None \<longleftrightarrow> map_of (byAccount q) account = None) \<and>
     (q1 = q \<or> (\<exists>sp'. sp' \<noteq> sp \<and> queued q1 account sp' \<noteq> None))"

lemma cleared_refl: "cleared q account sp q"
  using shrinks_refl by (auto simp: cleared_def)

lemma cleared_inv:
  assumes "txq_inv q" "cleared q account sp q1"
  shows "txq_inv q1"
proof -
  obtain cs where "shrinks q account cs q1"
    using assms(2) by (auto simp: cleared_def)
  then show ?thesis
    by (rule shrinks_inv [OF assms(1)])
qed

lemma cleared_wf:
  assumes "txq_wf q" "cleared q account sp q1"
  shows "txq_wf q1"
proof -
  obtain cs where "shrinks q account cs q1"
    using assms(2) by (auto simp: cleared_def)
  then show ?thesis
    by (rule shrinks_wf [OF assms(1)])
qed

lemma cleared_sole:
  assumes "cleared q account sp q1" "sole q1 account sp"
  shows "q1 = q"
proof (rule ccontr)
  assume "q1 \<noteq> q"
  then obtain sp' where "sp' \<noteq> sp" "queued q1 account sp' \<noteq> None"
    using assms(1) by (auto simp: cleared_def)
  moreover have "sp' = sp" if "map fst xs = [sp]" "map_of xs sp' \<noteq> None" for xs :: "(SeqProxy \<times> ref) list"
    using that by (cases xs) (auto split: if_splits)
  ultimately show False
    using assms(2) by (auto simp: sole_def queued_def split: option.splits)
qed

lemma clearPhase_effect:
  assumes wf: "txq_wf q"
    and run: "clearPhase ctx l q txn (map_of (byAccount q) account) multi sp level req txInLedger account = (r, l', q')"
  shows "case r of None \<Rightarrow> cleared q account sp q' | Some x \<Rightarrow> \<not> Queued x \<and> (\<exists>cs. shrinks q account cs q')"
proof (cases "r = None \<and> q' = q")
  case True
  then show ?thesis
    by (simp add: cleared_refl)
next
  case False
  then obtain aq where aq: "map_of (byAccount q) account = Some aq"
    and run': "tryClearAccountQueue ctx l q aq txn sp level txInLedger account = (r, l', q')"
    using run by (auto simp: clearPhase_def split: if_splits option.splits)
  show ?thesis
    using tryClear_effect [OF wf aq run'] aq queued_Some_account [of q' account]
    by (auto simp: cleared_def split: option.split)
qed

section \<open>Queuing\<close>

lemma queueTx_cases:
  assumes "queueTx q account ex replacing cand = Some (r, q')"
  shows "\<not> Queued r \<and> r = rejected TelCAN_NOT_QUEUE_FULL \<and> q' = q \<or>
    Queued r \<and> \<not> (replacing = None \<and> isFull q) \<and> q' = enqueue q account ex replacing cand \<or>
    Queued r \<and> replacing = None \<and> isFull q \<and>
      (\<exists>q1. makeRoom q account (CandFeeLevel cand) = Room q1 \<and> q' = enqueue q1 account ex replacing cand)"
  using assms by (auto simp: queueTx_def rejected_def split: if_splits Room.splits)

lemma queueTx_wf:
  assumes wf: "txq_wf q" and cand: "length (TxID cand) = 32" "Account cand = account"
    and ex: "ex = (map_of (byAccount q) account \<noteq> None)" "replacing = queued q account (CandSeqProxy cand)"
    and run: "queueTx q account ex replacing cand = Some (r, q')"
  shows "txq_wf q'"
proof -
  have rep: "ex \<or> map_of (byAccount q) account = None \<and> replacing = None"
    using ex queued_Some_account by blast
  from queueTx_cases [OF run] consider "q' = q" | "q' = enqueue q account ex replacing cand"
    | q1 where "replacing = None" "makeRoom q account (CandFeeLevel cand) = Room q1" "q' = enqueue q1 account ex replacing cand"
    by blast
  then show ?thesis
  proof cases
    case 3
    obtain c where c: "q1 = erase c q" "Account (cands q ! c) \<noteq> account"
      using makeRoom_room [OF wf 3(2)] by blast
    have "map_of (byAccount q1) account = map_of (byAccount q) account"
      using c by (simp add: map_of_byAccount_erase)
    then show ?thesis
      unfolding 3(3) using rep 3(1) erase_wf [OF wf] c(1) by (intro enqueue_wf cand) auto
  qed (use wf rep cand in \<open>auto intro: enqueue_wf\<close>)
qed

lemma queueTx_inv:
  assumes inv: "txq_inv q" and cand: "length (TxID cand) = 32" "Account cand = account"
    and ex: "ex = (map_of (byAccount q) account \<noteq> None)" "replacing = queued q account (CandSeqProxy cand)"
    and sole: "\<not> sole q account (CandSeqProxy cand)"
    and run: "queueTx q account ex replacing cand = Some (r, q')"
  shows "txq_inv q'"
proof -
  from queueTx_cases [OF run] consider "q' = q" | "q' = enqueue q account ex replacing cand"
    | q1 where "replacing = None" "makeRoom q account (CandFeeLevel cand) = Room q1" "q' = enqueue q1 account ex replacing cand"
    by blast
  then show ?thesis
  proof cases
    case 3
    obtain c where c: "q1 = erase c q" "Account (cands q ! c) \<noteq> account" "c \<in> set (byFee q)"
      using makeRoom_room [of q] 3(2) inv by (metis txq_inv_def)
    have same: "map_of (byAccount q1) account = map_of (byAccount q) account"
      using c by (simp add: map_of_byAccount_erase)
    then have "sole q1 account sp = sole q account sp" "queued q1 account sp = queued q account sp" for sp
      by (simp_all add: sole_def queued_def)
    then show ?thesis
      unfolding 3(3) using ex sole same erase_inv [OF inv c(3)] c(1) by (intro enqueue_inv cand) auto
  qed (use inv ex sole cand in \<open>auto intro: enqueue_inv\<close>)
qed

lemma queueTx_no_crash: "txq_inv q \<Longrightarrow> queueTx q account ex replacing cand \<noteq> None"
  using makeRoom_no_crash [of q account "CandFeeLevel cand"] by (auto simp: queueTx_def split: Room.split)

lemma length_byFee_enqueue:
  assumes "case replacing of None \<Rightarrow> True | Some r \<Rightarrow> r \<in> set (byFee q)"
  shows "length (byFee (enqueue q account ex replacing cand)) = length (byFee q) + (if replacing = None then 1 else 0)"
proof -
  have "size (mset (byFee (insertByFee c q'))) = Suc (size (mset (byFee q')))" for c q'
    by (simp only: mset_byFee_insertByFee size_add_mset)
  then have len: "length (byFee (insertByFee c q')) = Suc (length (byFee q'))" for c q'
    by (simp only: size_mset)
  show ?thesis
  proof (cases replacing)
    case (Some r)
    then have "length (byFee q) > 0"
      using assms by (auto intro: length_pos_if_in_set)
    then show ?thesis
      using assms Some by (simp add: enqueue_eq len length_remove1)
  qed (simp add: enqueue_eq len)
qed

section \<open>The whole of Apply\<close>

lemma replacingOf_queued: "replacingOf (map_of (byAccount q) account) sp = queued q account sp"
  by (simp add: replacingOf_def queued_def)

text \<open>The checks a transaction passes before it is queued, on the queue it was submitted to.\<close>

definition passed_checks ::
  "'l ApplyContext \<Rightarrow> 'l \<Rightarrow> TxQ \<Rightarrow> Transaction \<Rightarrow> Common \<Rightarrow> AccountID \<Rightarrow> SeqProxy \<Rightarrow> FeeLevel \<Rightarrow> u32 \<Rightarrow> u32 \<Rightarrow> bool" where
  "passed_checks ctx l q txn common account sp level acctSeq ledgerSeq \<longleftrightarrow>
     (let aqo = map_of (byAccount q) account; acctSeqProx = NewSeqProxySequence acctSeq;
          cons = computeConsequences common (body txn) sp
      in holdCheck ctx l q common account sp acctSeq ledgerSeq = None \<and>
         blockerCheck (cands q) aqo acctSeqProx sp cons = None \<and>
         blockedCheck (config q) (cands q) aqo acctSeqProx sp level = None \<and>
         sequenceCheck ctx l q txn account aqo sp acctSeq cons = None)"

definition newCand :: "Transaction \<Rightarrow> Common \<Rightarrow> Hash256 \<Rightarrow> AccountID \<Rightarrow> SeqProxy \<Rightarrow> FeeLevel \<Rightarrow> Candidate" where
  "newCand txn common txID account sp level =
     NewCandidate txn txID account level sp (lastValidOf common) TesSUCCESS (computeConsequences common (body txn) sp)"

lemma newCand_simps [simp]:
  "TxID (newCand txn common txID account sp level) = txID"
  "Account (newCand txn common txID account sp level) = account"
  "CandSeqProxy (newCand txn common txID account sp level) = sp"
  "CandFeeLevel (newCand txn common txID account sp level) = level"
  by (simp_all add: newCand_def NewCandidate_def)

lemma holdTx_eq:
  assumes "passed_checks ctx l q txn common account sp level acctSeq ledgerSeq"
  shows "holdTx ctx l q txn common txID account sp level acctSeq txInLedger ledgerSeq req =
    (let aqo = map_of (byAccount q) account;
         multi = requiresMultiTxn (acctTxCountOf aqo (NewSeqProxySequence acctSeq)) (queued q account sp)
     in case clearPhase ctx l q txn aqo multi sp level req txInLedger account of
          (Some r, l', q') \<Rightarrow> Some (r, l', q')
        | (None, l', q') \<Rightarrow>
            case (if multi then None else case aqo of None \<Rightarrow> None | Some aq \<Rightarrow> canBeHeld q' aq (queued q account sp) sp acctSeq) of
              Some r \<Rightarrow> Some (rejected r, l', q')
            | None \<Rightarrow>
                case queueTx q' account (aqo \<noteq> None) (queued q account sp) (newCand txn common txID account sp level) of
                  None \<Rightarrow> None
                | Some (r, q'') \<Rightarrow> Some (r, l', q''))"
  using assms unfolding holdTx_def passed_checks_def Let_def replacingOf_queued newCand_def by simp

lemma holdTx_rejected:
  assumes "\<not> passed_checks ctx l q txn common account sp level acctSeq ledgerSeq"
  shows "\<exists>r. holdTx ctx l q txn common txID account sp level acctSeq txInLedger ledgerSeq req = Some (rejected r, l, q)"
  using assms by (auto simp: holdTx_def passed_checks_def Let_def split: option.split)

lemma holdTx_cases:
  assumes wf: "txq_wf q"
    and run: "holdTx ctx l q txn common txID account sp level acctSeq txInLedger ledgerSeq req = Some (r, l', q')"
  shows "\<not> Queued r \<and> (\<exists>cs. shrinks q account cs q') \<or>
    passed_checks ctx l q txn common account sp level acctSeq ledgerSeq \<and>
    (\<exists>q1. cleared q account sp q1 \<and>
      queueTx q1 account (map_of (byAccount q) account \<noteq> None) (queued q account sp)
        (newCand txn common txID account sp level) = Some (r, q'))"
proof (cases "passed_checks ctx l q txn common account sp level acctSeq ledgerSeq")
  case False
  then show ?thesis
    using holdTx_rejected [OF False, of txID txInLedger req] run shrinks_refl by (auto simp: rejected_def)
next
  case True
  let ?multi = "requiresMultiTxn (acctTxCountOf (map_of (byAccount q) account) (NewSeqProxySequence acctSeq)) (queued q account sp)"
  obtain rc lc qc where clear: "clearPhase ctx l q txn (map_of (byAccount q) account) ?multi sp level req txInLedger account = (rc, lc, qc)"
    by (metis surj_pair)
  note eff = clearPhase_effect [OF wf clear]
  note run' = run [unfolded holdTx_eq [OF True] Let_def clear prod.case]
  show ?thesis
  proof (cases rc)
    case (Some x)
    then show ?thesis
      using run' eff by auto
  next
    case None
    let ?held = "if ?multi then None else case map_of (byAccount q) account of None \<Rightarrow> None
      | Some aq \<Rightarrow> canBeHeld qc aq (queued q account sp) sp acctSeq"
    have cl: "cleared q account sp qc"
      using eff None by simp
    show ?thesis
    proof (cases ?held)
      case (Some h)
      then have "r = rejected h" "q' = qc"
        using run' None by simp_all
      then show ?thesis
        using cl by (auto simp: cleared_def rejected_def)
    next
      case held: None
      then have "queueTx qc account (map_of (byAccount q) account \<noteq> None) (queued q account sp)
        (newCand txn common txID account sp level) = Some (r, q')"
        using run' None by (auto split: option.splits)
      then show ?thesis
        using True cl by blast
    qed
  qed
qed

lemma holdTx_no_crash:
  assumes "txq_inv q"
  shows "holdTx ctx l q txn common txID account sp level acctSeq txInLedger ledgerSeq req \<noteq> None"
proof (cases "passed_checks ctx l q txn common account sp level acctSeq ledgerSeq")
  case False
  then show ?thesis
    using holdTx_rejected [OF False, of txID txInLedger req] by auto
next
  case True
  let ?multi = "requiresMultiTxn (acctTxCountOf (map_of (byAccount q) account) (NewSeqProxySequence acctSeq)) (queued q account sp)"
  obtain rc lc qc where clear: "clearPhase ctx l q txn (map_of (byAccount q) account) ?multi sp level req txInLedger account = (rc, lc, qc)"
    by (metis surj_pair)
  have wf: "txq_wf q"
    using assms by (simp add: txq_inv_def)
  have "txq_inv qc" if "rc = None"
    using clearPhase_effect [OF wf clear] cleared_inv [OF assms] that by simp
  then have "queueTx qc account ex rep cand \<noteq> None" if "rc = None" for ex rep cand
    using queueTx_no_crash that by blast
  then obtain r qq where "queueTx qc account (map_of (byAccount q) account \<noteq> None) (queued q account sp)
      (newCand txn common txID account sp level) = Some (r, qq)" if "rc = None"
    by (metis not_None_eq surj_pair)
  then show ?thesis
    unfolding holdTx_eq [OF True] Let_def clear prod.case
    by (cases rc) (auto split: option.split)
qed

text \<open>Either nothing is queued and transactions of this account at most are erased, or all the checks
  are passed and the new candidate is queued.\<close>

lemma Apply_cases:
  assumes wf: "txq_wf q" and run: "Apply ctx l q txn txID account = Some (r, l', q')"
  shows "\<not> Queued r \<and> (\<exists>cs. shrinks q account cs q') \<or>
    (\<exists>common sp l1 q1. GetCommon txn = Some common \<and> seqProxyOf common = Some sp \<and>
       passed_checks ctx l1 q txn common account sp (ToFeeLevel (ParseUint (Fee common)) (GetBaseFee ctx l txn))
         (GetAccountSequence ctx l account) (GetLedgerSequence ctx l) \<and>
       cleared q account sp q1 \<and>
       queueTx q1 account (map_of (byAccount q) account \<noteq> None) (queued q account sp)
         (newCand txn common txID account sp (ToFeeLevel (ParseUint (Fee common)) (GetBaseFee ctx l txn))) = Some (r, q'))"
    (is "?A \<or> ?B")
proof (cases "\<exists>common sp. GetCommon txn = Some common \<and> seqProxyOf common = Some sp")
  case False
  then have "q' = q" "\<not> Queued r"
    using run by (auto simp: Apply_def Let_def rejected_def split: option.splits)
  then show ?thesis
    using shrinks_refl by blast
next
  case True
  then obtain common sp where c: "GetCommon txn = Some common" "seqProxyOf common = Some sp"
    by blast
  let ?level = "ToFeeLevel (ParseUint (Fee common)) (GetBaseFee ctx l txn)"
  let ?req = "ScaleFeeLevel (GetSnapshot (feeMetrics q)) (GetTxInLedger ctx l)"
  let ?hold = "\<lambda>l. holdTx ctx l q txn common txID account sp ?level (GetAccountSequence ctx l account)"
  obtain res ok l1 where A: "ApplyTransaction ctx l txn = ((res, ok), l1)"
    by (metis surj_pair)
  have "(\<exists>l0. holdTx ctx l0 q txn common txID account sp ?level (GetAccountSequence ctx l account) (GetTxInLedger ctx l)
      (GetLedgerSequence ctx l) ?req = Some (r, l', q')) \<or>
    \<not> Queued r \<and> (q' = q \<or> (\<exists>c. queued q account sp = Some c \<and> q' = erase c q))"
    using run unfolding Apply_def Let_def c A option.case prod.case
    by (auto simp: rejected_def split: if_splits option.splits)
  then show ?thesis
  proof (elim disjE exE conjE)
    fix l0
    assume "holdTx ctx l0 q txn common txID account sp ?level (GetAccountSequence ctx l account) (GetTxInLedger ctx l)
      (GetLedgerSequence ctx l) ?req = Some (r, l', q')"
    from holdTx_cases [OF wf this] show ?thesis
      using c by blast
  next
    fix c
    assume "\<not> Queued r" "queued q account sp = Some c" "q' = erase c q"
    then show ?thesis
      using shrinks_erase [OF wf shrinks_refl, of account sp c] by auto
  qed (use shrinks_refl in blast)+
qed

lemma Apply_wf_aux:
  assumes wf: "txq_wf q" and "length txID = 32" and run: "Apply ctx l q txn txID account = Some (r, l', q')"
  shows "txq_wf q'"
  using Apply_cases [OF wf run]
proof (elim disjE exE conjE)
  fix cs
  assume "shrinks q account cs q'"
  then show ?thesis
    by (rule shrinks_wf [OF wf])
next
  fix common sp q1
  let ?cand = "newCand txn common txID account sp (ToFeeLevel (ParseUint (Fee common)) (GetBaseFee ctx l txn))"
  assume cl: "cleared q account sp q1"
    and qt: "queueTx q1 account (map_of (byAccount q) account \<noteq> None) (queued q account sp) ?cand = Some (r, q')"
  show ?thesis
    by (rule queueTx_wf [OF cleared_wf [OF wf cl] _ _ _ _ qt]) (use cl assms(2) in \<open>auto simp: cleared_def\<close>)
qed

lemma isFull_length:
  "maxSize q = Some m \<Longrightarrow> length (byFee q) < 2 ^ 32 \<Longrightarrow> isFull q \<longleftrightarrow> unat m \<le> length (byFee q)"
  by (simp add: isFull_def word_le_nat_alt unat_of_nat)

lemma queueTx_length:
  assumes wf: "txq_wf q" and rep: "replacing = queued q account sp"
    and m: "maxSize q = Some m" "length (byFee q) \<le> unat m"
    and run: "queueTx q account ex replacing cand = Some (r, q')"
  shows "length (byFee q') \<le> unat m"
proof -
  have "unat m < 2 ^ 32"
    by (rule unat_u32_bound)
  then have full: "isFull q \<longleftrightarrow> unat m \<le> length (byFee q)"
    using m by (intro isFull_length) linarith+
  have in_fee: "case replacing of None \<Rightarrow> True | Some r \<Rightarrow> r \<in> set (byFee q)"
    using wf rep by (auto simp: txq_wf_iff split: option.split)
  from queueTx_cases [OF run] consider "q' = q"
    | "\<not> (replacing = None \<and> isFull q)" "q' = enqueue q account ex replacing cand"
    | q1 where "replacing = None" "makeRoom q account (CandFeeLevel cand) = Room q1" "q' = enqueue q1 account ex replacing cand"
    by blast
  then show ?thesis
  proof cases
    case 1
    then show ?thesis using m by simp
  next
    case 2
    then show ?thesis
      using length_byFee_enqueue [OF in_fee] full m by (auto split: if_splits)
  next
    case 3
    obtain c where c: "q1 = erase c q" "c \<in> set (byFee q)"
      using makeRoom_room [OF wf 3(2)] by blast
    then have "length (byFee q1) < length (byFee q)"
      using length_pos_if_in_set [OF c(2)] by (simp add: length_remove1)
    then show ?thesis
      using length_byFee_enqueue [where replacing = None and q = q1] 3 m by simp
  qed
qed

lemma sequenceCheck_replaced_relevant:
  assumes "queued q account sp \<noteq> None"
    "sequenceCheck ctx l q txn account (map_of (byAccount q) account) sp acctSeq cons = None"
  shows "acctTxCountOf (map_of (byAccount q) account) (NewSeqProxySequence acctSeq) > 0"
proof (rule ccontr)
  assume "\<not> ?thesis"
  then have zero: "acctTxCountOf (map_of (byAccount q) account) (NewSeqProxySequence acctSeq) = 0"
    by simp
  obtain aq c where aq: "map_of (byAccount q) account = Some aq" "map_of (Transactions aq) sp = Some c"
    using assms(1) by (auto simp: queued_def split: option.splits)
  have "Less sp (NewSeqProxySequence acctSeq)"
    using zero aq map_of_SomeD [OF aq(2)]
    by (auto simp: acctTxCountOf_def RelevantCount_filter filter_empty_conv)
  then have "\<not> IsTicket sp" "Value sp < acctSeq"
    by (auto simp: Less_def NewSeqProxySequence_def split: if_splits)
  then show False
    using assms(2) zero by (simp add: sequenceCheck_def frontCheck_def)
qed

lemma sole_only:
  assumes "sole q account sp" "queued q account sp' \<noteq> None"
  shows "sp' = sp"
proof -
  have "sp' = sp" if "map fst xs = [sp]" "map_of xs sp' \<noteq> None" for xs :: "(SeqProxy \<times> ref) list"
    using that by (cases xs) (auto split: if_splits)
  then show ?thesis
    using assms by (auto simp: sole_def queued_def split: option.splits)
qed

lemma sole_queued:
  assumes "sole q account sp"
  obtains r where "queued q account sp = Some r"
proof -
  obtain aq where aq: "map_of (byAccount q) account = Some aq" "map fst (Transactions aq) = [sp]"
    using assms by (auto simp: sole_def split: option.splits)
  then have "map_of (Transactions aq) sp \<noteq> None"
    by (simp add: map_of_eq_None_iff flip: set_map)
  then show thesis
    using that aq(1) by (auto simp: queued_def)
qed

lemma cleared_of_sole:
  assumes wf: "txq_wf q" and cl: "cleared q account sp q1" and sole: "sole q account sp"
  shows "q1 = q"
proof (rule ccontr)
  assume "q1 \<noteq> q"
  then obtain sp' cs where sp': "sp' \<noteq> sp" "queued q1 account sp' \<noteq> None" and sh: "shrinks q account cs q1"
    using cl by (auto simp: cleared_def)
  have "queued q account sp' \<noteq> None"
    using sp'(2) shrinks_queued [OF wf sh] by (auto split: if_splits)
  then show False
    using sole_only [OF sole] sp'(1) by blast
qed

text \<open>Replacing the only transaction of an account: the new candidate goes to a queue that is no
  longer in \<open>byAccount\<close>.\<close>

lemma enqueue_sole:
  assumes wf: "txq_wf q" and sole: "sole q account (CandSeqProxy cand)"
    and r: "queued q account (CandSeqProxy cand) = Some r"
  shows "map_of (byAccount (enqueue q account True (Some r) cand)) account = None"
    "length (cands q) \<in> set (byFee (enqueue q account True (Some r) cand))"
    "cands (enqueue q account True (Some r) cand) = cands q @ [cand]"
proof -
  have "map_of (byAccount (erase r q)) account = None"
    using erase_lost [OF wf r] sole by simp
  then show "map_of (byAccount (enqueue q account True (Some r) cand)) account = None"
    by (simp add: enqueue_eq add_index_def)
qed (simp_all add: enqueue_eq)

section \<open>The transactions the blocker rules look at\<close>

lemma txq_wf_aq_wf:
  assumes "txq_wf q" "map_of (byAccount q) account = Some aq"
  shows "aq_wf (cands q) aq"
proof -
  have d: "distinct (map fst (Transactions aq))"
    using assms accounts_wf_lookup by (auto simp: txq_wf_def)
  have "c < length (cands q) \<and> CandSeqProxy (cands q ! c) = sp" if "(sp, c) \<in> set (Transactions aq)" for sp c
  proof -
    have "queued q account sp = Some c"
      using that d assms(2) by (simp add: queued_def)
    then show ?thesis
      using assms(1) by (auto simp: txq_wf_iff)
  qed
  then show ?thesis
    using d by (auto simp: aq_wf_def)
qed

lemma RelevantCount_pos:
  assumes "map_of (Transactions aq) sp = Some c" "\<not> Less sp P"
  shows "RelevantCount aq P \<ge> 1"
proof -
  have "(sp, c) \<in> set (filter (\<lambda>(k, c). \<not> Less k P) (Transactions aq))"
    using assms map_of_SomeD by fastforce
  then show ?thesis
    unfolding RelevantCount_filter by (metis One_nat_def Suc_leI length_pos_if_in_set)
qed

lemma FirstRelevant_single:
  assumes wf: "aq_wf h aq" and c: "map_of (Transactions aq) sp = Some c" "\<not> Less sp P"
    and one: "RelevantCount aq P = 1"
  shows "FirstRelevant h aq P = Some c"
proof -
  let ?rel = "filter (\<lambda>(k, c). \<not> Less k P) (Transactions aq)"
  have mem: "(sp, c) \<in> set ?rel"
    using c map_of_SomeD by fastforce
  have rel: "?rel = [(sp, c)]"
  proof -
    obtain x where "?rel = [x]"
      using one by (auto simp: RelevantCount_filter length_Suc_conv)
    then show ?thesis
      using mem by (simp only: list.set singleton_iff)
  qed
  have best: "is_best (\<lambda>k. \<not> Less k P) (\<lambda>a b. Less b a) (Transactions aq) (FirstRelevant h aq P)"
    unfolding FirstRelevant_best_of using wf by (intro first_scan.best_of_is_best) (auto simp: aq_wf_def)
  show ?thesis
  proof (cases "FirstRelevant h aq P")
    case None
    then show ?thesis
      using best mem by (auto simp: is_best_def)
  next
    case (Some f)
    then obtain k where "(k, f) \<in> set ?rel"
      using best by (auto simp: is_best_def)
    then show ?thesis
      using rel Some by simp
  qed
qed

end
