(* ===== verification/TxqAccept.thy ===== *)
theory TxqAccept
  imports TxqApplyInv
begin

text \<open>
  Filling a new open ledger from the queue (\<open>internal/txq/accept.go\<close>) and closing a ledger
  (\<open>internal/txq/process.go\<close>).  One iteration of the loop of \<open>Accept\<close> is \<open>acceptStep\<close>.
\<close>

record 'l AcceptContext =
  AcTxInLedger :: "'l \<Rightarrow> u32"
  AcAccountSequence :: "'l \<Rightarrow> AccountID \<Rightarrow> u32"
  AcApplyTransaction :: "'l \<Rightarrow> Transaction \<Rightarrow> (Result \<times> bool) \<times> 'l"
  AcParentHash :: "'l \<Rightarrow> Hash256"

definition isTefFailure :: "Result \<Rightarrow> bool" where
  "isTefFailure r = (r \<le> -180 \<and> r \<ge> -199)"

definition isTemMalformed :: "Result \<Rightarrow> bool" where
  "isTemMalformed r = (r \<le> -200 \<and> r \<ge> -299)"

text \<open>Assigning a field of the account's queue.\<close>

definition updAq :: "AccountID \<Rightarrow> (AccountQueue \<Rightarrow> AccountQueue) \<Rightarrow> TxQ \<Rightarrow> TxQ" where
  "updAq account f q = (case map_of (byAccount q) account of
     None \<Rightarrow> q | Some aq \<Rightarrow> q\<lparr>byAccount := AList.update account (f aq) (byAccount q)\<rparr>)"

definition indexOf :: "ref \<Rightarrow> ref list \<Rightarrow> nat option" where
  "indexOf c xs = (if c \<in> set xs then Some (length (takeWhile (\<lambda>x. x \<noteq> c) xs)) else None)"

definition eraseAndAdvance :: "nat \<Rightarrow> ref \<Rightarrow> TxQ \<Rightarrow> nat \<times> TxQ" where
  "eraseAndAdvance i c q =
     (case map_of (byAccount q) (Account (cands q ! c)) of
        None \<Rightarrow> (i, q)
      | Some aq \<Rightarrow>
          let sp = CandSeqProxy (cands q ! c);
              nextCandidate =
                (if \<not> IsTicket sp
                 then map_of (Transactions aq) (NewSeqProxySequence (Value (FollowingSeq (Consequences (cands q ! c)))))
                 else None);
              useAccountNext =
                (case nextCandidate of
                   None \<Rightarrow> False
                 | Some n \<Rightarrow> Value (CandSeqProxy (cands q ! n)) > Value sp \<and>
                     (if i + 1 < length (byFee q) then candidateLess q n (byFee q ! (i + 1)) else True));
              q' = erase c q
          in if useAccountNext
             then (case indexOf (the nextCandidate) (byFee q') of Some j \<Rightarrow> (j, q') | None \<Rightarrow> (i, q'))
             else (i, q'))"

definition dropLastForAccount :: "AccountQueue \<Rightarrow> TxQ \<Rightarrow> TxQ" where
  "dropLastForAccount aq q =
     (if AqEmpty aq then q
      else case fold (\<lambda>(_, c) lastC.
                  if \<not> IsTicket (CandSeqProxy (cands q ! c))
                  then (case lastC of None \<Rightarrow> Some c
                        | Some x \<Rightarrow> if Value (CandSeqProxy (cands q ! c)) > Value (CandSeqProxy (cands q ! x))
                                     then Some c else lastC)
                  else lastC) (Transactions aq) None of
             None \<Rightarrow> q
           | Some c \<Rightarrow> erase c q)"

text \<open>A candidate that was tried and not applied.\<close>

definition acceptFailed ::
  "Result \<Rightarrow> TxQ \<Rightarrow> nat \<Rightarrow> ref \<Rightarrow> AccountQueue \<Rightarrow> nat \<times> TxQ" where
  "acceptFailed result q0 i c aq =
     (let q = updCand c (\<lambda>x. x\<lparr>LastResult := result\<rparr>) q0;
          retries = RetriesRemaining (cands q ! c);
          account = Account (cands q ! c)
      in if isTefFailure result \<or> isTemMalformed result \<or> retries \<le> 0
         then eraseAndAdvance i c
                (updAq account (\<lambda>a. if retries \<le> 0 then a\<lparr>RetryPenalty := True\<rparr> else a\<lparr>DropPenalty := True\<rparr>) q)
         else let q' = updCand c (\<lambda>x. x\<lparr>RetriesRemaining :=
                         (if RetryPenalty aq \<and> RetriesRemaining x > 2 then 1 else RetriesRemaining x - 1)\<rparr>) q
              in if DropPenalty aq \<and> AqCount aq > 1 \<and> isFullPct q' 95
                 then if IsTicket (CandSeqProxy (cands q ! c)) then eraseAndAdvance i c q'
                      else (i + 1, dropLastForAccount aq q')
                 else (i + 1, q'))"

definition acceptStep ::
  "'l AcceptContext \<Rightarrow> 'l \<Rightarrow> TxQ \<Rightarrow> nat \<Rightarrow> bool \<Rightarrow> ('l \<times> TxQ \<times> nat \<times> bool) option" where
  "acceptStep ctx l q i changed =
     (if i < length (byFee q)
      then let c = byFee q ! i; cand = cands q ! c
           in case map_of (byAccount q) (Account cand) of
                None \<Rightarrow> Some (l, q, i + 1, changed)
              | Some aq \<Rightarrow>
                  if \<not> IsTicket (CandSeqProxy cand) \<and>
                     (case GetFirstSeqTx (cands q) aq of None \<Rightarrow> False
                      | Some f \<Rightarrow> Value (CandSeqProxy cand) > Value (CandSeqProxy (cands q ! f)))
                  then Some (l, q, i + 1, changed)
                  else if CandFeeLevel cand < ScaleFeeLevel (GetSnapshot (feeMetrics q)) (AcTxInLedger ctx l)
                  then None
                  else let ((result, applied), l') = AcApplyTransaction ctx l (Txn cand)
                       in if applied
                          then (case eraseAndAdvance i c q of (i', q') \<Rightarrow> Some (l', q', i', True))
                          else (case acceptFailed result q i c aq of (i', q') \<Rightarrow> Some (l', q', i', changed))
      else None)"

section \<open>The loop ends\<close>

lemma updAq_simps [simp]:
  "byFee (updAq a f q) = byFee q"
  "cands (updAq a f q) = cands q"
  "parentHash (updAq a f q) = parentHash q"
  "config (updAq a f q) = config q"
  "feeMetrics (updAq a f q) = feeMetrics q"
  "maxSize (updAq a f q) = maxSize q"
  by (simp_all add: updAq_def split: option.split)

lemma map_of_updAq: "map_of (byAccount (updAq a f q)) x =
    (if x = a then map_option f (map_of (byAccount q) a) else map_of (byAccount q) x)"
  by (simp add: updAq_def update_conv' split: option.split)

lemma eraseAndAdvance_eq:
  assumes "map_of (byAccount q) (Account (cands q ! c)) \<noteq> None"
  shows "\<exists>i'. eraseAndAdvance i c q = (i', erase c q)"
  using assms by (auto simp: eraseAndAdvance_def Let_def split: option.split)

text \<open>The account's queue holds the candidate that is dropped.\<close>

lemma dropLastForAccount_cases:
  "dropLastForAccount aq q = q \<or> (\<exists>sp c. (sp, c) \<in> set (Transactions aq) \<and> dropLastForAccount aq q = erase c q)"
proof -
  let ?f = "\<lambda>(_ :: SeqProxy, c) lastC.
                  if \<not> IsTicket (CandSeqProxy (cands q ! c))
                  then (case lastC of None \<Rightarrow> Some c
                        | Some x \<Rightarrow> if Value (CandSeqProxy (cands q ! c)) > Value (CandSeqProxy (cands q ! x))
                                     then Some c else lastC)
                  else lastC"
  have "set_option (fold ?f xs None) \<subseteq> snd ` set xs" for xs
    by (induction xs rule: rev_induct) (auto split: option.splits if_splits)
  then have "set_option (fold ?f (Transactions aq) None) \<subseteq> snd ` set (Transactions aq)" .
  then show ?thesis
    by (cases "fold ?f (Transactions aq) None") (force simp: dropLastForAccount_def)+
qed

text \<open>Changes of mutable fields only: the indexes are the same.\<close>

definition touched :: "TxQ \<Rightarrow> TxQ \<Rightarrow> bool" where
  "touched q q1 \<longleftrightarrow> byFee q1 = byFee q \<and> parentHash q1 = parentHash q \<and> config q1 = config q \<and>
     feeMetrics q1 = feeMetrics q \<and> maxSize q1 = maxSize q \<and> store_ext (cands q) (cands q1) \<and>
     (distinct (map fst (byAccount q)) \<longrightarrow> distinct (map fst (byAccount q1))) \<and>
     (\<forall>a. map_option Transactions (map_of (byAccount q1) a) = map_option Transactions (map_of (byAccount q) a))"

lemma touched_refl: "touched q q"
  by (simp add: touched_def)

lemma touched_updCand: "touched q q1 \<Longrightarrow> (\<And>x. ids (f x) = ids x) \<Longrightarrow> touched q (updCand c f q1)"
  using updCand_store_ext store_ext_trans by (simp add: touched_def) blast

lemma touched_updAq: "touched q q1 \<Longrightarrow> (\<And>a. Transactions (f a) = Transactions a) \<Longrightarrow> touched q (updAq a f q1)"
  by (auto simp: touched_def map_of_updAq option.map_comp comp_def)
    (auto simp: updAq_def distinct_update split: option.split)

lemma touched_Some:
  "touched q q1 \<Longrightarrow> map_of (byAccount q) a \<noteq> None \<Longrightarrow> map_of (byAccount q1) a \<noteq> None"
  unfolding touched_def by (metis map_option_is_None)

lemma acceptFailed_cases:
  assumes aq: "map_of (byAccount q) (Account (cands q ! c)) = Some aq" and run: "acceptFailed result q i c aq = (i', q')"
  shows "\<exists>q1. touched q q1 \<and> (q' = erase c q1 \<or> i' = i + 1 \<and> (q' = q1 \<or> q' = dropLastForAccount aq q1))"
proof -
  let ?q1 = "updCand c (\<lambda>x. x\<lparr>LastResult := result\<rparr>) q"
  let ?q2 = "updCand c (\<lambda>x. x\<lparr>RetriesRemaining :=
    (if RetryPenalty aq \<and> RetriesRemaining x > 2 then 1 else RetriesRemaining x - 1)\<rparr>) ?q1"
  let ?f = "\<lambda>a. if RetriesRemaining (cands ?q1 ! c) \<le> 0 then a\<lparr>RetryPenalty := True\<rparr> else a\<lparr>DropPenalty := True\<rparr>"
  have acc: "Account (cands (updCand c f q0) ! c) = Account (cands q0 ! c)" if "\<And>x. Account (f x) = Account x" for f q0
    using that by (cases "c < length (cands q0)") (simp_all add: updCand_def not_less list_update_beyond)
  have t1: "touched q ?q1"
    by (intro touched_updCand touched_refl) (simp add: ids_def)
  have t2: "touched q ?q2"
    by (intro touched_updCand [OF t1]) (simp add: ids_def)
  have t3: "touched q (updAq a ?f ?q1)" for a
    by (intro touched_updAq [OF t1]) simp
  have erase: "\<exists>i''. eraseAndAdvance i c q0 = (i'', erase c q0)"
    if "touched q q0" "Account (cands q0 ! c) = Account (cands q ! c)" for q0
    using touched_Some [OF that(1)] aq that(2) by (intro eraseAndAdvance_eq) simp
  obtain i2 where e2: "eraseAndAdvance i c ?q2 = (i2, erase c ?q2)"
    using erase [OF t2] by (auto simp: acc)
  obtain i3 where e3: "eraseAndAdvance i c (updAq (Account (cands ?q1 ! c)) ?f ?q1) = (i3, erase c (updAq (Account (cands ?q1 ! c)) ?f ?q1))"
    using erase [OF t3] by (auto simp: acc)
  from run [symmetric] show ?thesis
    unfolding acceptFailed_def Let_def e2 e3 using t2 t3 by (auto split: if_splits)
qed

text \<open>Every iteration shortens the fee-ordered list or moves on in it.\<close>

lemma length_erase_le: "length (byFee (erase c q)) \<le> length (byFee q)"
  by (simp add: length_remove1)

lemma acceptStep_effect:
  assumes "acceptStep ctx l q i changed = Some (l', q', i', changed')"
  shows "i < length (byFee q) \<and> (\<exists>q1. touched q q1 \<and> (q' = erase (byFee q ! i) q1 \<or> i' = i + 1 \<and>
    (q' = q1 \<or> (\<exists>aq. map_of (byAccount q) (Account (cands q ! (byFee q ! i))) = Some aq \<and> q' = dropLastForAccount aq q1))))"
proof -
  let ?c = "byFee q ! i"
  have i: "i < length (byFee q)"
    using assms by (simp add: acceptStep_def split: if_splits)
  show ?thesis
  proof (cases "map_of (byAccount q) (Account (cands q ! ?c))")
    case None
    then show ?thesis
      using assms i touched_refl by (auto simp: acceptStep_def)
  next
    case (Some aq)
    obtain res ok l1 where A: "AcApplyTransaction ctx l (Txn (cands q ! ?c)) = ((res, ok), l1)"
      by (metis surj_pair)
    obtain ie where e: "eraseAndAdvance i ?c q = (ie, erase ?c q)"
      using eraseAndAdvance_eq [of q ?c i] Some by auto
    obtain i2 q2 where f: "acceptFailed res q i ?c aq = (i2, q2)"
      by fastforce
    have "q' = q \<and> i' = i + 1 \<or> q' = erase ?c q \<or> q' = q2 \<and> i' = i2"
      using assms i unfolding acceptStep_def Let_def Some A e f option.case prod.case
      by (auto split: if_splits)
    then show ?thesis
      using acceptFailed_cases [OF Some f] touched_refl [of q] Some i by auto
  qed
qed

lemma acceptStep_decreases:
  assumes "acceptStep ctx l q i changed = Some (l', q', i', changed')"
  shows "length (byFee q') < length (byFee q) \<or>
    length (byFee q') \<le> length (byFee q) \<and> i' = i + 1 \<and> i < length (byFee q)"
proof -
  obtain q1 where i: "i < length (byFee q)" and q1: "byFee q1 = byFee q" and cases: "q' = erase (byFee q ! i) q1 \<or> i' = i + 1 \<and>
    (q' = q1 \<or> (\<exists>aq. q' = dropLastForAccount aq q1))"
    using acceptStep_effect [OF assms] by (auto simp: touched_def)
  have "length (remove1 (byFee q ! i) (byFee q)) < length (byFee q)"
    using i nth_mem [OF i] by (simp add: length_remove1)
  then show ?thesis
    using i cases dropLastForAccount_cases [of _ q1] length_erase_le [of _ q1] q1 by (metis erase_simps(1) order_refl)
qed

function acceptLoop :: "'l AcceptContext \<Rightarrow> 'l \<Rightarrow> TxQ \<Rightarrow> nat \<Rightarrow> bool \<Rightarrow> 'l \<times> TxQ \<times> bool" where
  "acceptLoop ctx l q i changed =
     (case acceptStep ctx l q i changed of
        None \<Rightarrow> (l, q, changed)
      | Some (l', q', i', changed') \<Rightarrow> acceptLoop ctx l' q' i' changed')"
  by pat_completeness auto
termination
  by (relation "measures [\<lambda>(ctx, l, q, i, changed). length (byFee q), \<lambda>(ctx, l, q, i, changed). length (byFee q) - i]")
    (auto dest!: acceptStep_decreases)

declare acceptLoop.simps [simp del]

definition Accept :: "'l AcceptContext \<Rightarrow> 'l \<Rightarrow> TxQ \<Rightarrow> bool \<times> 'l \<times> TxQ" where
  "Accept ctx l q =
     (let ph = AcParentHash ctx l;
          (l', q', ledgerChanged) = acceptLoop ctx l q 0 False
      in (ledgerChanged, l', if ph \<noteq> parentHash q' then rebuildByFee (q'\<lparr>parentHash := ph\<rparr>) else q'))"

section \<open>Closing a ledger\<close>

record ClosedLedgerContext =
  ClLedgerSequence :: u32
  ClTransactionFeeLevels :: "FeeLevel list"

definition expired :: "u32 \<Rightarrow> Candidate \<Rightarrow> bool" where
  "expired ledgerSeq c = (LastValid c \<noteq> 0 \<and> LastValid c \<le> ledgerSeq)"

definition removeExpired :: "u32 \<Rightarrow> TxQ \<Rightarrow> TxQ" where
  "removeExpired ledgerSeq q =
     (let toRemove = filter (\<lambda>c. expired ledgerSeq (cands q ! c)) (byFee q);
          q1 = fold (\<lambda>c. updAq (Account (cands q ! c)) (\<lambda>aq. aq\<lparr>DropPenalty := True\<rparr>)) toRemove q;
          q2 = fold erase toRemove q1
      in q2\<lparr>byAccount := filter (\<lambda>(_, aq). \<not> AqEmpty aq) (byAccount q2)\<rparr>)"

definition ProcessClosedLedger :: "ClosedLedgerContext \<Rightarrow> bool \<Rightarrow> TxQ \<Rightarrow> TxQ \<times> u32" where
  "ProcessClosedLedger ctx timeLeap q =
     (let (fm, txCount) = Update (feeMetrics q) (ClTransactionFeeLevels ctx) timeLeap (config q);
          newMaxSize = TxnsExpected (GetSnapshot fm) * LedgersInQueue (config q);
          q1 = q\<lparr>feeMetrics := fm\<rparr>;
          q2 = (if \<not> timeLeap
                then q1\<lparr>maxSize := Some (if newMaxSize < QueueSizeMin (config q) then QueueSizeMin (config q) else newMaxSize)\<rparr>
                else q1)
      in (removeExpired (ClLedgerSequence ctx) q2, txCount))"

definition Clear :: "TxQ \<Rightarrow> TxQ" where
  "Clear q = q\<lparr>byFee := [], byAccount := []\<rparr>"

definition SetMaxSize :: "u32 \<Rightarrow> TxQ \<Rightarrow> TxQ" where
  "SetMaxSize m q = q\<lparr>maxSize := Some m\<rparr>"

definition ResetMaxSize :: "TxQ \<Rightarrow> TxQ" where
  "ResetMaxSize q = q\<lparr>maxSize := None\<rparr>"

definition GetConfig :: "TxQ \<Rightarrow> Config" where
  "GetConfig q = config q"

definition NextQueuableSeq :: "TxQ \<Rightarrow> AccountID \<Rightarrow> u32 \<Rightarrow> u32" where
  "NextQueuableSeq q account acctSeq =
     (case map_of (byAccount q) account of
        None \<Rightarrow> acctSeq
      | Some aq \<Rightarrow> if AqEmpty aq then acctSeq else getNextQueuableSeq (cands q) (Some aq) acctSeq)"

record FeeAndSeq =
  RequiredFee :: u64
  AccountSeq :: u32
  AvailableSeq :: u32

definition GetTxRequiredFeeAndSeq :: "TxQ \<Rightarrow> AccountID \<Rightarrow> u32 \<Rightarrow> u64 \<Rightarrow> u32 \<Rightarrow> FeeAndSeq" where
  "GetTxRequiredFeeAndSeq q account acctSeq baseFee txInLedger =
     \<lparr>RequiredFee = ToDrops (ScaleFeeLevel (GetSnapshot (feeMetrics q)) txInLedger) baseFee,
      AccountSeq = acctSeq,
      AvailableSeq = (case map_of (byAccount q) account of
                        None \<Rightarrow> acctSeq | Some aq \<Rightarrow> getNextQueuableSeq (cands q) (Some aq) acctSeq)\<rparr>"

section \<open>Accept and the invariants\<close>

lemma touched_queued:
  assumes "touched q q1"
  shows "queued q1 = queued q"
proof (intro ext)
  fix a sp
  have "map_option Transactions (map_of (byAccount q1) a) = map_option Transactions (map_of (byAccount q) a)"
    using assms by (simp add: touched_def)
  then show "queued q1 a sp = queued q a sp"
    by (auto simp: queued_def split: option.splits)
qed

lemma touched_accounts_wf:
  assumes "touched q q1" "accounts_wf (byAccount q)"
  shows "accounts_wf (byAccount q1)"
proof -
  have d: "distinct (map fst (byAccount q1))"
    using assms by (simp add: touched_def accounts_wf_def)
  have "distinct (map fst (Transactions aq)) \<and> Transactions aq \<noteq> []" if e: "(a, aq) \<in> set (byAccount q1)" for a aq
  proof -
    have "map_of (byAccount q1) a = Some aq"
      using e d by simp
    moreover have "map_option Transactions (map_of (byAccount q1) a) = map_option Transactions (map_of (byAccount q) a)"
      using assms(1) by (simp add: touched_def)
    ultimately have "map_option Transactions (map_of (byAccount q) a) = Some (Transactions aq)"
      by simp
    then obtain b where "map_of (byAccount q) a = Some b" "Transactions b = Transactions aq"
      by auto
    then show ?thesis
      using accounts_wf_lookup [OF assms(2)] by metis
  qed
  then show ?thesis
    using d by (auto simp: accounts_wf_def)
qed

lemma touched_wf:
  assumes "txq_wf q" "touched q q1"
  shows "txq_wf q1"
proof -
  have ext: "store_ext (cands q) (cands q1)"
    using assms(2) by (simp add: touched_def)
  have acc: "accounts_wf (byAccount q1)"
    using touched_accounts_wf [OF assms(2)] assms(1) by (simp add: txq_wf_def)
  have wf: "txq_wf (q\<lparr>cands := cands q1\<rparr>)"
    by (rule store_ext_wf [OF assms(1) ext])
  have "fee_sorted q1"
    using wf fee_sorted_cong [of q1 "q\<lparr>cands := cands q1\<rparr>"] assms(2) by (simp add: txq_wf_def touched_def)
  then show ?thesis
    using wf acc assms(2) touched_queued [OF assms(2)] unfolding txq_wf_iff by (auto simp: touched_def)
qed

lemma touched_inv:
  assumes "txq_inv q" "touched q q1"
  shows "txq_inv q1"
proof -
  have ext: "store_ext (cands q) (cands q1)"
    using assms(2) by (simp add: touched_def)
  have "indexed q1 c" if "c \<in> set (byFee q)" for c
    using that assms(1) touched_queued [OF assms(2)]
    by (auto simp: txq_inv_def txq_wf_def indexed_def store_ext_nth [OF ext])
  then show ?thesis
    using assms touched_wf by (auto simp: txq_inv_def touched_def)
qed

lemma touched_byFee: "touched q q1 \<Longrightarrow> byFee q1 = byFee q"
  by (simp add: touched_def)

text \<open>An iteration changes mutable fields and erases at most one queued candidate.\<close>

lemma acceptStep_erases:
  assumes wf: "txq_wf q" and run: "acceptStep ctx l q i changed = Some (l', q', i', changed')"
  shows "\<exists>q1. touched q q1 \<and> (q' = q1 \<or> (\<exists>c \<in> set (byFee q). q' = erase c q1))"
proof -
  let ?c = "byFee q ! i"
  from acceptStep_effect [OF run] obtain q1 where i: "i < length (byFee q)" and t: "touched q q1"
    and c: "q' = erase ?c q1 \<or> q' = q1 \<or>
      (\<exists>aq. map_of (byAccount q) (Account (cands q ! ?c)) = Some aq \<and> q' = dropLastForAccount aq q1)"
    by auto
  show ?thesis
    using c
  proof (elim disjE exE conjE)
    fix aq
    assume aq: "map_of (byAccount q) (Account (cands q ! ?c)) = Some aq" and q': "q' = dropLastForAccount aq q1"
    have "c \<in> set (byFee q)" if "(sp, c) \<in> set (Transactions aq)" for sp c
    proof -
      have "queued q (Account (cands q ! ?c)) sp = Some c"
        using that aq accounts_wf_lookup wf by (simp add: queued_def txq_wf_def) (metis map_of_eq_Some_iff)
      then show ?thesis
        using wf by (simp add: txq_wf_iff)
    qed
    then show ?thesis
      using dropLastForAccount_cases [of aq q1] q' t by auto
  qed (use t i in \<open>auto intro!: exI [of _ q1]\<close>)
qed

end
