(* ===== verification/TxqApplyProps.thy ===== *)
theory TxqApplyProps
  imports TxqApplyInv
begin

text \<open>
  The properties of \<open>Apply\<close>, with a small open ledger to run it on: every transaction that may
  enter directly is told to wait, so that it goes to the queue.
\<close>

section \<open>A concrete run\<close>

definition ex_ctx :: "unit ApplyContext" where
  "ex_ctx = \<lparr>GetAccountSequence = (\<lambda>_ _. 1), AccountExists = (\<lambda>_ _. True), TicketExists = (\<lambda>_ _ _. True),
     GetAccountBalance = (\<lambda>_ _. 1000000), GetAccountReserve = (\<lambda>_ _. 0), GetBaseFee = (\<lambda>_ _. 10),
     GetTxInLedger = (\<lambda>_. 0), GetLedgerSequence = (\<lambda>_. 5),
     ApplyTransaction = (\<lambda>l _. ((TerPRE_SEQ, False), l)), PreclaimTransaction = (\<lambda>_ _ _ _ _. 0)\<rparr>"

definition ex_tx :: "string \<Rightarrow> Transaction" where
  "ex_tx fee = \<lparr>GetCommon = Some \<lparr>Fee = fee, Sequence = Some 1, AccountTxnID = '''', Flags = None,
     LastLedgerSequence = None, TicketSequence = None\<rparr>, body = OtherTx 0\<rparr>"

definition ex_account :: "u8 \<Rightarrow> AccountID" where "ex_account n = replicate 20 n"
definition ex_id :: "u8 \<Rightarrow> Hash256" where "ex_id n = replicate 32 n"

text \<open>A queue for one transaction.\<close>

definition ex_q0 :: TxQ where "ex_q0 = (New DefaultConfig)\<lparr>maxSize := Some 1\<rparr>"

definition ex_cand :: "string \<Rightarrow> u64 \<Rightarrow> u64 \<Rightarrow> u8 \<Rightarrow> u8 \<Rightarrow> Candidate" where
  "ex_cand fee drops level acct i = NewCandidate (ex_tx fee) (ex_id i) (ex_account acct) level (NewSeqProxySequence 1) 0 0
     \<lparr>ConsFee = drops, PotentialSpend = 0, IsBlocker = False, FollowingSeq = NewSeqProxySequence 2\<rparr>"

definition ex_q1 :: TxQ where
  "ex_q1 = ex_q0\<lparr>cands := [ex_cand ''10'' 10 256 1 1], byFee := [0],
     byAccount := [(ex_account 1, \<lparr>AqAccount = ex_account 1, Transactions = [(NewSeqProxySequence 1, 0)],
       RetryPenalty = False, DropPenalty = False\<rparr>)]\<rparr>"

definition ex_q2 :: TxQ where
  "ex_q2 = ex_q0\<lparr>cands := [ex_cand ''10'' 10 256 1 1, ex_cand ''20'' 20 512 1 2], byFee := [1], byAccount := []\<rparr>"

definition ex_queued :: ApplyResult where
  "ex_queued = \<lparr>Res = TerQUEUED, Applied = False, Queued = True\<rparr>"

lemma ex_mulDiv [simp]:
  "mulDiv 10 256 10 = 256" "mulDiv 20 256 10 = 512" "mulDiv 40 256 10 = 1024" "mulDiv 256 125 100 = 320"
  by (simp_all add: word_unat_eq_iff mulDiv_small)

lemma ex_bsearch: "bsearch p 0 0 = 0" "bsearch p 0 (Suc 0) = (if p 0 then 0 else 1)"
  by (simp_all add: bsearch.simps)

lemmas ex_defs = ex_ctx_def ex_tx_def ex_q0_def ex_q1_def ex_q2_def ex_cand_def ex_queued_def ex_account_def ex_id_def
  New_def DefaultConfig_def NewFeeMetrics_def GetSnapshot_def ScaleFeeLevel_def ToFeeLevel_def BaseLevel_def
  NewCandidate_def NewAccountQueue_def RetriesAllowed_def result_defs

lemmas apply_defs = Apply_def holdTx_def holdCheck_def blockerCheck_def blockedCheck_def sequenceCheck_def
  clearPhase_def queueTx_def enqueue_def makeRoom_def isFull_def insertByFee_def findInsertPosition_def ex_bsearch
  acctTxCountOf_def firstRelevantOf_def replacingOf_def requiresMultiTxn_def frontCheck_def canBeHeld_def
  computeConsequences_def canBeQueued_def seqProxyOf_def lastValidOf_def rejected_def RelevantCount_def
  FirstRelevant_def NewSeqProxySequence_def Less_def AqAdd_def AqRemove_def AqEmpty_def AqCount_def erase_def
  removeByFee_def lowestOther_def dropCandidate_def candidateLess_def candLess_def

lemma ex_ParseUint [simp]: "ParseUint ''10'' = 10" "ParseUint ''20'' = 20" "ParseUint ''40'' = 40"
  by (simp_all add: ParseUint_def)

lemma ex_run1: "Apply ex_ctx () ex_q0 (ex_tx ''10'') (ex_id 1) (ex_account 1) = Some (ex_queued, (), ex_q1)"
  by (simp add: ex_defs apply_defs Let_def)

lemma ex_run2: "Apply ex_ctx () ex_q1 (ex_tx ''20'') (ex_id 2) (ex_account 1) = Some (ex_queued, (), ex_q2)"
  by (simp add: ex_defs apply_defs Let_def)

lemma ex_run3: "Apply ex_ctx () ex_q2 (ex_tx ''40'') (ex_id 3) (ex_account 2) = None"
  by (simp add: ex_defs apply_defs Let_def)

lemma ex_q0_inv: "txq_inv ex_q0"
  by (simp add: txq_inv_def txq_wf_def ex_q0_def New_def fee_sorted_def accounts_wf_def)

lemma ex_q1_inv: "txq_inv ex_q1"
  by (simp add: txq_inv_def txq_wf_def ex_defs fee_sorted_def accounts_wf_def entry_wf_def indexed_def queued_def)

lemma ex_sole: "sole ex_q1 (ex_account 1) (NewSeqProxySequence 1)"
  by (simp add: sole_def ex_q1_def)

lemma ex_not_sole: "\<not> sole ex_q0 a sp"
  by (simp add: sole_def ex_q0_def New_def)

section \<open>Properties\<close>

text \<open>The transaction replaces the only transaction its account has in the queue.\<close>

definition replaces_sole :: "TxQ \<Rightarrow> Transaction \<Rightarrow> AccountID \<Rightarrow> bool" where
  "replaces_sole q txn account = (case GetCommon txn of None \<Rightarrow> False
     | Some common \<Rightarrow> (case seqProxyOf common of None \<Rightarrow> False | Some sp \<Rightarrow> sole q account sp))"

text \<open>C6: submitting a transaction keeps the two indexes of the queue in agreement (the same
  candidates in the fee-ordered list, sorted, and in the account queues, each under its account and
  sequence), unless it replaces the only queued transaction of its account.\<close>

theorem Apply_keeps_indexes:
  assumes inv: "txq_inv q" and id: "length txID = 32"
    and run: "Apply ctx l q txn txID account = Some (r, l', q')"
    and nosole: "\<not> replaces_sole q txn account"
  shows "txq_inv q'"
proof -
  have wf: "txq_wf q"
    using inv by (simp add: txq_inv_def)
  from Apply_cases [OF wf run] show ?thesis
  proof (elim disjE exE conjE)
    fix cs
    assume "shrinks q account cs q'"
    then show ?thesis
      by (rule shrinks_inv [OF inv])
  next
    fix common sp q1
    let ?cand = "newCand txn common txID account sp (ToFeeLevel (ParseUint (Fee common)) (GetBaseFee ctx l txn))"
    assume c: "GetCommon txn = Some common" "seqProxyOf common = Some sp" and cl: "cleared q account sp q1"
      and qt: "queueTx q1 account (map_of (byAccount q) account \<noteq> None) (queued q account sp) ?cand = Some (r, q')"
    have "\<not> sole q1 account sp"
      using cleared_sole [OF cl] nosole c by (auto simp: replaces_sole_def)
    then show ?thesis
      by (intro queueTx_inv [OF cleared_inv [OF inv cl] _ _ _ _ _ qt])
        (use cl id in \<open>auto simp: cleared_def\<close>)
  qed
qed

theorem Apply_keeps_indexes_witness:
  "txq_inv ex_q0 \<and> \<not> replaces_sole ex_q0 (ex_tx ''10'') (ex_account 1) \<and>
   Apply ex_ctx () ex_q0 (ex_tx ''10'') (ex_id 1) (ex_account 1) = Some (ex_queued, (), ex_q1) \<and> txq_inv ex_q1"
proof -
  have "\<not> replaces_sole ex_q0 (ex_tx ''10'') (ex_account 1)"
    by (simp add: replaces_sole_def ex_not_sole split: option.split)
  then show ?thesis
    using Apply_keeps_indexes [OF ex_q0_inv _ ex_run1] ex_q0_inv ex_run1 by (simp add: ex_id_def)
qed

text \<open>C7: replacing the only queued transaction of an account loses it for the account: the new
  candidate is in the fee-ordered list, but the account has no queue any more, so neither the account's
  queries nor \<open>Accept\<close> see it.\<close>

theorem Apply_replaces_sole_lost:
  assumes inv: "txq_inv q" and run: "Apply ctx l q txn txID account = Some (r, l', q')"
    and sole: "replaces_sole q txn account" and queued: "Queued r"
  shows "map_of (byAccount q') account = None \<and> GetAccountTxs q' account = [] \<and>
    (\<exists>c \<in> set (byFee q'). Account (cands q' ! c) = account \<and> TxID (cands q' ! c) = txID)"
proof -
  have wf: "txq_wf q"
    using inv by (simp add: txq_inv_def)
  obtain common sp q1 l1 where c: "GetCommon txn = Some common" "seqProxyOf common = Some sp" and cl: "cleared q account sp q1"
    and qt: "queueTx q1 account (map_of (byAccount q) account \<noteq> None) (queued q account sp)
      (newCand txn common txID account sp (ToFeeLevel (ParseUint (Fee common)) (GetBaseFee ctx l txn))) = Some (r, q')"
    using Apply_cases [OF wf run] queued by blast
  have sole': "sole q account sp"
    using sole c by (simp add: replaces_sole_def)
  obtain ref where ref: "queued q account sp = Some ref"
    using sole_queued [OF sole'] .
  then have ex: "map_of (byAccount q) account \<noteq> None"
    using queued_Some_account [of q account sp] by simp
  have q1: "q1 = q"
    by (rule cleared_of_sole [OF wf cl sole'])
  have q': "q' = enqueue q account True (Some ref)
      (newCand txn common txID account sp (ToFeeLevel (ParseUint (Fee common)) (GetBaseFee ctx l txn)))"
    using queueTx_cases [OF qt] queued ref ex by (auto simp: q1)
  show ?thesis
    using enqueue_sole [OF wf, of account "newCand txn common txID account sp (ToFeeLevel (ParseUint (Fee common)) (GetBaseFee ctx l txn))" ref]
      sole' ref unfolding q' by (auto simp: GetAccountTxs_def intro!: bexI [of _ "length (cands q)"])
qed

theorem Apply_replaces_sole_lost_witness:
  "txq_inv ex_q1 \<and> replaces_sole ex_q1 (ex_tx ''20'') (ex_account 1) \<and>
   Apply ex_ctx () ex_q1 (ex_tx ''20'') (ex_id 2) (ex_account 1) = Some (ex_queued, (), ex_q2) \<and>
   map_of (byAccount ex_q2) (ex_account 1) = None \<and>
   (\<exists>c \<in> set (byFee ex_q2). Account (cands ex_q2 ! c) = ex_account 1 \<and> TxID (cands ex_q2 ! c) = ex_id 2)"
proof -
  have "replaces_sole ex_q1 (ex_tx ''20'') (ex_account 1)"
    using ex_sole by (simp add: replaces_sole_def ex_tx_def seqProxyOf_def)
  then show ?thesis
    using Apply_replaces_sole_lost [OF ex_q1_inv ex_run2] ex_q1_inv ex_run2 by (simp add: ex_queued_def)
qed

text \<open>C16: as long as the two indexes agree, submitting a transaction never dereferences a nil
  pointer: \<open>Apply\<close> returns a result.\<close>

theorem Apply_returns:
  assumes "txq_inv q"
  shows "\<exists>r l' q'. Apply ctx l q txn txID account = Some (r, l', q')"
proof -
  have "Apply ctx l q txn txID account \<noteq> None"
    using holdTx_no_crash [OF assms]
    by (auto simp: Apply_def Let_def split: option.split prod.split)
  then show ?thesis
    by (metis not_None_eq surj_pair)
qed

theorem Apply_returns_witness:
  "txq_inv ex_q1 \<and> (\<exists>r l' q'. Apply ex_ctx () ex_q1 (ex_tx ''40'') (ex_id 3) (ex_account 2) = Some (r, l', q'))"
  using Apply_returns [OF ex_q1_inv, of ex_ctx "()" "ex_tx ''40''" "ex_id 3" "ex_account 2"] ex_q1_inv by blast


text \<open>C18: submitting a transaction never takes the queue above its maximum size.\<close>

theorem Apply_size_limit:
  assumes wf: "txq_wf q" and m: "maxSize q = Some m" "Size q \<le> unat m"
    and run: "Apply ctx l q txn txID account = Some (r, l', q')"
  shows "Size q' \<le> unat m"
  using Apply_cases [OF wf run]
proof (elim disjE exE conjE)
  fix cs
  assume "shrinks q account cs q'"
  then have "size (mset (byFee q')) \<le> size (mset (byFee q))"
    by (intro size_mset_mono shrinks_mset)
  then show ?thesis
    using m by (simp add: Size_def)
next
  fix common sp q1
  let ?cand = "newCand txn common txID account sp (ToFeeLevel (ParseUint (Fee common)) (GetBaseFee ctx l txn))"
  assume cl: "cleared q account sp q1"
    and qt: "queueTx q1 account (map_of (byAccount q) account \<noteq> None) (queued q account sp) ?cand = Some (r, q')"
  obtain cs where sh: "shrinks q account cs q1" and same: "queued q1 account sp = queued q account sp"
    using cl by (auto simp: cleared_def)
  have "size (mset (byFee q1)) \<le> size (mset (byFee q))"
    using sh by (intro size_mset_mono shrinks_mset)
  then have "length (byFee q1) \<le> unat m"
    using m by (simp add: Size_def)
  then have "length (byFee q') \<le> unat m"
    using queueTx_length [OF shrinks_wf [OF wf sh] same [symmetric] _ _ qt] m(1) by (simp add: shrinks_simps(5) [OF sh])
  then show ?thesis
    by (simp add: Size_def)
qed

theorem Apply_size_limit_witness:
  "txq_wf ex_q0 \<and> maxSize ex_q0 = Some 1 \<and> Size ex_q0 \<le> unat (1 :: u32) \<and>
   Apply ex_ctx () ex_q0 (ex_tx ''10'') (ex_id 1) (ex_account 1) = Some (ex_queued, (), ex_q1) \<and> Size ex_q1 \<le> unat (1 :: u32)"
proof -
  have "txq_wf ex_q0" "maxSize ex_q0 = Some 1" "Size ex_q0 \<le> unat (1 :: u32)"
    using ex_q0_inv by (simp_all add: txq_inv_def ex_q0_def Size_def New_def)
  then show ?thesis
    using Apply_size_limit [OF _ _ _ ex_run1] ex_run1 by blast
qed

text \<open>a submission that is not queued adds nothing to the queue and does not touch the queues of
  other accounts.\<close>

theorem Apply_not_queued:
  assumes wf: "txq_wf q" and run: "Apply ctx l q txn txID account = Some (r, l', q')" and "\<not> Queued r"
  shows "mset (byFee q') \<subseteq># mset (byFee q) \<and> (\<forall>a. a \<noteq> account \<longrightarrow> map_of (byAccount q') a = map_of (byAccount q) a)"
proof -
  obtain cs where sh: "shrinks q account cs q'"
  proof (cases "\<exists>cs. shrinks q account cs q'")
    case False
    then obtain common sp q1 where cl: "cleared q account sp q1"
      and qt: "queueTx q1 account (map_of (byAccount q) account \<noteq> None) (queued q account sp)
        (newCand txn common txID account sp (ToFeeLevel (ParseUint (Fee common)) (GetBaseFee ctx l txn))) = Some (r, q')"
      using Apply_cases [OF wf run] by blast
    have "q' = q1"
      using queueTx_cases [OF qt] assms(3) by auto
    then show thesis
      using that cl by (auto simp: cleared_def)
  qed (use that in blast)
  show ?thesis
    using shrinks_mset [OF sh] shrinks_other [OF wf sh] by simp
qed

theorem Apply_not_queued_witness:
  "txq_wf ex_q1 \<and> (\<exists>r q'. Apply ex_ctx () ex_q1 (ex_tx ''10'') (ex_id 3) (ex_account 2) = Some (r, (), q') \<and> \<not> Queued r \<and>
     mset (byFee q') \<subseteq># mset (byFee ex_q1) \<and> (\<forall>a. a \<noteq> ex_account 2 \<longrightarrow> map_of (byAccount q') a = map_of (byAccount ex_q1) a))"
proof -
  have run: "Apply ex_ctx () ex_q1 (ex_tx ''10'') (ex_id 3) (ex_account 2) = Some (rejected TelCAN_NOT_QUEUE_FULL, (), ex_q1)"
    by (simp add: ex_defs apply_defs Let_def)
  have wf: "txq_wf ex_q1"
    using ex_q1_inv by (simp add: txq_inv_def)
  show ?thesis
    using Apply_not_queued [OF wf run] wf run by (auto simp: rejected_def)
qed



text \<open>C20: blockers are alone.  A blocker is queued only when no other transaction of the account at
  or after its sequence is queued, and nothing is queued behind a single queued blocker.\<close>

theorem Apply_blockers_alone:
  assumes wf: "txq_wf q" and run: "Apply ctx l q txn txID account = Some (r, l', q')" and "Queued r"
    and "GetCommon txn = Some common" "seqProxyOf common = Some sp"
    and other: "queued q account sp' = Some c" "sp' \<noteq> sp" "\<not> Less sp' (NewSeqProxySequence (GetAccountSequence ctx l account))"
  shows "\<not> IsBlocker (computeConsequences common (body txn) sp) \<and>
    (RelevantCount (the (map_of (byAccount q) account)) (NewSeqProxySequence (GetAccountSequence ctx l account)) = 1 \<longrightarrow>
     \<not> IsBlocker (Consequences (cands q ! c)))"
proof -
  let ?P = "NewSeqProxySequence (GetAccountSequence ctx l account)"
  obtain l1 where pc: "passed_checks ctx l1 q txn common account sp (ToFeeLevel (ParseUint (Fee common)) (GetBaseFee ctx l txn))
         (GetAccountSequence ctx l account) (GetLedgerSequence ctx l)"
    using Apply_cases [OF wf run] assms(3-5) by auto
  obtain aq where aq: "map_of (byAccount q) account = Some aq" "map_of (Transactions aq) sp' = Some c"
    using other(1) by (auto simp: queued_def split: option.splits)
  have pos: "RelevantCount aq ?P \<ge> 1"
    using RelevantCount_pos [OF aq(2) other(3)] .
  have sp': "CandSeqProxy (cands q ! c) = sp'"
    using other(1) wf by (auto simp: txq_wf_iff)
  have first: "FirstRelevant (cands q) aq ?P = Some c" if "RelevantCount aq ?P = 1"
    using FirstRelevant_single [OF txq_wf_aq_wf [OF wf aq(1)] aq(2) other(3) that] .
  have "blockerCheck (cands q) (Some aq) ?P sp (computeConsequences common (body txn) sp) = None"
    "blockedCheck (config q) (cands q) (Some aq) ?P sp (ToFeeLevel (ParseUint (Fee common)) (GetBaseFee ctx l txn)) = None"
    using pc aq(1) by (simp_all add: passed_checks_def Let_def)
  then show ?thesis
    using pos first sp' other(2) aq(1)
    by (cases "RelevantCount aq ?P = 1")
      (auto simp: blockerCheck_def blockedCheck_def acctTxCountOf_def firstRelevantOf_def split: if_splits)
qed

text \<open>A second transaction of the first account, behind the one that is queued.\<close>

definition ex_tx2 :: Transaction where
  "ex_tx2 = \<lparr>GetCommon = Some \<lparr>Fee = ''10'', Sequence = Some 2, AccountTxnID = '''', Flags = None,
     LastLedgerSequence = None, TicketSequence = None\<rparr>, body = OtherTx 0\<rparr>"

lemma ex_run_second: "\<exists>q'. Apply ex_ctx () (ex_q1\<lparr>maxSize := None\<rparr>) ex_tx2 (ex_id 3) (ex_account 1) = Some (ex_queued, (), q')"
  by (simp add: ex_defs apply_defs Let_def ex_tx2_def multiSeqCheck_def GetPrevTx_def balanceCheck_def inFlight_def)

theorem Apply_blockers_alone_witness:
  "txq_wf (ex_q1\<lparr>maxSize := None\<rparr>) \<and> queued (ex_q1\<lparr>maxSize := None\<rparr>) (ex_account 1) (NewSeqProxySequence 1) = Some 0 \<and>
   (\<exists>q'. Apply ex_ctx () (ex_q1\<lparr>maxSize := None\<rparr>) ex_tx2 (ex_id 3) (ex_account 1) = Some (ex_queued, (), q')) \<and>
   \<not> IsBlocker (computeConsequences (the (GetCommon ex_tx2)) (body ex_tx2) (NewSeqProxySequence 2))"
proof -
  let ?q = "ex_q1\<lparr>maxSize := None\<rparr>"
  obtain q' where run: "Apply ex_ctx () ?q ex_tx2 (ex_id 3) (ex_account 1) = Some (ex_queued, (), q')"
    using ex_run_second by blast
  have wf: "txq_wf ?q"
    by (simp add: txq_wf_def ex_defs fee_sorted_def accounts_wf_def entry_wf_def)
  have q: "queued ?q (ex_account 1) (NewSeqProxySequence 1) = Some 0"
    by (simp add: queued_def ex_q1_def)
  have "\<not> IsBlocker (computeConsequences (the (GetCommon ex_tx2)) (body ex_tx2) (NewSeqProxySequence 2))"
    using Apply_blockers_alone [OF wf run, of "the (GetCommon ex_tx2)" "NewSeqProxySequence 2" "NewSeqProxySequence 1" 0] q
    by (simp add: ex_queued_def ex_tx2_def seqProxyOf_def NewSeqProxySequence_def Less_def ex_ctx_def)
  then show ?thesis
    using wf q run by blast
qed

end
