(* ===== verification/TxqAcceptProps.thy ===== *)
theory TxqAcceptProps
  imports TxqAccept TxqApplyProps
begin

text \<open>
  What \<open>Accept\<close> and \<open>ProcessClosedLedger\<close> guarantee, and the invariant of every queue that the
  exported methods can reach.
\<close>

section \<open>Invariants of the loop\<close>

lemma acceptLoop_invariant:
  assumes "\<forall>l q i ch l' q' i' ch'. P l q \<and> acceptStep ctx l q i ch = Some (l', q', i', ch') \<longrightarrow> P l' q'"
    "P l q" "acceptLoop ctx l q i ch = (lf, qf, chf)"
  shows "P lf qf"
  using assms
proof (induction ctx l q i ch rule: acceptLoop.induct)
  case (1 ctx l q i ch)
  show ?case
  proof (cases "acceptStep ctx l q i ch")
    case None
    then show ?thesis
      using "1.prems" by (simp add: acceptLoop.simps)
  next
    case (Some r)
    obtain l' q' i' ch' where r: "r = (l', q', i', ch')"
      by (metis surj_pair)
    note step = Some [unfolded r]
    have "acceptLoop ctx l' q' i' ch' = (lf, qf, chf)"
      using "1.prems"(3) step by (simp add: acceptLoop.simps [of ctx l])
    then show ?thesis
      using "1.IH" [OF step refl refl refl "1.prems"(1)] "1.prems"(1,2) step by blast
  qed
qed

lemma acceptStep_wf:
  assumes "txq_wf q" "acceptStep ctx l q i ch = Some (l', q', i', ch')"
  shows "txq_wf q'"
  using acceptStep_erases [OF assms] touched_wf [OF assms(1)] erase_wf by blast

lemma acceptStep_inv:
  assumes inv: "txq_inv q" and "acceptStep ctx l q i ch = Some (l', q', i', ch')"
  shows "txq_inv q'"
proof -
  have "txq_wf q"
    using inv by (simp add: txq_inv_def)
  from acceptStep_erases [OF this assms(2)]
  obtain q1 where t: "touched q q1" and c: "q' = q1 \<or> (\<exists>c \<in> set (byFee q). q' = erase c q1)"
    by blast
  have "txq_inv q1" "byFee q1 = byFee q"
    using touched_inv [OF inv t] touched_byFee [OF t] by simp_all
  then show ?thesis
    using c erase_inv by metis
qed

lemma acceptStep_subset:
  assumes "txq_wf q" "acceptStep ctx l q i ch = Some (l', q', i', ch')"
  shows "set (byFee q') \<subseteq> set (byFee q) \<and> parentHash q' = parentHash q"
proof -
  obtain q1 where t: "touched q q1" and c: "q' = q1 \<or> (\<exists>c \<in> set (byFee q). q' = erase c q1)"
    using acceptStep_erases [OF assms] by blast
  have "byFee q1 = byFee q" "parentHash q1 = parentHash q"
    using t by (simp_all add: touched_def)
  then show ?thesis
    using c by (auto dest: set_remove1_subset [THEN subsetD])
qed

lemma acceptLoop_effect:
  assumes "txq_wf q" "acceptLoop ctx l q i ch = (lf, qf, chf)"
  shows "txq_wf qf \<and> set (byFee qf) \<subseteq> set (byFee q) \<and> parentHash qf = parentHash q"
proof (rule acceptLoop_invariant [OF _ _ assms(2),
      where P = "\<lambda>_ q'. txq_wf q' \<and> set (byFee q') \<subseteq> set (byFee q) \<and> parentHash q' = parentHash q"], intro allI impI, elim conjE)
  fix l1 q1 i1 ch1 l2 q2 i2 ch2
  assume "txq_wf q1" "set (byFee q1) \<subseteq> set (byFee q)" "parentHash q1 = parentHash q"
    "acceptStep ctx l1 q1 i1 ch1 = Some (l2, q2, i2, ch2)"
  then show "txq_wf q2 \<and> set (byFee q2) \<subseteq> set (byFee q) \<and> parentHash q2 = parentHash q"
    using acceptStep_wf [of q1 ctx l1 i1 ch1 l2 q2 i2 ch2] acceptStep_subset [of q1 ctx l1 i1 ch1 l2 q2 i2 ch2] by auto
qed (use assms(1) in simp)

lemma acceptLoop_inv: "txq_inv q \<Longrightarrow> acceptLoop ctx l q i ch = (lf, qf, chf) \<Longrightarrow> txq_inv qf"
  by (rule acceptLoop_invariant [where P = "\<lambda>_. txq_inv"]) (blast intro: acceptStep_inv)+

section \<open>Properties of Accept\<close>

definition ex_actx :: "u32 \<Rightarrow> bool \<Rightarrow> Hash256 \<Rightarrow> nat AcceptContext" where
  "ex_actx n ok ph = \<lparr>AcTxInLedger = (\<lambda>_. n), AcAccountSequence = (\<lambda>_ _. 1),
     AcApplyTransaction = (\<lambda>l _. ((0, ok), l + 1)), AcParentHash = (\<lambda>_. ph)\<rparr>"

text \<open>C21: filling a new open ledger keeps the two indexes in agreement and only removes candidates
  from the queue.\<close>

theorem Accept_keeps_indexes:
  assumes inv: "txq_inv q" and ph: "length (AcParentHash ctx l) = 32" and run: "Accept ctx l q = (changed, l', q')"
  shows "txq_inv q' \<and> set (byFee q') \<subseteq> set (byFee q)"
proof -
  obtain lf qf chf where loop: "acceptLoop ctx l q 0 False = (lf, qf, chf)"
    by (metis surj_pair)
  have wf: "txq_wf q"
    using inv by (simp add: txq_inv_def)
  note eff = acceptLoop_effect [OF wf loop] acceptLoop_inv [OF inv loop]
  have "txq_inv (rebuildByFee (qf\<lparr>parentHash := AcParentHash ctx l\<rparr>))"
    using eff ph by (intro rebuildByFee_inv) auto
  moreover have "set (byFee (rebuildByFee (qf\<lparr>parentHash := AcParentHash ctx l\<rparr>))) \<subseteq> set (byFee qf)"
    using rebuildByFee_subset eff by blast
  ultimately show ?thesis
    using run loop eff by (auto simp: Accept_def Let_def split: if_splits)
qed

theorem Accept_keeps_indexes_witness:
  "txq_inv ex_q1 \<and> (\<exists>changed l' q'. Accept (ex_actx 0 True (ex_id 7)) 0 ex_q1 = (changed, l', q') \<and> txq_inv q' \<and>
     set (byFee q') \<subseteq> set (byFee ex_q1))"
proof -
  obtain changed l' q' where run: "Accept (ex_actx 0 True (ex_id 7)) 0 ex_q1 = (changed, l', q')"
    by (metis surj_pair)
  then show ?thesis
    using Accept_keeps_indexes [OF ex_q1_inv _ run] ex_q1_inv by (simp add: ex_actx_def ex_id_def)
qed

text \<open>when the parent hash has changed, \<open>Accept\<close> rebuilds the fee-ordered list from the account
  queues: the indexes agree afterwards even if they did not before, because candidates that no account
  queue holds are dropped.\<close>

theorem Accept_new_hash_rebuilds:
  assumes wf: "txq_wf q" and ph: "length (AcParentHash ctx l) = 32" "AcParentHash ctx l \<noteq> parentHash q"
    and run: "Accept ctx l q = (changed, l', q')"
  shows "txq_inv q'"
proof -
  obtain lf qf chf where loop: "acceptLoop ctx l q 0 False = (lf, qf, chf)"
    by (metis surj_pair)
  note eff = acceptLoop_effect [OF wf loop]
  have "txq_inv (rebuildByFee (qf\<lparr>parentHash := AcParentHash ctx l\<rparr>))"
    using eff ph by (intro rebuildByFee_inv) auto
  then show ?thesis
    using run loop eff ph by (auto simp: Accept_def Let_def split: if_splits)
qed

lemma ex_q2_wf: "txq_wf ex_q2"
  using Apply_wf_aux [OF _ _ ex_run2] ex_q1_inv by (simp add: txq_inv_def ex_id_def)

theorem Accept_new_hash_rebuilds_witness:
  "txq_wf ex_q2 \<and> \<not> txq_inv ex_q2 \<and>
   (\<exists>changed l' q'. Accept (ex_actx 0 True (ex_id 7)) 0 ex_q2 = (changed, l', q') \<and> txq_inv q')"
proof -
  obtain changed l' q' where run: "Accept (ex_actx 0 True (ex_id 7)) 0 ex_q2 = (changed, l', q')"
    by (metis surj_pair)
  have "\<not> indexed ex_q2 1"
    by (simp add: indexed_def queued_def ex_q2_def)
  then have "\<not> txq_inv ex_q2"
    by (auto simp: txq_inv_def ex_q2_def)
  moreover have "ex_id 7 \<noteq> parentHash ex_q2"
    by (simp add: ex_id_def ex_q2_def ex_q0_def New_def)
  ultimately show ?thesis
    using Accept_new_hash_rebuilds [OF ex_q2_wf _ _ run] ex_q2_wf run by (auto simp: ex_actx_def ex_id_def)
qed

text \<open>C22: an iteration of \<open>Accept\<close> that touches the open ledger tries a candidate that pays the
  currently required fee level and, if it has a sequence number, whose account has no queued
  transaction with a smaller one.\<close>

theorem acceptStep_discipline:
  assumes wf: "txq_wf q" and run: "acceptStep ctx l q i changed = Some (l', q', i', changed')" and moved: "l' \<noteq> l"
  defines "cand \<equiv> cands q ! (byFee q ! i)"
  shows "CandFeeLevel cand \<ge> ScaleFeeLevel (GetSnapshot (feeMetrics q)) (AcTxInLedger ctx l) \<and>
    (IsTicket (CandSeqProxy cand) \<or>
     (\<forall>n. queued q (Account cand) (NewSeqProxySequence n) \<noteq> None \<longrightarrow> Value (CandSeqProxy cand) \<le> n))"
proof -
  have i: "i < length (byFee q)"
    using run by (simp add: acceptStep_def split: if_splits)
  obtain aq where aq: "map_of (byAccount q) (Account cand) = Some aq"
    and first: "IsTicket (CandSeqProxy cand) \<or> (\<forall>f. GetFirstSeqTx (cands q) aq = Some f \<longrightarrow>
      Value (CandSeqProxy cand) \<le> Value (CandSeqProxy (cands q ! f)))"
    and fee: "CandFeeLevel cand \<ge> ScaleFeeLevel (GetSnapshot (feeMetrics q)) (AcTxInLedger ctx l)"
    using run moved i unfolding acceptStep_def Let_def cand_def [symmetric]
    by (auto split: option.splits if_splits simp: not_less)
  have awf: "aq_wf (cands q) aq"
    by (rule txq_wf_aq_wf [OF wf aq])
  have best: "is_best (\<lambda>k. \<not> IsTicket k) (\<lambda>a b. Value b < Value a) (Transactions aq) (GetFirstSeqTx (cands q) aq)"
    unfolding GetFirstSeqTx_best_of [OF awf] using awf
    by (intro first_seq_scan.best_of_is_best) (auto simp: aq_wf_def)
  have "Value (CandSeqProxy cand) \<le> n"
    if q: "queued q (Account cand) (NewSeqProxySequence n) = Some c" and nt: "\<not> IsTicket (CandSeqProxy cand)" for n c
  proof -
    have mem: "(NewSeqProxySequence n, c) \<in> set (Transactions aq)"
      using q aq by (auto simp: queued_def dest: map_of_SomeD)
    then obtain f where f: "GetFirstSeqTx (cands q) aq = Some f"
      using best by (cases "GetFirstSeqTx (cands q) aq") (auto simp: is_best_def NewSeqProxySequence_def)
    then obtain k where k: "(k, f) \<in> set (Transactions aq)"
      "\<forall>(k', c') \<in> set (Transactions aq). \<not> IsTicket k' \<and> k' \<noteq> k \<longrightarrow> Value k < Value k'"
      using best by (auto simp: is_best_def)
    have "Value k \<le> n"
      using k(2) mem by (cases "NewSeqProxySequence n = k") (auto simp: NewSeqProxySequence_def)
    moreover have "CandSeqProxy (cands q ! f) = k"
      using awf k(1) by (auto simp: aq_wf_def)
    ultimately show ?thesis
      using first f nt by auto
  qed
  then show ?thesis
    using fee by auto
qed

theorem acceptStep_discipline_witness:
  "txq_wf ex_q1 \<and> (\<exists>l' q' i' ch'. acceptStep (ex_actx 0 True (ex_id 7)) 0 ex_q1 0 False = Some (l', q', i', ch') \<and> l' \<noteq> 0) \<and>
   CandFeeLevel (cands ex_q1 ! (byFee ex_q1 ! 0)) \<ge> 256"
proof -
  have wf: "txq_wf ex_q1"
    using ex_q1_inv by (simp add: txq_inv_def)
  have run: "\<exists>q' i'. acceptStep (ex_actx 0 True (ex_id 7)) 0 ex_q1 0 False = Some (1, q', i', True)"
    by (simp add: acceptStep_def ex_actx_def ex_defs Let_def GetFirstSeqTx_def NewSeqProxySequence_def split: prod.split)
  have "ScaleFeeLevel (GetSnapshot (feeMetrics ex_q1)) (AcTxInLedger (ex_actx 0 True (ex_id 7)) 0) = 256"
    by (simp add: ex_defs ex_actx_def)
  then show ?thesis
    using acceptStep_discipline [OF wf] run wf by (metis One_nat_def nat.distinct(1))
qed

text \<open>The state after a number of iterations, \<open>None\<close> once the loop has ended.\<close>

fun acceptIter :: "'l AcceptContext \<Rightarrow> nat \<Rightarrow> 'l \<times> TxQ \<times> nat \<times> bool \<Rightarrow> ('l \<times> TxQ \<times> nat \<times> bool) option" where
  "acceptIter ctx 0 s = Some s"
| "acceptIter ctx (Suc n) (l, q, i, ch) =
     (case acceptStep ctx l q i ch of None \<Rightarrow> None | Some s \<Rightarrow> acceptIter ctx n s)"

lemma acceptIter_bound:
  assumes "acceptIter ctx n (l, q, i, ch) = Some s" "length (byFee q) \<le> N"
  shows "n \<le> length (byFee q) * (N + 1) + (length (byFee q) - i)"
  using assms
proof (induction n arbitrary: l q i ch)
  case (Suc n)
  obtain l' q' i' ch' where step: "acceptStep ctx l q i ch = Some (l', q', i', ch')"
    and rest: "acceptIter ctx n (l', q', i', ch') = Some s"
    using Suc.prems(1) by (auto split: option.splits)
  let ?a = "length (byFee q)" and ?b = "length (byFee q')"
  have b: "n \<le> ?b * (N + 1) + (?b - i')"
    using acceptStep_decreases [OF step] Suc.prems(2) by (intro Suc.IH [OF rest]) linarith
  from acceptStep_decreases [OF step] show ?case
  proof (elim disjE conjE)
    assume lt: "?b < ?a"
    then have "(?b + 1) * (N + 1) \<le> ?a * (N + 1)"
      by (intro mult_le_mono1) simp
    then show ?thesis
      using b Suc.prems(2) lt by simp
  next
    assume le: "?b \<le> ?a" "i' = i + 1" "i < ?a"
    then have "?b * (N + 1) \<le> ?a * (N + 1)"
      by (intro mult_le_mono1)
    then show ?thesis
      using b le by simp
  qed
qed simp

text \<open>C23: \<open>Accept\<close> terminates: the loop over a queue of \<open>N\<close> candidates ends after at most
  \<open>N * (N + 2)\<close> iterations, whatever the ledger answers, although the index may jump back.\<close>

theorem Accept_terminates:
  "acceptIter ctx (Size q * (Size q + 2) + 1) (l, q, 0, False) = None"
proof (rule ccontr)
  let ?n = "Size q"
  assume "\<not> ?thesis"
  then obtain s where "acceptIter ctx (?n * (?n + 2) + 1) (l, q, 0, False) = Some s"
    by auto
  from acceptIter_bound [OF this, of ?n] have "?n * (?n + 2) + 1 \<le> ?n * (?n + 1) + ?n"
    by (simp add: Size_def)
  then show False
    by (simp add: algebra_simps)
qed


section \<open>Closing a ledger\<close>

lemma touched_trans:
  assumes "touched q q1" "touched q1 q2"
  shows "touched q q2"
  using assms store_ext_trans unfolding touched_def by metis

lemma touched_fold_updAq:
  "(\<And>a. Transactions (f a) = Transactions a) \<Longrightarrow> touched q q0 \<Longrightarrow> touched q (fold (\<lambda>c. updAq (g c) f) cs q0)"
  by (induction cs arbitrary: q0) (auto intro: touched_updAq)

lemma filter_accounts_wf: "accounts_wf al \<Longrightarrow> filter (\<lambda>(_, aq). \<not> AqEmpty aq) al = al"
  by (auto simp: accounts_wf_def AqEmpty_def filter_id_conv)

lemma removeExpired_eq:
  assumes wf: "txq_wf q"
  obtains q1 where "touched q q1"
    "removeExpired ls q = fold erase (filter (\<lambda>c. expired ls (cands q ! c)) (byFee q)) q1"
proof -
  let ?rm = "filter (\<lambda>c. expired ls (cands q ! c)) (byFee q)"
  let ?q1 = "fold (\<lambda>c. updAq (Account (cands q ! c)) (\<lambda>aq. aq\<lparr>DropPenalty := True\<rparr>)) ?rm q"
  have t: "touched q ?q1"
    by (intro touched_fold_updAq touched_refl) simp
  have "accounts_wf (byAccount (fold erase ?rm ?q1))"
    using fold_erase_wf [OF touched_wf [OF wf t]] by (simp add: txq_wf_def)
  then have "removeExpired ls q = fold erase ?rm ?q1"
    by (simp add: removeExpired_def Let_def filter_accounts_wf)
  then show thesis
    using that t by blast
qed

lemma removeExpired_effect:
  assumes wf: "txq_wf q"
  shows "txq_wf (removeExpired ls q)" "txq_inv q \<Longrightarrow> txq_inv (removeExpired ls q)"
    "byFee (removeExpired ls q) = filter (\<lambda>c. \<not> expired ls (cands q ! c)) (byFee q)"
    "maxSize (removeExpired ls q) = maxSize q" "feeMetrics (removeExpired ls q) = feeMetrics q"
proof -
  let ?rm = "filter (\<lambda>c. expired ls (cands q ! c)) (byFee q)"
  obtain q1 where t: "touched q q1" and eq: "removeExpired ls q = fold erase ?rm q1"
    using removeExpired_eq [OF wf] .
  have d: "distinct (byFee q)" and fee: "byFee q1 = byFee q"
    using wf t by (simp_all add: txq_wf_def touched_def)
  show "txq_wf (removeExpired ls q)"
    unfolding eq by (intro fold_erase_wf touched_wf [OF wf t])
  show "txq_inv (removeExpired ls q)" if "txq_inv q"
    unfolding eq using d fee by (intro fold_erase_inv touched_inv [OF that t]) auto
  show "byFee (removeExpired ls q) = filter (\<lambda>c. \<not> expired ls (cands q ! c)) (byFee q)"
    unfolding eq using d fee by (simp add: fold_remove1_filter cong: filter_cong)
  show "maxSize (removeExpired ls q) = maxSize q" "feeMetrics (removeExpired ls q) = feeMetrics q"
    unfolding eq using t by (simp_all add: touched_def)
qed

lemma txq_wf_fields:
  "txq_wf (q\<lparr>feeMetrics := fm\<rparr>) = txq_wf q" "txq_wf (q\<lparr>maxSize := m\<rparr>) = txq_wf q"
  "txq_inv (q\<lparr>feeMetrics := fm\<rparr>) = txq_inv q" "txq_inv (q\<lparr>maxSize := m\<rparr>) = txq_inv q"
  by (simp_all add: txq_inv_def txq_wf_def entry_wf_def fee_sorted_def candidateLess_def indexed_def queued_def)

lemma ProcessClosedLedger_eq:
  obtains q2 where "fst (ProcessClosedLedger ctx timeLeap q) = removeExpired (ClLedgerSequence ctx) q2"
    "txq_wf q2 = txq_wf q" "txq_inv q2 = txq_inv q" "byFee q2 = byFee q" "cands q2 = cands q"
    "maxSize q2 = (if timeLeap then maxSize q else Some (max (QueueSizeMin (config q))
       (txnsExpected (fst (Update (feeMetrics q) (ClTransactionFeeLevels ctx) timeLeap (config q))) * LedgersInQueue (config q))))"
    "feeMetrics q2 = fst (Update (feeMetrics q) (ClTransactionFeeLevels ctx) timeLeap (config q))"
proof -
  let ?fm = "fst (Update (feeMetrics q) (ClTransactionFeeLevels ctx) timeLeap (config q))"
  let ?m = "max (QueueSizeMin (config q)) (txnsExpected ?fm * LedgersInQueue (config q))"
  let ?q2 = "if \<not> timeLeap then q\<lparr>feeMetrics := ?fm, maxSize := Some ?m\<rparr> else q\<lparr>feeMetrics := ?fm\<rparr>"
  have "fst (ProcessClosedLedger ctx timeLeap q) = removeExpired (ClLedgerSequence ctx) ?q2"
    by (simp add: ProcessClosedLedger_def Let_def GetSnapshot_def max_def split: prod.split)
  then show thesis
    by (rule that) (simp_all add: txq_wf_fields)
qed

text \<open>C24: closing a ledger removes exactly the candidates whose last valid ledger has passed, keeps
  the order of the others and the agreement of the indexes, and (unless consensus was slow) sets the
  queue's size limit to the expected number of transactions of the configured number of ledgers, at
  least the configured minimum.\<close>

theorem ProcessClosedLedger_expires:
  assumes "txq_inv q"
  shows "txq_inv (fst (ProcessClosedLedger ctx timeLeap q)) \<and>
    byFee (fst (ProcessClosedLedger ctx timeLeap q)) =
      filter (\<lambda>c. LastValid (cands q ! c) = 0 \<or> ClLedgerSequence ctx < LastValid (cands q ! c)) (byFee q) \<and>
    maxSize (fst (ProcessClosedLedger ctx timeLeap q)) =
      (if timeLeap then maxSize q else Some (max (QueueSizeMin (config q))
         (txnsExpected (feeMetrics (fst (ProcessClosedLedger ctx timeLeap q))) * LedgersInQueue (config q))))"
proof -
  obtain q2 where q2: "fst (ProcessClosedLedger ctx timeLeap q) = removeExpired (ClLedgerSequence ctx) q2"
    "txq_wf q2 = txq_wf q" "txq_inv q2 = txq_inv q" "byFee q2 = byFee q" "cands q2 = cands q"
    "maxSize q2 = (if timeLeap then maxSize q else Some (max (QueueSizeMin (config q))
       (txnsExpected (fst (Update (feeMetrics q) (ClTransactionFeeLevels ctx) timeLeap (config q))) * LedgersInQueue (config q))))"
    "feeMetrics q2 = fst (Update (feeMetrics q) (ClTransactionFeeLevels ctx) timeLeap (config q))"
    by (rule ProcessClosedLedger_eq)
  have "txq_wf q2"
    using assms q2(2) by (simp add: txq_inv_def)
  note eff = removeExpired_effect [OF this, of "ClLedgerSequence ctx"]
  show ?thesis
    unfolding q2(1) eff(3-5) using eff(2) assms q2(3-7) by (auto simp: expired_def not_le intro!: filter_cong)
qed

theorem ProcessClosedLedger_expires_witness:
  "txq_inv ex_q1 \<and> byFee (fst (ProcessClosedLedger \<lparr>ClLedgerSequence = 9, ClTransactionFeeLevels = [256, 300]\<rparr> False ex_q1)) = [0]"
proof -
  let ?c = "\<lparr>ClLedgerSequence = 9, ClTransactionFeeLevels = [256, 300]\<rparr>"
  have "byFee (fst (ProcessClosedLedger ?c False ex_q1)) =
      filter (\<lambda>c. LastValid (cands ex_q1 ! c) = 0 \<or> 9 < LastValid (cands ex_q1 ! c)) (byFee ex_q1)"
    using ProcessClosedLedger_expires [OF ex_q1_inv, of ?c False] by simp
  then show ?thesis
    using ex_q1_inv by (simp add: ex_defs)
qed

section \<open>Every reachable queue\<close>

text \<open>
  The exported methods in any order.  The open ledger may change between two of them; the hash and
  transaction identifiers have their 32 bytes.
\<close>

inductive txq_reach :: "'l ApplyContext \<Rightarrow> 'l AcceptContext \<Rightarrow> 'l \<Rightarrow> TxQ \<Rightarrow> bool" for actx cctx where
  new: "txq_reach actx cctx l (New cfg)"
| submit: "txq_reach actx cctx l q \<Longrightarrow> length txID = 32 \<Longrightarrow> Apply actx l q txn txID account = Some (r, l', q') \<Longrightarrow>
    txq_reach actx cctx l' q'"
| accept: "txq_reach actx cctx l q \<Longrightarrow> length (AcParentHash cctx l) = 32 \<Longrightarrow> Accept cctx l q = (changed, l', q') \<Longrightarrow>
    txq_reach actx cctx l' q'"
| close: "txq_reach actx cctx l q \<Longrightarrow> txq_reach actx cctx l (fst (ProcessClosedLedger ctx timeLeap q))"
| clear: "txq_reach actx cctx l q \<Longrightarrow> txq_reach actx cctx l (Clear q)"
| set_max: "txq_reach actx cctx l q \<Longrightarrow> txq_reach actx cctx l (SetMaxSize m q)"
| reset_max: "txq_reach actx cctx l q \<Longrightarrow> txq_reach actx cctx l (ResetMaxSize q)"
| ledger: "txq_reach actx cctx l q \<Longrightarrow> txq_reach actx cctx l' q"

lemma New_wf: "txq_wf (New cfg)"
  by (simp add: txq_wf_def New_def fee_sorted_def accounts_wf_def)

lemma Clear_wf: "txq_wf q \<Longrightarrow> txq_wf (Clear q)"
  by (simp add: txq_wf_def Clear_def fee_sorted_def accounts_wf_def)

definition ex_uctx :: "unit AcceptContext" where
  "ex_uctx = \<lparr>AcTxInLedger = (\<lambda>_. 0), AcAccountSequence = (\<lambda>_ _. 1),
     AcApplyTransaction = (\<lambda>l _. ((0, True), l)), AcParentHash = (\<lambda>_. ex_id 7)\<rparr>"

text \<open>C1: in every queue that the exported methods reach, the fee-ordered list is sorted by fee level
  and hash, holds no candidate twice, and holds every candidate of the account queues, each of which
  is under its own account and sequence; no account queue is empty.\<close>

theorem txq_reach_wf:
  assumes "txq_reach actx cctx l q"
  shows "txq_wf q"
  using assms
proof induction
  case (accept l q changed l' q')
  obtain lf qf chf where loop: "acceptLoop cctx l q 0 False = (lf, qf, chf)"
    by (metis surj_pair)
  have wf: "txq_wf qf"
    using acceptLoop_effect [OF accept.IH loop] by simp
  then have "txq_wf (rebuildByFee (qf\<lparr>parentHash := AcParentHash cctx l\<rparr>))"
    using rebuildByFee_inv accept.hyps(2) by (simp add: txq_inv_def)
  then show ?case
    using wf accept.hyps(3) loop by (auto simp: Accept_def Let_def split: if_splits)
next
  case (close l q ctx timeLeap)
  obtain q2 where "fst (ProcessClosedLedger ctx timeLeap q) = removeExpired (ClLedgerSequence ctx) q2" "txq_wf q2 = txq_wf q"
    by (rule ProcessClosedLedger_eq)
  then show ?case
    using removeExpired_effect(1) close.IH by simp
qed (simp_all add: New_wf Clear_wf SetMaxSize_def ResetMaxSize_def txq_wf_fields Apply_wf_aux)

theorem txq_reach_wf_witness: "txq_reach ex_ctx ex_uctx () ex_q2 \<and> txq_wf ex_q2"
proof -
  have "txq_reach ex_ctx ex_uctx () (SetMaxSize 1 (New DefaultConfig))"
    by (rule txq_reach.set_max [OF txq_reach.new])
  then have q0: "txq_reach ex_ctx ex_uctx () ex_q0"
    by (simp add: SetMaxSize_def ex_q0_def)
  have "txq_reach ex_ctx ex_uctx () ex_q1"
    using txq_reach.submit [OF q0 _ ex_run1] by (simp add: ex_id_def)
  then have q2: "txq_reach ex_ctx ex_uctx () ex_q2"
    using txq_reach.submit [OF _ _ ex_run2] by (simp add: ex_id_def)
  then show ?thesis
    using txq_reach_wf [OF q2] by blast
qed

end
