(* ===== verification/CompleteLedgers.thy ===== *)
theory CompleteLedgers
  imports GoPrelude
begin

text \<open>
  The record of which ledgers are complete (\<open>internal/ledger/manager/completeness.go\<close>): a sorted
  list of ranges of sequence numbers, refined against the set of sequence numbers it stands for.
  The additions \<open>End + 1\<close> wrap around, and the loops of \<open>FindMissing\<close> count in \<open>uint32\<close>, so
  they need not end: \<open>None\<close> is a loop that runs forever.
\<close>

section \<open>Ranges\<close>

record LedgerRange =
  Start :: u32
  End :: u32

definition RangeContains :: "LedgerRange \<Rightarrow> u32 \<Rightarrow> bool" where
  "RangeContains r sq = (sq \<ge> Start r \<and> sq \<le> End r)"

definition RangeLength :: "LedgerRange \<Rightarrow> u32" where
  "RangeLength r = End r - Start r + 1"

definition rangesOverlapOrAdjacent :: "LedgerRange \<Rightarrow> LedgerRange \<Rightarrow> bool" where
  "rangesOverlapOrAdjacent a b = (Start a \<le> End b + 1 \<and> Start b \<le> End a + 1)"

text \<open>The inner loop: the ranges that the grown range reaches.\<close>

fun absorb :: "LedgerRange \<Rightarrow> LedgerRange list \<Rightarrow> LedgerRange list" where
  "absorb n [] = [n]"
| "absorb n (r # rs) =
     (if rangesOverlapOrAdjacent n r then absorb (n\<lparr>End := max (End n) (End r)\<rparr>) rs else n # r # rs)"

fun mergeRange :: "LedgerRange list \<Rightarrow> LedgerRange \<Rightarrow> LedgerRange list" where
  "mergeRange [] n = [n]"
| "mergeRange (r # rs) n =
     (if End n + 1 < Start r then n # r # rs
      else if rangesOverlapOrAdjacent n r
      then absorb (n\<lparr>Start := min (Start n) (Start r), End := max (End n) (End r)\<rparr>) rs
      else r # mergeRange rs n)"

section \<open>The set\<close>

record CompleteLedgerSet =
  ranges :: "LedgerRange list"

definition NewCompleteLedgerSet :: CompleteLedgerSet where
  "NewCompleteLedgerSet = \<lparr>ranges = []\<rparr>"

definition AddRange :: "u32 \<Rightarrow> u32 \<Rightarrow> CompleteLedgerSet \<Rightarrow> CompleteLedgerSet" where
  "AddRange start fin c =
     (if start > fin then c else c\<lparr>ranges := mergeRange (ranges c) \<lparr>Start = start, End = fin\<rparr>\<rparr>)"

definition Add :: "u32 \<Rightarrow> CompleteLedgerSet \<Rightarrow> CompleteLedgerSet" where
  "Add sq c = AddRange sq sq c"

definition Contains :: "CompleteLedgerSet \<Rightarrow> u32 \<Rightarrow> bool" where
  "Contains c sq =
     (let idx = bsearch (\<lambda>i. End (ranges c ! i) \<ge> sq) 0 (length (ranges c))
      in idx < length (ranges c) \<and> RangeContains (ranges c ! idx) sq)"

definition Range :: "CompleteLedgerSet \<Rightarrow> (u32 \<times> u32) option" where
  "Range c = (if ranges c = [] then None
     else Some (Start (ranges c ! 0), End (ranges c ! (length (ranges c) - 1))))"

text \<open>The counting loops \<open>for current < bound && current <= end\<close> and \<open>for current <= end\<close>.\<close>

partial_function (option) countUp :: "(u32 \<Rightarrow> bool) \<Rightarrow> u32 \<Rightarrow> u32 list \<Rightarrow> (u32 \<times> u32 list) option" where
  "countUp p current missing =
     (if p current then countUp p (current + 1) (missing @ [current]) else Some (current, missing))"

fun missingLoop :: "u32 \<Rightarrow> u32 \<Rightarrow> LedgerRange list \<Rightarrow> u32 \<Rightarrow> u32 list \<Rightarrow> (u32 \<times> u32 list) option" where
  "missingLoop start fin [] current missing = Some (current, missing)"
| "missingLoop start fin (r # rs) current missing =
     (if End r < start then missingLoop start fin rs current missing
      else if Start r > fin then Some (current, missing)
      else let rangeStart = (if Start r > fin then fin + 1 else Start r)
           in case countUp (\<lambda>x. x < rangeStart \<and> x \<le> fin) current missing of
                None \<Rightarrow> None
              | Some (current', missing') \<Rightarrow>
                  missingLoop start fin rs (if End r \<ge> current' then End r + 1 else current') missing')"

definition FindMissing :: "CompleteLedgerSet \<Rightarrow> u32 \<Rightarrow> u32 \<Rightarrow> u32 list option" where
  "FindMissing c start fin =
     (if start > fin then Some []
      else case missingLoop start fin (ranges c) start [] of
             None \<Rightarrow> None
           | Some (current, missing) \<Rightarrow> map_option snd (countUp (\<lambda>x. x \<le> fin) current missing))"

definition FindNextMissing :: "CompleteLedgerSet \<Rightarrow> u32 \<Rightarrow> u32 option option" where
  "FindNextMissing c after =
     (case FindMissing c (after + 1) (after + 1000) of
        None \<Rightarrow> None
      | Some missing \<Rightarrow> Some (if missing \<noteq> [] then Some (missing ! 0) else None))"

definition Count :: "CompleteLedgerSet \<Rightarrow> u32" where
  "Count c = fold (\<lambda>r total. total + RangeLength r) (ranges c) 0"

definition Clear_set :: "CompleteLedgerSet \<Rightarrow> CompleteLedgerSet" where
  "Clear_set c = c\<lparr>ranges := []\<rparr>"

section \<open>What the ranges stand for\<close>

definition range_set :: "LedgerRange \<Rightarrow> u32 set" where
  "range_set r = {Start r..End r}"

definition ledgers :: "LedgerRange list \<Rightarrow> u32 set" where
  "ledgers rs = (\<Union>r \<in> set rs. range_set r)"

text \<open>Sorted, neither overlapping nor adjacent, and below the largest sequence number.\<close>

definition ranges_wf :: "LedgerRange list \<Rightarrow> bool" where
  "ranges_wf rs \<longleftrightarrow> (\<forall>r \<in> set rs. Start r \<le> End r \<and> End r < NOT 0) \<and>
     sorted_wrt (\<lambda>a b. End a + 1 < Start b) rs"

lemma ranges_wf_nat:
  "ranges_wf rs \<longleftrightarrow> (\<forall>r \<in> set rs. unat (Start r) \<le> unat (End r) \<and> unat (End r) < 4294967295) \<and>
     sorted_wrt (\<lambda>a b. unat (End a) + 1 < unat (Start b)) rs"
proof -
  have "sorted_wrt (\<lambda>a b. End a + 1 < Start b) rs = sorted_wrt (\<lambda>a b. unat (End a) + 1 < unat (Start b)) rs"
    if "\<forall>r \<in> set rs. unat (End r) < 4294967295"
    using that by (induction rs) (auto simp: u32_nat u32_succ)
  then show ?thesis
    by (auto simp: ranges_wf_def u32_nat)
qed

lemma ranges_wf_Cons:
  "ranges_wf (r # rs) \<longleftrightarrow> unat (Start r) \<le> unat (End r) \<and> unat (End r) < 4294967295 \<and>
     (\<forall>x \<in> set rs. unat (End r) + 1 < unat (Start x)) \<and> ranges_wf rs"
  by (auto simp: ranges_wf_nat)

lemma ranges_wf_Nil [simp]: "ranges_wf []"
  by (simp add: ranges_wf_def)

lemma mem_range_set: "x \<in> range_set r \<longleftrightarrow> unat (Start r) \<le> unat x \<and> unat x \<le> unat (End r)"
  by (simp add: range_set_def u32_nat)

lemma ledgers_simps [simp]: "ledgers [] = {}" "ledgers (r # rs) = range_set r \<union> ledgers rs"
  by (simp_all add: ledgers_def)

lemma overlap_nat:
  assumes "unat (End a) < 4294967295" "unat (End b) < 4294967295"
  shows "rangesOverlapOrAdjacent a b \<longleftrightarrow> unat (Start a) \<le> unat (End b) + 1 \<and> unat (Start b) \<le> unat (End a) + 1"
  using assms by (simp add: rangesOverlapOrAdjacent_def u32_nat u32_succ)

lemma absorb_spec:
  assumes "ranges_wf [n]" "ranges_wf rs" "\<forall>r \<in> set rs. unat (Start n) \<le> unat (Start r)"
  shows "ranges_wf (absorb n rs) \<and> ledgers (absorb n rs) = range_set n \<union> ledgers rs \<and>
    (\<forall>x \<in> set (absorb n rs). unat (Start n) \<le> unat (Start x))"
  using assms
proof (induction n rs rule: absorb.induct)
  case (2 n r rs)
  have n: "unat (Start n) \<le> unat (End n)" "unat (End n) < 4294967295"
    and r: "unat (Start r) \<le> unat (End r)" "unat (End r) < 4294967295" "unat (Start n) \<le> unat (Start r)"
    and rs: "\<forall>x \<in> set rs. unat (End r) + 1 < unat (Start x)" "ranges_wf rs"
    using 2(2-4) by (simp_all add: ranges_wf_Cons)
  show ?case
  proof (cases "rangesOverlapOrAdjacent n r")
    case True
    let ?n = "n\<lparr>End := max (End n) (End r)\<rparr>"
    have touch: "unat (Start r) \<le> unat (End n) + 1"
      using True n r by (simp add: overlap_nat)
    have "range_set ?n = range_set n \<union> range_set r"
      using touch n r by (auto simp: mem_range_set unat_max)
    moreover have "ranges_wf [?n]"
      using n r by (simp add: ranges_wf_Cons unat_max)
    moreover have "\<forall>x \<in> set rs. unat (Start ?n) \<le> unat (Start x)"
      using rs(1) r by force
    ultimately show ?thesis
      using 2(1) [OF True] rs(2) True by auto
  next
    case False
    have gap: "unat (End n) + 1 < unat (Start r)"
      using False n r by (simp add: overlap_nat)
    then have "\<forall>x \<in> set rs. unat (End n) + 1 < unat (Start x)"
      using rs(1) r by force
    then show ?thesis
      using False gap n r rs by (force simp: ranges_wf_Cons)
  qed
qed simp

lemma mergeRange_spec:
  assumes "ranges_wf [n]" "ranges_wf rs"
  shows "ranges_wf (mergeRange rs n) \<and> ledgers (mergeRange rs n) = range_set n \<union> ledgers rs \<and>
    (\<forall>b. b < unat (Start n) \<longrightarrow> (\<forall>r \<in> set rs. b < unat (Start r)) \<longrightarrow> (\<forall>x \<in> set (mergeRange rs n). b < unat (Start x)))"
  using assms
proof (induction rs n rule: mergeRange.induct)
  case (2 r rs n)
  have n: "unat (Start n) \<le> unat (End n)" "unat (End n) < 4294967295"
    and r: "unat (Start r) \<le> unat (End r)" "unat (End r) < 4294967295"
    and rs: "\<forall>x \<in> set rs. unat (End r) + 1 < unat (Start x)" "ranges_wf rs"
    using 2(2-3) by (simp_all add: ranges_wf_Cons)
  have before: "End n + 1 < Start r \<longleftrightarrow> unat (End n) + 1 < unat (Start r)"
    using n by (simp add: u32_nat u32_succ)
  consider "unat (End n) + 1 < unat (Start r)"
    | "\<not> unat (End n) + 1 < unat (Start r)" "rangesOverlapOrAdjacent n r"
    | "\<not> unat (End n) + 1 < unat (Start r)" "\<not> rangesOverlapOrAdjacent n r"
    by blast
  then show ?case
  proof cases
    case 1
    then have "\<forall>x \<in> set rs. unat (End n) + 1 < unat (Start x)"
      using rs(1) r by force
    then show ?thesis
      using 1 before n r rs by (force simp: ranges_wf_Cons)
  next
    case 2
    let ?n = "n\<lparr>Start := min (Start n) (Start r), End := max (End n) (End r)\<rparr>"
    have touch: "unat (Start n) \<le> unat (End r) + 1" "unat (Start r) \<le> unat (End n) + 1"
      using 2(2) n r by (simp_all add: overlap_nat)
    have "range_set ?n = range_set n \<union> range_set r"
      using touch n r by (auto simp: mem_range_set unat_max unat_min)
    moreover have "ranges_wf [?n]" "\<forall>x \<in> set rs. unat (Start ?n) \<le> unat (Start x)"
      using n r rs(1) by (force simp: ranges_wf_Cons unat_max unat_min)+
    ultimately show ?thesis
      using absorb_spec [of ?n rs] rs(2) 2 before by (auto simp: unat_min)
  next
    case 3
    have gap: "unat (End r) + 1 < unat (Start n)"
      using 3 n r by (auto simp: overlap_nat)
    note IH = "2.IH" [unfolded before, OF 3 "2.prems"(1) rs(2)]
    have "\<forall>x \<in> set (mergeRange rs n). unat (End r) + 1 < unat (Start x)"
      using IH gap rs(1) by blast
    then show ?thesis
      using IH 3 before r by (auto simp: ranges_wf_Cons)
  qed
qed (simp add: ledgers_def)

section \<open>Lookups\<close>

lemma ranges_wf_nth:
  assumes "ranges_wf rs" "i < j" "j < length rs"
  shows "unat (End (rs ! i)) + 1 < unat (Start (rs ! j))"
  using assms by (auto simp: ranges_wf_nat sorted_wrt_iff_nth_less)

lemma Contains_ledgers:
  assumes "ranges_wf (ranges c)"
  shows "Contains c sq \<longleftrightarrow> sq \<in> ledgers (ranges c)"
proof -
  let ?rs = "ranges c" and ?p = "\<lambda>i. End (ranges c ! i) \<ge> sq"
  let ?k = "bsearch ?p 0 (length ?rs)"
  have ends: "unat (End (?rs ! i)) \<le> unat (End (?rs ! j))" if "i \<le> j" "j < length ?rs" for i j
  proof (cases "i = j")
    case False
    have "unat (Start (?rs ! j)) \<le> unat (End (?rs ! j))"
      using assms nth_mem [OF that(2)] by (auto simp: ranges_wf_nat)
    then show ?thesis
      using ranges_wf_nth [OF assms, of i j] that False by simp
  qed simp
  have split: "?p i \<longleftrightarrow> ?k \<le> i" if "i < length ?rs" for i
    by (rule bsearch_split) (use ends that in \<open>auto simp: u32_nat intro: order_trans\<close>)
  show ?thesis
  proof
    assume "Contains c sq"
    then show "sq \<in> ledgers ?rs"
      by (auto simp: Contains_def Let_def RangeContains_def ledgers_def range_set_def)
  next
    assume "sq \<in> ledgers ?rs"
    then obtain i where i: "i < length ?rs" "Start (?rs ! i) \<le> sq" "sq \<le> End (?rs ! i)"
      by (auto simp: ledgers_def range_set_def in_set_conv_nth)
    have "?k \<le> i" "?p ?k"
      using split [OF i(1)] i split [of ?k] by auto
    then have "?k = i"
      using ranges_wf_nth [OF assms, of ?k i] i by (cases "?k = i") (auto simp: u32_nat)
    then show "Contains c sq"
      using i by (simp add: Contains_def Let_def RangeContains_def)
  qed
qed

lemma AddRange_ledgers:
  assumes "ranges_wf (ranges c)" "fin < NOT 0"
  shows "ranges_wf (ranges (AddRange start fin c))"
    and "ledgers (ranges (AddRange start fin c)) = {start..fin} \<union> ledgers (ranges c)"
  using mergeRange_spec [of "\<lparr>Start = start, End = fin\<rparr>" "ranges c"] assms
  by (auto simp: AddRange_def ranges_wf_Cons range_set_def u32_nat not_less)

text \<open>C31: Whatever ranges of sequence numbers below \<open>2\<^sup>3\<^sup>2 - 1\<close> are added, in whatever order and
  however they overlap, the binary search of \<open>Contains\<close> answers true for exactly the sequence
  numbers that lie in one of the ranges.\<close>

theorem Contains_added:
  assumes "\<forall>(start, fin) \<in> set adds. fin < NOT 0"
  shows "Contains (fold (\<lambda>(start, fin). AddRange start fin) adds NewCompleteLedgerSet) sq \<longleftrightarrow>
    (\<exists>(start, fin) \<in> set adds. start \<le> sq \<and> sq \<le> fin)"
proof -
  have "ranges_wf (ranges (fold (\<lambda>(start, fin). AddRange start fin) adds c)) \<and>
      ledgers (ranges (fold (\<lambda>(start, fin). AddRange start fin) adds c)) =
        (\<Union>(start, fin) \<in> set adds. {start..fin}) \<union> ledgers (ranges c)"
    if "ranges_wf (ranges c)" for c
    using assms that
  proof (induction adds arbitrary: c)
    case (Cons a adds)
    obtain start fin where a: "a = (start, fin)"
      by (cases a)
    have "fin < NOT 0"
      using Cons.prems(1) a by auto
    then show ?case
      using Cons.IH [of "AddRange start fin c"] Cons.prems AddRange_ledgers [OF Cons.prems(2), of fin start] a
      by (simp add: Un_assoc Un_left_commute)
  qed simp
  from this [of NewCompleteLedgerSet] show ?thesis
    by (simp add: Contains_ledgers NewCompleteLedgerSet_def) fastforce
qed

theorem Contains_added_witness:
  "Contains (fold (\<lambda>(start, fin). AddRange start fin) [(20, 30), (5, 10), (11, 12), (8, 22)] NewCompleteLedgerSet) 15"
  by (subst Contains_added) (simp_all add: word_less_nat_alt)



section \<open>Gaps\<close>

definition seqs :: "nat \<Rightarrow> nat \<Rightarrow> u32 list" where
  "seqs a b = map word_of_nat [a..<b]"

lemma countUp_returns:
  assumes "unat current \<le> n" "n < 2 ^ 32" "\<not> p (word_of_nat n)"
    "\<forall>i. unat current \<le> i \<and> i < n \<longrightarrow> p (word_of_nat i)"
  shows "countUp p current missing = Some (word_of_nat n, missing @ seqs (unat current) n)"
  using assms
proof (induction "n - unat current" arbitrary: current missing)
  case 0
  then have "current = word_of_nat n"
    by (metis diff_is_0_eq order_antisym word_of_nat_unat)
  then show ?case
    using 0 by (simp add: countUp.simps seqs_def unat_u32_of_nat)
next
  case (Suc d)
  have lt: "unat current < n" and p: "p current"
    using Suc(2) Suc.prems(4) by (simp, metis order_refl word_of_nat_unat zero_less_Suc zero_less_diff)
  have succ: "unat (current + 1) = unat current + 1"
    using lt Suc.prems(2) by (simp add: u32_succ)
  have "seqs (unat current) n = current # seqs (unat current + 1) n"
    using lt by (simp add: seqs_def upt_conv_Cons)
  then show ?case
    using Suc(1) [of "current + 1" "missing @ [current]"] Suc(2) Suc.prems lt p succ
    by (simp add: countUp.simps)
qed

lemma countUp_stops:
  assumes "countUp p current missing = Some x"
  shows "\<not> p (fst x)"
  by (rule countUp.raw_induct [OF _ assms]) (fastforce split: if_splits)

lemma filter_segments:
  assumes "a \<le> n" "n \<le> m" "n \<le> b \<or> a = n"
    "\<forall>x. a \<le> x \<and> x < n \<longrightarrow> P x" "\<forall>x. n \<le> x \<and> x < m \<and> x < b \<longrightarrow> \<not> P x" "\<forall>x. m \<le> x \<and> x < b \<longrightarrow> P x = Q x"
  shows "filter P [a..<b] = [a..<n] @ filter Q [m..<b]"
proof (cases "n \<le> b")
  case True
  have "filter P [a..<b] = filter P [a..<n] @ filter P [n..<b]"
    using upt_add_eq_append [OF assms(1), of "b - n"] True by simp
  also have "filter P [a..<n] = [a..<n]"
    using assms(4) by (simp add: filter_id_conv)
  also have "filter P [n..<b] = filter Q [m..<b]"
  proof (cases "m \<le> b")
    case True
    have "filter P [n..<b] = filter P [n..<m] @ filter P [m..<b]"
      using upt_add_eq_append [OF assms(2), of "b - m"] True by simp
    moreover have "filter P [n..<m] = []"
      using assms(5) True by (simp add: filter_empty_conv)
    moreover have "filter P [m..<b] = filter Q [m..<b]"
      using assms(6) by (intro filter_cong) auto
    ultimately show ?thesis
      by simp
  next
    case False
    then show ?thesis
      using assms(5) by (simp add: filter_empty_conv)
  qed
  finally show ?thesis .
next
  case False
  then show ?thesis
    using assms by simp
qed

lemma seqs_max: "seqs a (max a b) = seqs a b"
  by (simp add: seqs_def max_def)

lemma seqs_empty: "b \<le> a \<Longrightarrow> seqs a b = []"
  by (simp add: seqs_def)

lemma countUp_upto:
  assumes "unat fin < 4294967295"
  shows "map_option snd (countUp (\<lambda>x. x \<le> fin) current missing) = Some (missing @ seqs (unat current) (unat fin + 1))"
  using assms
  by (subst countUp_returns [of _ "max (unat current) (unat fin + 1)"])
    (auto simp: u32_nat unat_u32_of_nat seqs_empty max_def)

lemma countUp_before:
  assumes "b \<le> fin"
  shows "countUp (\<lambda>x. x < b \<and> x \<le> fin) current missing = Some (max current b, missing @ seqs (unat current) (unat b))"
  using assms less_trans [OF _ unat_u32_bound, of _ b]
  by (subst countUp_returns [of _ "max (unat current) (unat b)"])
    (auto simp: u32_nat unat_u32_of_nat seqs_empty max_def)

lemma missingLoop_spec:
  assumes "ranges_wf rs" "unat fin < 4294967295" "unat start \<le> unat current"
  shows "(case missingLoop start fin rs current missing of
       None \<Rightarrow> None
     | Some (current', missing') \<Rightarrow> map_option snd (countUp (\<lambda>x. x \<le> fin) current' missing')) =
    Some (missing @ map word_of_nat (filter (\<lambda>i. word_of_nat i \<notin> ledgers rs) [unat current..<unat fin + 1]))"
  using assms
proof (induction start fin rs current missing rule: missingLoop.induct)
  case (1 start fin current missing)
  then show ?case
    by (simp add: countUp_upto seqs_def)
next
  case (2 start fin r rs current missing)
  have r: "unat (Start r) \<le> unat (End r)" "unat (End r) < 4294967295"
    and rs: "\<forall>x \<in> set rs. unat (End r) + 1 < unat (Start x)" "ranges_wf rs"
    using "2.prems"(1) by (simp_all add: ranges_wf_Cons)
  have bound: "unat (word_of_nat i :: u32) = i" if "i < unat fin + 1" for i
    using that "2.prems"(2) by (simp add: unat_u32_of_nat)
  consider "End r < start" | "\<not> End r < start" "Start r > fin" | "\<not> End r < start" "\<not> Start r > fin"
    by blast
  then show ?case
  proof cases
    case 1
    have "filter (\<lambda>i. word_of_nat i \<notin> ledgers (r # rs)) [unat current..<unat fin + 1] =
        filter (\<lambda>i. word_of_nat i \<notin> ledgers rs) [unat current..<unat fin + 1]"
      using 1 "2.prems" bound by (intro filter_cong) (auto simp: mem_range_set u32_nat)
    then show ?thesis
      using 1 "2.IH"(1) rs(2) "2.prems" by simp
  next
    case 2
    have "word_of_nat i \<notin> ledgers (r # rs)" if "i < unat fin + 1" for i
      using 2 bound [OF that] r rs(1) that by (force simp: mem_range_set ledgers_def u32_nat)
    then have "filter (\<lambda>i. word_of_nat i \<notin> ledgers (r # rs)) [unat current..<unat fin + 1] = [unat current..<unat fin + 1]"
      by (intro filter_True) (simp del: upt_Suc)
    then show ?thesis
      using 2 "2.prems"(2) by (simp add: countUp_upto seqs_def del: ledgers_simps)
  next
    case 3
    let ?n = "max current (Start r)"
    let ?c = "if End r \<ge> ?n then End r + 1 else ?n"
    have c: "unat ?c = max (unat ?n) (unat (End r) + 1)"
      using r by (auto simp: u32_nat u32_succ max_def)
    let ?m = "missing @ seqs (unat current) (unat (Start r))"
    have segs: "filter (\<lambda>i. word_of_nat i \<notin> ledgers (r # rs)) [unat current..<unat fin + 1] =
        [unat current..<unat ?n] @ filter (\<lambda>i. word_of_nat i \<notin> ledgers rs) [unat ?c..<unat fin + 1]"
    proof (rule filter_segments)
      show "unat ?n \<le> unat fin + 1 \<or> unat current = unat ?n"
        using 3(2) by (auto simp: unat_max u32_nat)
      have "word_of_nat i \<notin> ledgers (r # rs)" if "unat current \<le> i" "i < unat ?n" for i
        using that 3(2) rs(1) r bound [of i] by (force simp: unat_max mem_range_set ledgers_def u32_nat)
      then show "\<forall>i. unat current \<le> i \<and> i < unat ?n \<longrightarrow> word_of_nat i \<notin> ledgers (r # rs)"
        by blast
      show "\<forall>i. unat ?n \<le> i \<and> i < unat ?c \<and> i < unat fin + 1 \<longrightarrow> \<not> word_of_nat i \<notin> ledgers (r # rs)"
        using bound r by (auto simp: c unat_max mem_range_set u32_succ)
      show "\<forall>i. unat ?c \<le> i \<and> i < unat fin + 1 \<longrightarrow> (word_of_nat i \<notin> ledgers (r # rs)) = (word_of_nat i \<notin> ledgers rs)"
        using bound r by (auto simp: c mem_range_set u32_succ unat_max u32_nat)
    qed (use r in \<open>auto simp: c unat_max u32_succ u32_nat\<close>)
    have "map word_of_nat [unat current..<unat ?n] = seqs (unat current) (unat (Start r))"
      using seqs_max [of "unat current" "unat (Start r)"] by (simp add: seqs_def unat_max)
    then have out: "map word_of_nat ([unat current..<unat ?n] @ xs) = seqs (unat current) (unat (Start r)) @ map word_of_nat xs" for xs
      by simp
    have "unat start \<le> unat ?c"
      unfolding c unat_max using "2.prems"(3) by simp
    then have IH: "(case missingLoop start fin rs ?c ?m of
         None \<Rightarrow> None
       | Some (current', missing') \<Rightarrow> map_option snd (countUp (\<lambda>x. x \<le> fin) current' missing')) =
      Some (?m @ map word_of_nat (filter (\<lambda>i. word_of_nat i \<notin> ledgers rs) [unat ?c..<unat fin + 1]))"
      using "2.IH"(2) [OF 3 refl, of "(?n, ?m)" ?n ?m] rs(2) "2.prems"(2) 3
      by (simp add: countUp_before not_less del: ledgers_simps upt_Suc)
    have "missingLoop start fin (r # rs) current missing = missingLoop start fin rs ?c ?m"
      using 3 by (simp add: countUp_before [OF leI])
    then show ?thesis
      by (simp only: IH segs out append_assoc)
  qed
qed

text \<open>C32: For a search range below \<open>2\<^sup>3\<^sup>2 - 1\<close> the loops of \<open>FindMissing\<close> end, and the list is the
  sequence numbers from \<open>start\<close> to \<open>end\<close>, in ascending order, that \<open>Contains\<close> denies.\<close>

theorem FindMissing_exact:
  assumes "ranges_wf (ranges c)" "fin < NOT 0"
  shows "FindMissing c start fin =
    Some (filter (\<lambda>sq. \<not> Contains c sq) (map word_of_nat [unat start..<unat fin + 1]))"
proof (cases "start > fin")
  case True
  then show ?thesis
    by (simp add: FindMissing_def u32_nat)
next
  case False
  have "unat fin < 4294967295"
    using assms(2) by (simp add: u32_nat)
  from missingLoop_spec [OF assms(1) this order_refl, of start "[]"] False show ?thesis
    by (simp add: FindMissing_def Contains_ledgers [OF assms(1)] filter_map comp_def del: upt_Suc)
qed

theorem FindMissing_exact_witness:
  "FindMissing \<lparr>ranges = [\<lparr>Start = 3, End = 4\<rparr>]\<rparr> 2 6 =
    Some (filter (\<lambda>sq. \<not> Contains \<lparr>ranges = [\<lparr>Start = 3, End = 4\<rparr>]\<rparr> sq) (map word_of_nat [unat (2::u32)..<unat (6::u32) + 1]))"
  by (rule FindMissing_exact) (simp_all add: ranges_wf_def u32_nat)

text \<open>C33: Asked for the gaps up to the last sequence number \<open>2\<^sup>3\<^sup>2 - 1\<close>, \<open>FindMissing\<close> never returns,
  whatever the set holds: the counter wraps around before it can exceed \<open>end\<close>.\<close>

theorem FindMissing_max_diverges: "FindMissing c start (NOT 0) = None"
proof -
  have "countUp (\<lambda>x. x \<le> NOT 0) current missing = None" for current missing
    using countUp_stops [of "\<lambda>x. x \<le> NOT 0" current missing] by (cases "countUp (\<lambda>x. x \<le> NOT 0) current missing") auto
  then show ?thesis
    by (auto simp: FindMissing_def not_less split: option.splits)
qed

section \<open>Sizes\<close>

lemma card_range_set: "unat (Start r) \<le> unat (End r) \<Longrightarrow> card (range_set r) = unat (End r) - unat (Start r) + 1"
proof -
  assume le: "unat (Start r) \<le> unat (End r)"
  have "range_set r = word_of_nat ` {unat (Start r)..unat (End r)}"
  proof (intro set_eqI iffI)
    fix x :: u32
    assume "x \<in> range_set r"
    then show "x \<in> word_of_nat ` {unat (Start r)..unat (End r)}"
      by (intro image_eqI [of _ _ "unat x"]) (simp_all add: mem_range_set)
  next
    fix x :: u32
    assume "x \<in> word_of_nat ` {unat (Start r)..unat (End r)}"
    then show "x \<in> range_set r"
      using le_less_trans [OF _ unat_u32_bound, of _ "End r"] by (auto simp: mem_range_set unat_u32_of_nat)
  qed
  moreover have "inj_on (word_of_nat :: nat \<Rightarrow> u32) {unat (Start r)..unat (End r)}"
    using unat_u32_bound [of "End r"] by (intro inj_onI) (metis atLeastAtMost_iff le_less_trans unat_u32_of_nat)
  ultimately show ?thesis
    using le by (simp add: card_image)
qed

lemma Count_fold:
  "fold (\<lambda>r total. total + RangeLength r) rs t = t + sum_list (map RangeLength rs)"
  by (induction rs arbitrary: t) (simp_all add: ac_simps)

lemma card_u32_less: "NOT 0 \<notin> (A :: u32 set) \<Longrightarrow> card A < 2 ^ 32"
proof -
  assume "NOT 0 \<notin> A"
  then have "card A < card (UNIV :: u32 set)"
    by (intro psubset_card_mono) auto
  then show ?thesis
    by (simp add: card_word)
qed

lemma unat_RangeLength:
  assumes "unat (Start r) \<le> unat (End r)" "unat (End r) < 4294967295"
  shows "unat (RangeLength r) = card (range_set r)"
  using assms u32_succ [of "End r - Start r"] by (simp add: RangeLength_def card_range_set unat_sub u32_nat)

lemma finite_ledgers [simp]: "finite (ledgers rs)"
  by simp

lemma Count_card: "ranges_wf rs \<Longrightarrow> unat (sum_list (map RangeLength rs)) = card (ledgers rs)"
proof (induction rs)
  case (Cons r rs)
  have r: "unat (Start r) \<le> unat (End r)" "unat (End r) < 4294967295" "\<forall>x \<in> set rs. unat (End r) + 1 < unat (Start x)"
    using Cons.prems by (simp_all add: ranges_wf_Cons)
  have disj: "range_set r \<inter> ledgers rs = {}"
    using r(3) by (force simp: ledgers_def mem_range_set)
  have "NOT 0 \<notin> ledgers (r # rs)"
    using Cons.prems by (force simp: ledgers_def mem_range_set ranges_wf_nat)
  then have "card (range_set r) + card (ledgers rs) < 2 ^ 32"
    using card_u32_less [of "ledgers (r # rs)"] disj by (simp add: card_Un_disjoint)
  then show ?case
    using Cons disj by (simp add: ranges_wf_Cons unat_add_fits unat_RangeLength card_Un_disjoint)
qed simp

lemma ledgers_between:
  assumes "ranges_wf rs" "rs \<noteq> []"
  shows "Start (rs ! 0) \<in> ledgers rs" "End (last rs) \<in> ledgers rs"
    "\<forall>x \<in> ledgers rs. Start (rs ! 0) \<le> x \<and> x \<le> End (last rs)"
  using assms
proof (induction rs)
  case (Cons r rs)
  {
    case 1
    then show ?case
      by (simp add: mem_range_set ranges_wf_Cons)
  next
    case 2
    then show ?case
      using Cons.IH(2) by (auto simp: mem_range_set ranges_wf_Cons)
  next
    case 3
    have r: "unat (Start r) \<le> unat (End r)" "\<forall>x \<in> set rs. unat (End r) + 1 < unat (Start x)" "ranges_wf rs"
      using 3(1) by (simp_all add: ranges_wf_Cons)
    show ?case
    proof (cases "rs = []")
      case True
      then show ?thesis
        by (simp add: mem_range_set u32_nat)
    next
      case False
      have "unat (End r) < unat (Start (rs ! 0))" "unat (Start (rs ! 0)) \<le> unat (End (last rs))"
        using r(2) nth_mem [of 0 rs] False Cons.IH(2,3) [OF r(3)] by (fastforce simp: u32_nat)+
      then show ?thesis
        using Cons.IH(3) [OF r(3) False] r(1) False by (fastforce simp: mem_range_set u32_nat)
    qed
  }
qed simp_all

text \<open>On the sets that the additions build, \<open>Count\<close> is the number of complete ledgers, and \<open>Range\<close>
  gives the least and the greatest of them.\<close>

theorem Count_Range:
  assumes "ranges_wf (ranges c)"
  shows "unat (Count c) = card {sq. Contains c sq} \<and>
    Range c = (if \<exists>sq. Contains c sq then Some (Min {sq. Contains c sq}, Max {sq. Contains c sq}) else None)"
proof -
  have set_eq: "{sq. Contains c sq} = ledgers (ranges c)"
    using Contains_ledgers [OF assms] by blast
  have "Range c = Some (Min (ledgers (ranges c)), Max (ledgers (ranges c)))" if "ranges c \<noteq> []"
    using ledgers_between [OF assms that] that
    by (simp add: Range_def Min_eqI [of _ "Start (ranges c ! 0)"] Max_eqI [of _ "End (last (ranges c))"] last_conv_nth)
  moreover have "Range c = None" "\<not> Contains c sq" if "ranges c = []" for sq
    using that by (simp_all add: Range_def Contains_ledgers assms)
  moreover have "\<exists>sq. Contains c sq" if "ranges c \<noteq> []"
    using ledgers_between(1) [OF assms that] Contains_ledgers [OF assms] by blast
  ultimately show ?thesis
    by (auto simp: set_eq Count_def Count_fold Count_card [OF assms])
qed

theorem Count_Range_witness:
  "unat (Count \<lparr>ranges = [\<lparr>Start = 3, End = 4\<rparr>]\<rparr>) = card {sq. Contains \<lparr>ranges = [\<lparr>Start = 3, End = 4\<rparr>]\<rparr> sq}"
  using Count_Range [of "\<lparr>ranges = [\<lparr>Start = 3, End = 4\<rparr>]\<rparr>"] by (simp add: ranges_wf_def u32_nat)

end
