(* ===== verification/ConsensusTiming.thy ===== *)
theory ConsensusTiming
  imports GoPrelude
begin

text \<open>
  The arithmetic of consensus rounds: the close-time resolution of the next ledger
  (\<open>internal/consensus/ledger_timing.go\<close>), the rounding of close times
  (\<open>internal/consensus/rcl/engine.go\<close>) and the validation quorum
  (\<open>internal/consensus/adaptor/adaptor.go\<close>, \<open>unl.go\<close>).
\<close>

section \<open>Close-time resolution\<close>

definition ledgerPossibleTimeResolutions :: "u32 list" where
  "ledgerPossibleTimeResolutions = [10, 20, 30, 60, 90, 120]"

definition LedgerDefaultTimeResolution :: u32 where "LedgerDefaultTimeResolution = 30"
definition LedgerGenesisTimeResolution :: u32 where "LedgerGenesisTimeResolution = 10"
definition increaseLedgerTimeResolutionEvery :: u32 where "increaseLedgerTimeResolutionEvery = 8"
definition decreaseLedgerTimeResolutionEvery :: u32 where "decreaseLedgerTimeResolutionEvery = 1"

definition GetNextLedgerTimeResolution :: "u32 \<Rightarrow> bool \<Rightarrow> u32 \<Rightarrow> u32" where
  "GetNextLedgerTimeResolution parentResolution previousAgree newLedgerSeq =
     (if newLedgerSeq = 0 then parentResolution
      else case find (\<lambda>i. ledgerPossibleTimeResolutions ! i = parentResolution)
                  [0..<length ledgerPossibleTimeResolutions] of
             None \<Rightarrow> parentResolution
           | Some idx \<Rightarrow>
               if \<not> previousAgree \<and> newLedgerSeq mod decreaseLedgerTimeResolutionEvery = 0 \<and>
                  idx + 1 < length ledgerPossibleTimeResolutions
               then ledgerPossibleTimeResolutions ! (idx + 1)
               else if previousAgree \<and> newLedgerSeq mod increaseLedgerTimeResolutionEvery = 0 \<and> idx > 0
               then ledgerPossibleTimeResolutions ! (idx - 1)
               else parentResolution)"

lemmas resolution_defs = ledgerPossibleTimeResolutions_def increaseLedgerTimeResolutionEvery_def
  decreaseLedgerTimeResolutionEvery_def

text \<open>The rounds of a sequence of ledgers, each with its agreement flag and sequence number.\<close>

definition resolutions :: "u32 \<Rightarrow> (bool \<times> u32) list \<Rightarrow> u32" where
  "resolutions r rounds = fold (\<lambda>(agree, sq) r. GetNextLedgerTimeResolution r agree sq) rounds r"

section \<open>Close times\<close>

text \<open>
  A \<open>time.Time\<close> is the number of nanoseconds since the Unix epoch; the zero time is the first
  second of the year 1.  A \<open>time.Duration\<close> is a number of nanoseconds.  Division and remainder
  truncate towards zero; \<open>Unix\<close> rounds down.
\<close>

type_synonym Time = int
type_synonym Duration = int

definition Second :: Duration where "Second = 1000000000"

definition IsZero :: "Time \<Rightarrow> bool" where
  "IsZero t = (t = -62135596800 * Second)"

definition go_quot :: "int \<Rightarrow> int \<Rightarrow> int" where
  "go_quot a b = sgn a * sgn b * (\<bar>a\<bar> div \<bar>b\<bar>)"

definition go_rem :: "int \<Rightarrow> int \<Rightarrow> int" where
  "go_rem a b = sgn a * (\<bar>a\<bar> mod \<bar>b\<bar>)"

definition Unix :: "Time \<Rightarrow> int" where
  "Unix t = t div Second"

definition roundCloseTime :: "Time \<Rightarrow> Duration \<Rightarrow> Time" where
  "roundCloseTime closeTime resolution =
     (if IsZero closeTime then closeTime
      else let adjusted = closeTime + go_quot resolution 2;
               epoch = Unix adjusted;
               resSec = go_quot resolution Second
           in if resSec \<le> 0 then closeTime else (epoch - go_rem epoch resSec) * Second)"

definition effCloseTime :: "Time \<Rightarrow> Duration \<Rightarrow> Time \<Rightarrow> Time" where
  "effCloseTime closeTime resolution priorCloseTime =
     (if IsZero closeTime then closeTime
      else let rounded = roundCloseTime closeTime resolution; minTime = priorCloseTime + Second
           in if rounded < minTime then minTime else rounded)"

section \<open>Quorum\<close>

text \<open>\<open>math.MaxInt\<close> of a 64-bit platform; the counts are lengths of slices.\<close>

definition MaxInt :: int where "MaxInt = 2 ^ 63 - 1"

definition computeQuorum :: "int \<Rightarrow> int \<Rightarrow> int" where
  "computeQuorum trusted disabled =
     (if trusted = 0 then 0
      else let effective = trusted - disabled
           in if effective \<le> 0 then MaxInt
              else let q = go_quot (effective * 4 + 4) 5 in if q < 1 then 1 else q)"

definition CalcQuorum :: "int \<Rightarrow> int" where
  "CalcQuorum n = (if n \<le> 0 then 0 else let q = go_quot (n * 4 + 4) 5 in if q < 1 then 1 else q)"

text \<open>Two quorums among the effective validators overlap.\<close>

lemma computeQuorum_majority:
  assumes "0 < trusted" "trusted < 2 ^ 60"
  shows "trusted - disabled < 2 * computeQuorum trusted disabled"
proof -
  define e where "e = trusted - disabled"
  have "go_quot (e * 4 + 4) 5 = (e * 4 + 4) div 5" if "e > 0"
    using that by (simp add: go_quot_def sgn_if)
  then show ?thesis
    using assms by (auto simp: computeQuorum_def Let_def MaxInt_def e_def [symmetric])
qed

section \<open>Properties\<close>

lemma length_resolutions: "length ledgerPossibleTimeResolutions = 6"
  by (simp add: ledgerPossibleTimeResolutions_def)

lemma GetNext_bin:
  assumes "i < 6" "sq \<noteq> 0"
  shows "GetNextLedgerTimeResolution (ledgerPossibleTimeResolutions ! i) agree sq =
    (if \<not> agree then ledgerPossibleTimeResolutions ! min 5 (i + 1)
     else if sq mod 8 = 0 then ledgerPossibleTimeResolutions ! (i - 1)
     else ledgerPossibleTimeResolutions ! i)"
proof -
  have "i \<in> {0, 1, 2, 3, 4, 5}"
    using assms(1) by auto
  then show ?thesis
    using assms(2) by (auto simp: GetNextLedgerTimeResolution_def resolution_defs upt_rec)
qed

text \<open>the resolution moves by one bin at most.  After a round without agreement it is the next
  coarser bin (or stays the coarsest); after an agreed round it is the next finer bin (or stays the
  finest) on every eighth ledger and stays otherwise.\<close>

theorem GetNextLedgerTimeResolution_steps:
  assumes "i < length ledgerPossibleTimeResolutions" "newLedgerSeq \<noteq> 0"
  shows "GetNextLedgerTimeResolution (ledgerPossibleTimeResolutions ! i) previousAgree newLedgerSeq =
    (if \<not> previousAgree then ledgerPossibleTimeResolutions ! min (length ledgerPossibleTimeResolutions - 1) (i + 1)
     else if newLedgerSeq mod 8 = 0 then ledgerPossibleTimeResolutions ! (i - 1)
     else ledgerPossibleTimeResolutions ! i)"
  using GetNext_bin [of i newLedgerSeq previousAgree] assms by (simp add: length_resolutions)

theorem GetNextLedgerTimeResolution_steps_witness:
  "2 < length ledgerPossibleTimeResolutions \<and> GetNextLedgerTimeResolution 30 False 7 = 60"
  using GetNextLedgerTimeResolution_steps [of 2 7 False] by (simp add: ledgerPossibleTimeResolutions_def)

text \<open>clocks that disagree end up with the coarsest resolution: from any bin, five rounds without
  agreement are enough, and it stays there as long as there is no agreement.\<close>

theorem resolutions_saturate:
  assumes "r \<in> set ledgerPossibleTimeResolutions" "length rounds \<ge> 5"
    "\<forall>(agree, sq) \<in> set rounds. \<not> agree \<and> sq \<noteq> 0"
  shows "resolutions r rounds = 120"
proof -
  have "resolutions (ledgerPossibleTimeResolutions ! i) rounds = ledgerPossibleTimeResolutions ! min 5 (i + length rounds)"
    if "i < 6" "\<forall>(agree, sq) \<in> set rounds. \<not> agree \<and> sq \<noteq> 0" for i rounds
    using that
  proof (induction rounds arbitrary: i)
    case (Cons x rounds)
    obtain sq where x: "x = (False, sq)" "sq \<noteq> 0"
      using Cons.prems(2) by (cases x) auto
    have "resolutions (ledgerPossibleTimeResolutions ! i) (x # rounds) = resolutions (ledgerPossibleTimeResolutions ! min 5 (i + 1)) rounds"
      using x Cons.prems(1) by (simp add: resolutions_def GetNext_bin)
    then show ?case
      using Cons.IH [of "min 5 (i + 1)"] Cons.prems by (simp add: min_def split: if_splits)
  qed (simp add: resolutions_def)
  moreover obtain i where "i < 6" "r = ledgerPossibleTimeResolutions ! i"
    using assms(1) unfolding in_set_conv_nth length_resolutions by blast
  ultimately show ?thesis
    using assms(2,3) by (simp add: min_def ledgerPossibleTimeResolutions_def)
qed

theorem resolutions_saturate_witness:
  "(30 :: u32) \<in> set ledgerPossibleTimeResolutions \<and>
   resolutions 30 [(False, 1), (False, 2), (False, 3), (False, 4), (False, 5), (False, 6)] = 120"
  using resolutions_saturate [of 30 "[(False, 1), (False, 2), (False, 3), (False, 4), (False, 5), (False, 6)]"]
  by (simp add: ledgerPossibleTimeResolutions_def)

text \<open>C35: for a resolution of whole seconds and a close time after the epoch, the rounded close time is
  the nearest multiple of the resolution (upwards from the midpoint), and the effective close time is
  that multiple or one second after the prior close time, whichever is later; it is always after the
  prior close time.\<close>

theorem effCloseTime_nearest:
  assumes "s > 0" "t \<ge> 0"
  shows "\<exists>k. roundCloseTime t (s * Second) = k * (s * Second) \<and>
      2 * t - s * Second < 2 * (k * (s * Second)) \<and> 2 * (k * (s * Second)) \<le> 2 * t + s * Second \<and>
      effCloseTime t (s * Second) prior = max (k * (s * Second)) (prior + Second) \<and>
      prior < effCloseTime t (s * Second) prior"
proof -
  let ?r = "s * Second"
  define a where "a = t + s * 500000000"
  define k where "k = a div ?r"
  have S: "Second > 0" "Second = 2 * 500000000"
    by (simp_all add: Second_def)
  have half: "go_quot ?r 2 = s * 500000000" and secs: "go_quot ?r Second = s"
    using assms(1) by (simp_all add: go_quot_def Second_def sgn_mult abs_mult)
  have nz: "\<not> IsZero t"
    using assms(2) by (simp add: IsZero_def Second_def)
  have "a \<ge> 0"
    using assms by (simp add: a_def)
  then have e: "Unix a \<ge> 0"
    using S(1) by (simp add: Unix_def pos_imp_zdiv_nonneg_iff)
  have "Unix a - go_rem (Unix a) s = s * (Unix a div s)"
    using e assms(1) by (auto simp: go_rem_def sgn_if minus_mod_eq_mult_div)
  also have "Unix a div s = k"
    using S(1) assms(1) by (simp add: Unix_def k_def zdiv_zmult2_eq mult.commute [of s])
  finally have round: "roundCloseTime t ?r = k * ?r"
    using nz half secs assms(1) by (simp add: roundCloseTime_def a_def ac_simps)
  have r: "?r > 0"
    using S(1) assms(1) by simp
  have "a = k * ?r + a mod ?r"
    unfolding k_def by (rule div_mult_mod_eq [symmetric])
  moreover have "0 \<le> a mod ?r" "a mod ?r < ?r"
    using r by simp_all
  moreover have "2 * a = 2 * t + ?r"
    by (simp add: a_def S(2))
  ultimately have "2 * t - ?r < 2 * (k * ?r)" "2 * (k * ?r) \<le> 2 * t + ?r"
    by linarith+
  then show ?thesis
    using round nz S(1) by (intro exI [of _ k]) (auto simp: effCloseTime_def Let_def max_def)
qed

theorem effCloseTime_nearest_witness:
  "(0 :: int) < 30 \<and> (0 :: int) \<le> 1700000007 * Second \<and>
   (\<exists>k. roundCloseTime (1700000007 * Second) (30 * Second) = k * (30 * Second)) \<and>
   1700000000 * Second < effCloseTime (1700000007 * Second) (30 * Second) (1700000000 * Second)"
  using effCloseTime_nearest [of 30 "1700000007 * Second" "1700000000 * Second"] by (auto simp: Second_def)

text \<open>C36: the quorum is four fifths of the validators that are not disabled, rounded up, and lies
  between one and their number; two sets of validators that reach it share at least three fifths of
  them.  When every validator is disabled it is out of reach.\<close>

theorem computeQuorum_ceiling:
  assumes "0 \<le> disabled" "0 < trusted" "trusted < 2 ^ 60"
  defines "e \<equiv> trusted - disabled" and "q \<equiv> computeQuorum trusted disabled"
  shows "(0 < e \<longrightarrow> 4 * e \<le> 5 * q \<and> 5 * (q - 1) < 4 * e \<and> 1 \<le> q \<and> q \<le> e \<and> 3 * e \<le> 5 * (2 * q - e) \<and> q = CalcQuorum e) \<and>
    (e \<le> 0 \<longrightarrow> q > trusted)"
proof -
  have quot: "go_quot (n * 4 + 4) 5 = (n * 4 + 4) div 5" if "n > 0" for n
    using that by (simp add: go_quot_def sgn_if)
  show ?thesis
    using assms(1-3) quot [of e] by (auto simp: q_def computeQuorum_def CalcQuorum_def Let_def MaxInt_def e_def)
qed

theorem computeQuorum_ceiling_witness:
  "computeQuorum 35 2 = 27 \<and> 4 * (33 :: int) \<le> 5 * 27"
  using computeQuorum_ceiling [of 2 35] by (simp add: computeQuorum_def go_quot_def)

end
