(* ===== verification/GoBytes.thy ===== *)
theory GoBytes
  imports ConsensusTiming
begin

text \<open>
  Bytes on the wire: big-endian integers as \<open>encoding/binary\<close> writes and reads them, and seconds of
  the XRPL epoch, which starts on 1 January 2000.
\<close>

section \<open>Big-endian integers\<close>

fun be :: "nat \<Rightarrow> nat \<Rightarrow> u8 list" where
  "be 0 x = []"
| "be (Suc k) x = be k (x div 256) @ [word_of_nat (x mod 256)]"

definition unbe :: "u8 list \<Rightarrow> nat" where
  "unbe bs = foldl (\<lambda>a b. a * 256 + unat b) 0 bs"

lemma length_be [simp]: "length (be k x) = k"
  by (induction k arbitrary: x) simp_all

lemma unbe_be: "unbe (be k x) = x mod 256 ^ k"
proof (induction k arbitrary: x)
  case (Suc k)
  have "unbe (be (Suc k) x) = unbe (be k (x div 256)) * 256 + x mod 256"
    by (simp add: unbe_def unat_of_nat)
  also have "\<dots> = 256 * (x div 256 mod 256 ^ k) + x mod 256"
    using Suc by simp
  also have "\<dots> = x mod (256 * 256 ^ k)"
    by (simp add: mod_mult2_eq)
  finally show ?case
    by simp
qed (simp add: unbe_def)

definition putUint32 :: "u32 \<Rightarrow> u8 list" where
  "putUint32 w = be 4 (unat w)"

definition putUint64 :: "u64 \<Rightarrow> u8 list" where
  "putUint64 w = be 8 (unat w)"

definition getUint32 :: "u8 list \<Rightarrow> u32" where
  "getUint32 bs = word_of_nat (unbe bs)"

definition getUint64 :: "u8 list \<Rightarrow> u64" where
  "getUint64 bs = word_of_nat (unbe bs)"

lemma length_put [simp]: "length (putUint32 w) = 4" "length (putUint64 x) = 8"
  by (simp_all add: putUint32_def putUint64_def)

lemma get_put [simp]: "getUint32 (putUint32 w) = w" "getUint64 (putUint64 x) = x"
proof -
  have "unat w mod 256 ^ 4 = unat w" "unat x mod 256 ^ 8 = unat x"
    by simp_all
  then show "getUint32 (putUint32 w) = w" "getUint64 (putUint64 x) = x"
    by (simp_all add: getUint32_def putUint32_def getUint64_def putUint64_def unbe_be word_of_nat_unat)
qed

section \<open>Seconds of the XRPL epoch\<close>

definition xrplEpochOffset :: int where "xrplEpochOffset = 946684800"

definition zeroTime :: Time where "zeroTime = -62135596800 * Second"

lemma IsZero_zeroTime [simp]: "IsZero zeroTime"
  by (simp add: IsZero_def zeroTime_def)

text \<open>A time that the wire can hold: a whole number of seconds of the 32-bit epoch.\<close>

definition epoch_time :: "Time \<Rightarrow> bool" where
  "epoch_time t \<longleftrightarrow> t mod Second = 0 \<and> xrplEpochOffset \<le> Unix t \<and> Unix t < xrplEpochOffset + 2 ^ 32"

lemma epoch_time_Unix: "epoch_time t \<Longrightarrow> Unix t * Second = t"
  by (simp add: epoch_time_def Unix_def Second_def mod_0_imp_dvd)

lemma uint_u32_of_int: "0 \<le> x \<Longrightarrow> x < 2 ^ 32 \<Longrightarrow> uint (word_of_int x :: u32) = x"
  by (simp add: uint_word_of_int_eq take_bit_eq_mod)

lemma uint_epoch:
  assumes "epoch_time t"
  shows "uint (word_of_int (Unix t - xrplEpochOffset) :: u32) = Unix t - xrplEpochOffset"
  by (rule uint_u32_of_int) (use assms in \<open>simp_all add: epoch_time_def\<close>)

end
