(* ===== verification/LedgerTrie.thy ===== *)
theory LedgerTrie
  imports GoPrelude
begin

text \<open>
  The ancestry trie that decides which ledger the validators prefer
  (\<open>internal/consensus/ledgertrie\<close>): spans of a ledger's ancestry, the nodes, and the trie with its
  operations.  A \<open>Ledger\<close> is an object behind an interface, modelled by the record of its methods.
  A node owns its children, so a pointer to a node is the path of child indices that leads to it
  from the root, and the parent of a node is the node one step up its path.  A panic is \<open>None\<close>.
\<close>

section \<open>Ledgers and spans\<close>

type_synonym LedgerID = "u8 list"

record Ledger =
  ID :: LedgerID
  Seq :: u32
  MinSeq :: u32
  Ancestor :: "u32 \<Rightarrow> LedgerID"

lemma mid_bounds:
  fixes low hi :: u32
  assumes "low < hi"
  shows "unat (low + (hi - low) div 2) = (unat low + unat hi) div 2"
proof -
  have lt: "unat low < unat hi"
    using assms by (simp add: word_less_nat_alt)
  then have "unat ((hi - low) div 2) = (unat hi - unat low) div 2"
    using assms by (simp add: unat_div unat_sub word_le_nat_alt)
  moreover have "unat low + (unat hi - unat low) div 2 < 2 ^ 32"
    using lt unat_u32_bound [of hi] by linarith
  ultimately have "unat (low + (hi - low) div 2) = unat low + (unat hi - unat low) div 2"
    by (simp add: unat_add_fits)
  then show ?thesis
    using lt by simp
qed

function mismatchLoop :: "Ledger \<Rightarrow> Ledger \<Rightarrow> u32 \<Rightarrow> u32 \<Rightarrow> u32" where
  "mismatchLoop a b low hi =
     (if low < hi
      then let mid = low + (hi - low) div 2
           in if Ancestor a mid = Ancestor b mid then mismatchLoop a b (mid + 1) hi
              else mismatchLoop a b low mid
      else low)"
  by pat_completeness auto
termination
proof (relation "measure (\<lambda>(a, b, low, hi). unat hi - unat low)")
  fix a b :: Ledger and low hi mid :: u32
  assume lt: "low < hi" and mid: "mid = low + (hi - low) div 2"
  have m: "unat mid = (unat low + unat hi) div 2" "unat low < unat hi"
    using mid_bounds [OF lt] lt by (simp_all add: mid word_less_nat_alt)
  then have "unat (mid + 1) = unat mid + 1"
    using unat_u32_bound_numeral [of hi] by (intro u32_succ) linarith
  then show "((a, b, mid + 1, hi), a, b, low, hi) \<in> measure (\<lambda>(a, b, low, hi). unat hi - unat low)"
    using m by simp
  show "((a, b, low, mid), a, b, low, hi) \<in> measure (\<lambda>(a, b, low, hi). unat hi - unat low)"
    using m by simp
qed simp

declare mismatchLoop.simps [simp del]

definition Mismatch :: "Ledger \<Rightarrow> Ledger \<Rightarrow> u32" where
  "Mismatch a b =
     (let upper = (if Seq b < Seq a then Seq b else Seq a);
          lower = (if MinSeq b > MinSeq a then MinSeq b else MinSeq a)
      in if lower > upper then 1
         else let low = mismatchLoop a b lower (upper + 1)
              in if low = lower then 1 else low)"

record SpanTip =
  TipSeq :: u32
  TipID :: LedgerID
  TipLedger :: Ledger

record span =
  sp_start :: u32
  sp_end :: u32
  sp_ledger :: Ledger

definition newSpanFromLedger :: "Ledger \<Rightarrow> span" where
  "newSpanFromLedger l = \<lparr>sp_start = 0, sp_end = Seq l + 1, sp_ledger = l\<rparr>"

definition clamp :: "span \<Rightarrow> u32 \<Rightarrow> u32" where
  "clamp s val = (if val < sp_start s then sp_start s else if val > sp_end s then sp_end s else val)"

definition span_sub :: "span \<Rightarrow> u32 \<Rightarrow> u32 \<Rightarrow> span option" where
  "span_sub s from to =
     (let nf = clamp s from; nt = clamp s to
      in if nf < nt then Some \<lparr>sp_start = nf, sp_end = nt, sp_ledger = sp_ledger s\<rparr> else None)"

definition span_from :: "span \<Rightarrow> u32 \<Rightarrow> span option" where
  "span_from s spot = span_sub s spot (sp_end s)"

definition before :: "span \<Rightarrow> u32 \<Rightarrow> span option" where
  "before s spot = span_sub s (sp_start s) spot"

definition startID :: "span \<Rightarrow> LedgerID" where
  "startID s = Ancestor (sp_ledger s) (sp_start s)"

definition diff :: "span \<Rightarrow> Ledger \<Rightarrow> u32" where
  "diff s o' = clamp s (Mismatch (sp_ledger s) o')"

definition tip :: "span \<Rightarrow> SpanTip" where
  "tip s = (let tipSeq = sp_end s - 1
            in \<lparr>TipSeq = tipSeq, TipID = Ancestor (sp_ledger s) tipSeq, TipLedger = sp_ledger s\<rparr>)"

definition mergeSpans :: "span \<Rightarrow> span \<Rightarrow> span" where
  "mergeSpans a b =
     (let lo = (if sp_start b < sp_start a then sp_start b else sp_start a)
      in if sp_end a < sp_end b then \<lparr>sp_start = lo, sp_end = sp_end b, sp_ledger = sp_ledger b\<rparr>
         else \<lparr>sp_start = lo, sp_end = sp_end a, sp_ledger = sp_ledger a\<rparr>)"

section \<open>Nodes\<close>

datatype node = Node (sp: span) (tipSupport: u32) (branchSupport: u32) (children: "node list")

definition newEmptyNode :: "Ledger \<Rightarrow> node" where
  "newEmptyNode genesis = Node \<lparr>sp_start = 0, sp_end = 1, sp_ledger = genesis\<rparr> 0 0 []"

definition newNodeFromSpan :: "span \<Rightarrow> node" where
  "newNodeFromSpan s = Node s 0 0 []"

text \<open>Swap with the last child and drop the last.\<close>

definition eraseChild :: "nat \<Rightarrow> node list \<Rightarrow> node list" where
  "eraseChild i cs = butlast (cs[i := last cs])"

fun nodeAt :: "nat list \<Rightarrow> node \<Rightarrow> node" where
  "nodeAt [] n = n"
| "nodeAt (i # p) n = nodeAt p (children n ! i)"

text \<open>Replaces the node at a path and adjusts the branch support of the nodes above it.\<close>

fun replaceAt :: "nat list \<Rightarrow> node \<Rightarrow> u32 \<Rightarrow> node \<Rightarrow> node" where
  "replaceAt [] new cnt n = new"
| "replaceAt (i # p) new cnt n =
     Node (sp n) (tipSupport n) (branchSupport n + cnt)
       ((children n)[i := replaceAt p new cnt (children n ! i)])"

section \<open>The trie\<close>

record Trie =
  root :: node
  genesis :: Ledger
  seqSupport :: "(u32 \<times> u32) list"
  seqKeys :: "u32 list"

definition New :: "Ledger \<Rightarrow> Trie" where
  "New g = \<lparr>root = newEmptyNode g, genesis = g, seqSupport = [], seqKeys = []\<rparr>"

definition Empty :: "Trie \<Rightarrow> bool" where
  "Empty t = (branchSupport (root t) = 0)"

text \<open>The descent of \<open>find\<close>: the first child that shares more of the ancestry is entered.\<close>

fun findFrom :: "Ledger \<Rightarrow> node \<Rightarrow> u32 \<Rightarrow> nat list \<times> u32"
  and findChild :: "Ledger \<Rightarrow> node list \<Rightarrow> u32 \<Rightarrow> nat \<Rightarrow> nat list \<times> u32" where
  "findFrom l (Node s t b cs) pos = (if pos = sp_end s then findChild l cs pos 0 else ([], pos))"
| "findChild l [] pos i = ([], pos)"
| "findChild l (c # cs) pos i =
     (let childPos = diff (sp c) l
      in if childPos > pos then (let (p, q) = findFrom l c childPos in (i # p, q))
         else findChild l cs pos (i + 1))"

definition find :: "Trie \<Rightarrow> Ledger \<Rightarrow> nat list \<times> u32" where
  "find t l = findFrom l (root t) (diff (sp (root t)) l)"

fun findByIDWalk :: "node \<Rightarrow> LedgerID \<Rightarrow> nat list option"
  and walkChildren :: "node list \<Rightarrow> LedgerID \<Rightarrow> nat \<Rightarrow> nat list option" where
  "findByIDWalk (Node s t b cs) i = (if TipID (tip s) = i then Some [] else walkChildren cs i 0)"
| "walkChildren [] i k = None"
| "walkChildren (c # cs) i k =
     (case findByIDWalk c i of Some p \<Rightarrow> Some (k # p) | None \<Rightarrow> walkChildren cs i (k + 1))"

definition findByLedgerID :: "Trie \<Rightarrow> Ledger \<Rightarrow> nat list option" where
  "findByLedgerID t l = findByIDWalk (root t) (ID l)"

definition mapGet :: "(u32 \<times> u32) list \<Rightarrow> u32 \<Rightarrow> u32" where
  "mapGet m k = (case map_of m k of Some v \<Rightarrow> v | None \<Rightarrow> 0)"

definition keyIndex :: "u32 list \<Rightarrow> u32 \<Rightarrow> nat" where
  "keyIndex ks k = bsearch (\<lambda>h. \<not> ks ! h < k) 0 (length ks)"

definition seqSupportAdd :: "u32 \<Rightarrow> u32 \<Rightarrow> Trie \<Rightarrow> Trie" where
  "seqSupportAdd sq delta t =
     (let t' = (if map_of (seqSupport t) sq = None
                then let idx = keyIndex (seqKeys t) sq
                     in t\<lparr>seqKeys := take idx (seqKeys t) @ sq # drop idx (seqKeys t)\<rparr>
                else t)
      in t'\<lparr>seqSupport := AList.update sq (mapGet (seqSupport t) sq + delta) (seqSupport t)\<rparr>)"

definition seqSupportSub :: "u32 \<Rightarrow> u32 \<Rightarrow> Trie \<Rightarrow> Trie option" where
  "seqSupportSub sq delta t =
     (case map_of (seqSupport t) sq of
        None \<Rightarrow> None
      | Some v \<Rightarrow>
          if v < delta then None
          else let v' = v - delta
               in if v' = 0
                  then let idx = keyIndex (seqKeys t) sq;
                           found = (idx < length (seqKeys t) \<and> seqKeys t ! idx = sq)
                       in Some (t\<lparr>seqSupport := AList.delete sq (seqSupport t),
                                  seqKeys := (if found then take idx (seqKeys t) @ drop (idx + 1) (seqKeys t)
                                              else seqKeys t)\<rparr>)
                  else Some (t\<lparr>seqSupport := AList.update sq v' (seqSupport t)\<rparr>))"

section \<open>Insertion\<close>

text \<open>The changes to the node that \<open>find\<close> gives, its own branch support included.\<close>

definition splitNode :: "node \<Rightarrow> u32 \<Rightarrow> node option" where
  "splitNode loc diffSeq =
     (case span_from (sp loc) diffSeq of
        None \<Rightarrow> Some loc
      | Some oldSuffix \<Rightarrow>
          (case before (sp loc) diffSeq of
             None \<Rightarrow> None
           | Some prefix \<Rightarrow>
               let sfx = Node oldSuffix (tipSupport loc) (branchSupport loc) (children loc)
               in Some (Node prefix 0 (branchSupport loc) [sfx])))"

definition growNode :: "node \<Rightarrow> Ledger \<Rightarrow> u32 \<Rightarrow> u32 \<Rightarrow> node" where
  "growNode loc l diffSeq cnt =
     (case span_from (newSpanFromLedger l) diffSeq of
        Some newSuffix \<Rightarrow>
          Node (sp loc) (tipSupport loc) (branchSupport loc + cnt)
            (children loc @ [Node newSuffix (0 + cnt) (0 + cnt) []])
      | None \<Rightarrow> Node (sp loc) (tipSupport loc + cnt) (branchSupport loc + cnt) (children loc))"

definition Insert :: "Ledger \<Rightarrow> u32 \<Rightarrow> Trie \<Rightarrow> Trie option" where
  "Insert l cnt t =
     (if cnt = 0 then Some t
      else let (p, diffSeq) = find t l
           in case splitNode (nodeAt p (root t)) diffSeq of
                None \<Rightarrow> None
              | Some loc \<Rightarrow>
                  Some (seqSupportAdd (Seq l) cnt
                    (t\<lparr>root := replaceAt p (growNode loc l diffSeq cnt) cnt (root t)\<rparr>)))"

section \<open>Removal\<close>

text \<open>The supports along the path fall by \<open>count\<close>, then the loop that compacts the trie moves up
  from the node: the flag says whether it is still running at the node returned.\<close>

fun removeAt :: "nat list \<Rightarrow> u32 \<Rightarrow> node \<Rightarrow> node \<times> bool" where
  "removeAt [] cnt n = (Node (sp n) (tipSupport n - cnt) (branchSupport n - cnt) (children n), True)"
| "removeAt (i # p) cnt n =
     (let (c, running) = removeAt p cnt (children n ! i);
          parent = (\<lambda>cs. Node (sp n) (tipSupport n) (branchSupport n - cnt) cs);
          cs = (children n)[i := c]
      in if running \<and> tipSupport c = 0
         then case children c of
                [] \<Rightarrow> (parent (eraseChild i cs), True)
              | [child] \<Rightarrow>
                  let child' = Node (mergeSpans (sp c) (sp child)) (tipSupport child) (branchSupport child) (children child)
                  in (parent (eraseChild i (cs @ [child'])), True)
              | _ \<Rightarrow> (parent cs, False)
         else (parent cs, False))"

definition Remove :: "Ledger \<Rightarrow> u32 \<Rightarrow> Trie \<Rightarrow> (bool \<times> Trie) option" where
  "Remove l cnt t =
     (case findByLedgerID t l of
        None \<Rightarrow> Some (False, t)
      | Some p \<Rightarrow>
          let loc = nodeAt p (root t)
          in if tipSupport loc = 0 then Some (False, t)
             else let cnt' = (if cnt > tipSupport loc then tipSupport loc else cnt)
                  in case seqSupportSub (Seq l) cnt' t of
                       None \<Rightarrow> None
                     | Some t' \<Rightarrow> Some (True, t'\<lparr>root := fst (removeAt p cnt' (root t))\<rparr>))"

section \<open>Queries\<close>

definition TipSupport :: "Trie \<Rightarrow> Ledger \<Rightarrow> u32" where
  "TipSupport t l =
     (case findByLedgerID t l of Some p \<Rightarrow> tipSupport (nodeAt p (root t)) | None \<Rightarrow> 0)"

definition BranchSupport :: "Trie \<Rightarrow> Ledger \<Rightarrow> u32" where
  "BranchSupport t l =
     (case findByLedgerID t l of
        Some p \<Rightarrow> branchSupport (nodeAt p (root t))
      | None \<Rightarrow>
          let (p, diffSeq) = find t l; candidate = nodeAt p (root t)
          in if diffSeq > Seq l \<and> Seq l < sp_end (sp candidate) then branchSupport candidate else 0)"

fun bytesCompare :: "u8 list \<Rightarrow> u8 list \<Rightarrow> int" where
  "bytesCompare (a # as) (b # bs) = (if a < b then -1 else if a > b then 1 else bytesCompare as bs)"
| "bytesCompare [] [] = 0"
| "bytesCompare [] (b # bs) = -1"
| "bytesCompare (a # as) [] = 1"

definition ledgerIDGreater :: "LedgerID \<Rightarrow> LedgerID \<Rightarrow> bool" where
  "ledgerIDGreater a b = (bytesCompare a b > 0)"

definition nodeOutranks :: "node \<Rightarrow> node \<Rightarrow> bool" where
  "nodeOutranks a b =
     (if branchSupport a \<noteq> branchSupport b then branchSupport a > branchSupport b
      else ledgerIDGreater (startID (sp a)) (startID (sp b)))"

text \<open>\<open>for uncommittedIdx < len(seqKeys) && seqKeys[uncommittedIdx] < floor\<close>; the keys from
  \<open>uncommittedIdx\<close> on are the list \<open>rest\<close>.\<close>

fun commitBelow :: "(u32 \<Rightarrow> u32) \<Rightarrow> u32 \<Rightarrow> u32 list \<Rightarrow> u32 \<Rightarrow> u32 list \<times> u32" where
  "commitBelow support floor [] uncommitted = ([], uncommitted)"
| "commitBelow support floor (k # ks) uncommitted =
     (if k < floor then commitBelow support floor ks (uncommitted + support k) else (k # ks, uncommitted))"

fun advance :: "(u32 \<Rightarrow> u32) \<Rightarrow> node \<Rightarrow> u32 list \<Rightarrow> u32 \<Rightarrow> u32 \<Rightarrow> u32 \<times> u32 list \<times> u32" where
  "advance support cur [] nextSeq uncommitted =
     (if nextSeq < sp_end (sp cur) \<and> branchSupport cur > uncommitted then (sp_end (sp cur), [], uncommitted)
      else (nextSeq, [], uncommitted))"
| "advance support cur (k # ks) nextSeq uncommitted =
     (if nextSeq < sp_end (sp cur) \<and> branchSupport cur > uncommitted
      then if k < sp_end (sp cur) then advance support cur ks (k + 1) (uncommitted + support k)
           else (sp_end (sp cur), k # ks, uncommitted)
      else (nextSeq, k # ks, uncommitted))"

fun top2 :: "node list \<Rightarrow> node option \<Rightarrow> node option \<Rightarrow> node option \<times> node option" where
  "top2 [] best second = (best, second)"
| "top2 (c # cs) best second =
     (if best = None \<or> nodeOutranks c (the best) then top2 cs (Some c) best
      else if second = None \<or> nodeOutranks c (the second) then top2 cs best (Some c)
      else top2 cs best second)"

definition bestChild :: "node list \<Rightarrow> (node \<times> u32) option" where
  "bestChild cs =
     (case cs of
        [] \<Rightarrow> None
      | [c] \<Rightarrow> Some (c, branchSupport c)
      | _ \<Rightarrow>
          (case top2 cs None None of
             (Some best, Some second) \<Rightarrow>
               let margin = branchSupport best - branchSupport second
               in Some (best, if ledgerIDGreater (startID (sp best)) (startID (sp second)) then margin + 1 else margin)
           | _ \<Rightarrow> None))"

lemma top2_mem:
  "fst (top2 cs best second) = Some n \<Longrightarrow> n \<in> set cs \<or> best = Some n"
  by (induction cs best second rule: top2.induct) (auto split: if_splits)

lemma bestChild_mem: "bestChild cs = Some (n, margin) \<Longrightarrow> n \<in> set cs"
  using top2_mem [of cs None None n]
  by (auto simp: bestChild_def Let_def split: list.splits option.splits prod.splits)

function preferLoop :: "(u32 \<Rightarrow> u32) \<Rightarrow> u32 \<Rightarrow> node \<Rightarrow> u32 list \<Rightarrow> u32 \<Rightarrow> SpanTip option" where
  "preferLoop support largestIssued cur rest uncommitted =
     (let nextSeq = sp_start (sp cur) + 1;
          floor = (if largestIssued > nextSeq then largestIssued else nextSeq);
          (rest1, uncommitted1) = commitBelow support floor rest uncommitted;
          (nextSeq', rest2, uncommitted2) = advance support cur rest1 nextSeq uncommitted1
      in if nextSeq' < sp_end (sp cur)
         then map_option tip (before (sp cur) nextSeq')
         else case bestChild (children cur) of
                None \<Rightarrow> Some (tip (sp cur))
              | Some (best, margin) \<Rightarrow>
                  if margin > uncommitted2 \<or> uncommitted2 = 0
                  then preferLoop support largestIssued best rest2 uncommitted2
                  else Some (tip (sp cur)))"
  by pat_completeness auto
termination
proof (relation "measure (\<lambda>(support, largestIssued, cur, rest, uncommitted). size cur)", goal_cases)
  case (2 support largestIssued cur)
  then show ?case
    using bestChild_mem [of "children cur"] size_list_estimation' [of _ "children cur"]
    by (cases cur) (force simp: less_Suc_eq_le intro: size_list_estimation')
qed simp

declare preferLoop.simps [simp del]

definition GetPreferred :: "Trie \<Rightarrow> u32 \<Rightarrow> SpanTip option option" where
  "GetPreferred t largestIssued =
     (if Empty t then Some None
      else map_option Some (preferLoop (mapGet (seqSupport t)) largestIssued (root t) (seqKeys t) 0))"

section \<open>The self check\<close>

text \<open>
  The loop over the stack of nodes; the top of the stack is the head of the list, and the flag
  of an entry says that it is the root.  The comparison of a child's parent pointer with the node
  has no counterpart: a child of a node has that node as its parent.
\<close>

lemma sum_size_children: "sum_list (map size (children n)) < size n"
proof -
  have "sum_list (map size cs) \<le> size_list size cs" for cs :: "node list"
    by (induction cs) simp_all
  then show ?thesis
    by (cases n) (simp add: less_Suc_eq_le le_SucI)
qed

function checkNodes :: "(bool \<times> node) list \<Rightarrow> (u32 \<times> u32) list \<Rightarrow> (u32 \<times> u32) list option" where
  "checkNodes [] expected = Some expected"
| "checkNodes ((isRoot, cur) # stack) expected =
     (if \<not> isRoot \<and> tipSupport cur = 0 \<and> length (children cur) < 2 then None
      else let k = sp_end (sp cur) - 1;
               expected' = (if tipSupport cur \<noteq> 0 then AList.update k (mapGet expected k + tipSupport cur) expected
                            else expected);
               support = fold (\<lambda>c acc. acc + branchSupport c) (children cur) (tipSupport cur)
           in if support \<noteq> branchSupport cur then None
              else checkNodes (rev (map (Pair False) (children cur)) @ stack) expected')"
  by pat_completeness auto
termination
proof (relation "measure (\<lambda>(stack, expected). sum_list (map (size \<circ> snd) stack))", goal_cases)
  case (2 isRoot cur stack expected)
  then show ?case
    using sum_size_children [of cur] by (simp add: rev_map [symmetric] comp_def sum_list_rev)
qed simp

definition CheckInvariants :: "Trie \<Rightarrow> bool" where
  "CheckInvariants t =
     (case checkNodes [(True, root t)] [] of
        None \<Rightarrow> False
      | Some expected \<Rightarrow>
          length expected = length (seqSupport t) \<and>
          list_all (\<lambda>(k, v). mapGet (seqSupport t) k = v) expected)"

end
