(* ===== verification/LedgerTrieInv.thy ===== *)
theory LedgerTrieInv
  imports LedgerTrie
begin

text \<open>
  The structure of the ancestry trie: where two ancestries part, the invariant of the nodes, and
  that insertion and removal keep it, account for every unit of support and never panic.  Support
  is summed over the nodes whose span satisfies a predicate on the tip of the span, so that the
  same lemmas give the total support, the support per sequence number and the support per ledger.
\<close>

section \<open>Where two ancestries part\<close>

lemma mismatchLoop_spec:
  assumes "low \<le> hi"
  shows "low \<le> mismatchLoop a b low hi \<and> mismatchLoop a b low hi \<le> hi \<and>
    (mismatchLoop a b low hi < hi \<longrightarrow> Ancestor a (mismatchLoop a b low hi) \<noteq> Ancestor b (mismatchLoop a b low hi)) \<and>
    (low < mismatchLoop a b low hi \<longrightarrow> Ancestor a (mismatchLoop a b low hi - 1) = Ancestor b (mismatchLoop a b low hi - 1))"
  using assms
proof (induction a b low hi rule: mismatchLoop.induct)
  case (1 a b low hi)
  show ?case
  proof (cases "low < hi")
    case False
    then show ?thesis
      using "1.prems" by (simp add: mismatchLoop.simps)
  next
    case True
    define mid where "mid = low + (hi - low) div 2"
    have m: "unat mid = (unat low + unat hi) div 2" "unat low < unat hi"
      using mid_bounds [OF True] True by (simp_all add: mid_def u32_nat)
    then have m1: "unat (mid + 1) = unat mid + 1"
      using unat_u32_bound_numeral [of hi] by (intro u32_succ) linarith
    have le: "low \<le> mid" "mid < hi" "mid + 1 \<le> hi" "low < mid + 1"
      using m m1 by (simp_all add: u32_nat)
    show ?thesis
    proof (cases "Ancestor a mid = Ancestor b mid")
      case eq: True
      let ?r = "mismatchLoop a b (mid + 1) hi"
      have r: "mismatchLoop a b low hi = ?r"
        using True eq by (subst mismatchLoop.simps) (simp add: mid_def Let_def)
      have IH: "mid + 1 \<le> ?r" "?r \<le> hi" "?r < hi \<longrightarrow> Ancestor a ?r \<noteq> Ancestor b ?r"
        "mid + 1 < ?r \<longrightarrow> Ancestor a (?r - 1) = Ancestor b (?r - 1)"
        using "1.IH"(1) [OF True mid_def eq le(3)] by blast+
      have "Ancestor a (?r - 1) = Ancestor b (?r - 1)"
        using IH(1,4) eq by (cases "?r = mid + 1") simp_all
      moreover have "low \<le> ?r"
        using IH(1) le(4) by (meson less_imp_le order_trans)
      ultimately show ?thesis
        unfolding r using IH(2,3) by blast
    next
      case ne: False
      let ?r = "mismatchLoop a b low mid"
      have r: "mismatchLoop a b low hi = ?r"
        using True ne by (subst mismatchLoop.simps) (simp add: mid_def Let_def)
      have IH: "low \<le> ?r" "?r \<le> mid" "?r < mid \<longrightarrow> Ancestor a ?r \<noteq> Ancestor b ?r"
        "low < ?r \<longrightarrow> Ancestor a (?r - 1) = Ancestor b (?r - 1)"
        using "1.IH"(2) [OF True mid_def ne le(1)] by blast+
      have "Ancestor a ?r \<noteq> Ancestor b ?r"
        using IH(2,3) ne by (cases "?r = mid") (simp_all add: order_le_less)
      moreover have "?r \<le> hi"
        using IH(2) le(2) by (meson less_imp_le order_trans)
      ultimately show ?thesis
        unfolding r using IH(1,4) by blast
    qed
  qed
qed

text \<open>The sequence numbers that the trie can hold: the end of a span is one more.\<close>

definition fits :: "Ledger \<Rightarrow> bool" where
  "fits l \<longleftrightarrow> unat (Seq l) < 4294967295"

lemma Mismatch_cases:
  assumes "fits a" "fits b"
  obtains (fallback) "Mismatch a b = 1"
    "\<forall>s. MinSeq a \<le> s \<and> MinSeq b \<le> s \<and> s \<le> Seq a \<and> s \<le> Seq b \<longrightarrow>
      Ancestor a (max (MinSeq a) (MinSeq b)) \<noteq> Ancestor b (max (MinSeq a) (MinSeq b))"
  | (parts) "max (MinSeq a) (MinSeq b) < Mismatch a b"
    "unat (Mismatch a b) \<le> unat (Seq a) + 1" "unat (Mismatch a b) \<le> unat (Seq b) + 1"
    "Ancestor a (Mismatch a b - 1) = Ancestor b (Mismatch a b - 1)"
    "Mismatch a b \<le> Seq a \<Longrightarrow> Mismatch a b \<le> Seq b \<Longrightarrow> Ancestor a (Mismatch a b) \<noteq> Ancestor b (Mismatch a b)"
proof -
  define upper where "upper = (if Seq b < Seq a then Seq b else Seq a)"
  define lower where "lower = max (MinSeq a) (MinSeq b)"
  define low where "low = mismatchLoop a b lower (upper + 1)"
  have "lower = (if MinSeq b > MinSeq a then MinSeq b else MinSeq a)"
    by (auto simp: lower_def max_def)
  then have M: "Mismatch a b = (if lower > upper then 1 else if low = lower then 1 else low)"
    by (simp add: Mismatch_def upper_def low_def Let_def)
  have up: "unat (upper + 1) = unat upper + 1" "upper \<le> Seq a" "upper \<le> Seq b"
    using assms u32_succ [of "Seq a"] u32_succ [of "Seq b"] by (auto simp: upper_def fits_def u32_nat)
  show thesis
  proof (cases "lower \<le> upper")
    case False
    have "lower \<le> upper" if "MinSeq a \<le> s" "MinSeq b \<le> s" "s \<le> Seq a" "s \<le> Seq b" for s
      using that order_trans [of lower s upper] by (simp add: lower_def upper_def)
    then have "\<not> (MinSeq a \<le> s \<and> MinSeq b \<le> s \<and> s \<le> Seq a \<and> s \<le> Seq b)" for s
      using False by blast
    moreover have "Mismatch a b = 1"
      using False M by (simp add: not_le)
    ultimately show ?thesis
      using fallback by blast
  next
    case True
    then have le: "lower \<le> upper + 1"
      using up(1) by (simp add: u32_nat)
    note spec = mismatchLoop_spec [OF le, of a b, folded low_def]
    show ?thesis
    proof (cases "low = lower")
      case eq: True
      have "low < upper + 1"
        using True eq up(1) by (simp add: u32_nat)
      then have "Ancestor a lower \<noteq> Ancestor b lower"
        using spec eq by blast
      moreover have "Mismatch a b = 1"
        using M eq by simp
      ultimately show ?thesis
        using fallback by (simp add: lower_def)
    next
      case ne: False
      have m: "Mismatch a b = low"
        using M True ne by auto
      have lt: "lower < low" "low \<le> upper + 1"
        using spec ne by auto
      have "Ancestor a low \<noteq> Ancestor b low" if "low \<le> Seq a" "low \<le> Seq b"
        using spec that up(1) by (auto simp: u32_nat upper_def split: if_splits)
      moreover have "unat low \<le> unat (Seq a) + 1" "unat low \<le> unat (Seq b) + 1"
        using lt(2) up by (simp_all add: u32_nat)
      ultimately show ?thesis
        using parts spec lt unfolding m by (simp add: lower_def)
    qed
  qed
qed

lemma Mismatch_bounds:
  assumes "fits a" "fits b"
  shows "1 \<le> unat (Mismatch a b)" "unat (Mismatch a b) \<le> unat (Seq a) + 1" "unat (Mismatch a b) \<le> unat (Seq b) + 1"
    and "1 < Mismatch a b \<Longrightarrow> Ancestor a (Mismatch a b - 1) = Ancestor b (Mismatch a b - 1)"
  using assms by (auto elim!: Mismatch_cases [of a b] simp: u32_nat)

section \<open>The invariant of the nodes\<close>

abbreviation st :: "node \<Rightarrow> nat" where
  "st n \<equiv> unat (sp_start (sp n))"

abbreviation en :: "node \<Rightarrow> nat" where
  "en n \<equiv> unat (sp_end (sp n))"

text \<open>A node other than the root has support of its own or at least two children.\<close>

definition compact :: "node \<Rightarrow> bool" where
  "compact n \<longleftrightarrow> tipSupport n \<noteq> 0 \<or> 2 \<le> length (children n)"

fun wfn :: "node \<Rightarrow> bool" where
  "wfn (Node s t b cs) \<longleftrightarrow>
     sp_start s < sp_end s \<and> fits (sp_ledger s) \<and> sp_end s \<le> Seq (sp_ledger s) + 1 \<and>
     b = t + sum_list (map branchSupport cs) \<and>
     (\<forall>c \<in> set cs. sp_start (sp c) = sp_end s \<and> compact c \<and> wfn c)"

text \<open>The support of the nodes whose span satisfies \<open>P\<close>.\<close>

fun wsum :: "(span \<Rightarrow> bool) \<Rightarrow> node \<Rightarrow> nat" where
  "wsum P (Node s t b cs) = (if P s then unat t else 0) + sum_list (map (wsum P) cs)"

abbreviation total :: "node \<Rightarrow> nat" where
  "total \<equiv> wsum (\<lambda>_. True)"

text \<open>A predicate on the tip of a span does not depend on where the span starts.\<close>

definition tip_pred :: "(span \<Rightarrow> bool) \<Rightarrow> bool" where
  "tip_pred P \<longleftrightarrow> (\<forall>s x. P (s\<lparr>sp_start := x\<rparr>) = P s)"

lemma tip_predD: "tip_pred P \<Longrightarrow> sp_end s = sp_end s' \<Longrightarrow> sp_ledger s = sp_ledger s' \<Longrightarrow> P s = P s'"
proof -
  assume P: "tip_pred P" and eq: "sp_end s = sp_end s'" "sp_ledger s = sp_ledger s'"
  have "s' = s\<lparr>sp_start := sp_start s'\<rparr>"
    using eq by simp
  then show ?thesis
    using P unfolding tip_pred_def by metis
qed

fun valid_path :: "nat list \<Rightarrow> node \<Rightarrow> bool" where
  "valid_path [] n = True"
| "valid_path (i # p) n = (i < length (children n) \<and> valid_path p (children n ! i))"

lemma sum_list_update_add:
  "i < length xs \<Longrightarrow> sum_list (map f (xs[i := y])) + f (xs ! i) = sum_list (map f xs) + (f y :: 'b::comm_monoid_add)"
  by (induction xs arbitrary: i) (auto simp: ac_simps split: nat.splits)

lemma wsum_node: "wsum P n = (if P (sp n) then unat (tipSupport n) else 0) + sum_list (map (wsum P) (children n))"
  by (cases n) simp

lemma wfn_node:
  "wfn n \<longleftrightarrow> sp_start (sp n) < sp_end (sp n) \<and> fits (sp_ledger (sp n)) \<and> sp_end (sp n) \<le> Seq (sp_ledger (sp n)) + 1 \<and>
     branchSupport n = tipSupport n + sum_list (map branchSupport (children n)) \<and>
     (\<forall>c \<in> set (children n). sp_start (sp c) = sp_end (sp n) \<and> compact c \<and> wfn c)"
  by (cases n) simp

lemma wsum_replaceAt:
  "valid_path p n \<Longrightarrow> wsum P (replaceAt p new cnt n) + wsum P (nodeAt p n) = wsum P n + wsum P new"
proof (induction p arbitrary: n)
  case (Cons i p)
  have "wsum P (replaceAt p new cnt (children n ! i)) + wsum P (nodeAt p (children n ! i)) =
      wsum P (children n ! i) + wsum P new"
    using Cons by simp
  moreover have "sum_list (map (wsum P) ((children n)[i := replaceAt p new cnt (children n ! i)])) + wsum P (children n ! i) =
      sum_list (map (wsum P) (children n)) + wsum P (replaceAt p new cnt (children n ! i))"
    using Cons.prems by (intro sum_list_update_add) simp
  ultimately show ?case
    by (simp add: wsum_node [of P n])
qed simp

lemma wsum_mono: "(\<And>s. P s \<Longrightarrow> Q s) \<Longrightarrow> wsum P n \<le> wsum Q n"
proof (induction n)
  case (Node s t b cs)
  have "sum_list (map (wsum P) cs) \<le> sum_list (map (wsum Q) cs)"
    using Node by (intro sum_list_mono) blast
  then show ?case
    using Node.prems by (auto intro: add_mono)
qed

lemma wsum_nodeAt: "valid_path p n \<Longrightarrow> wsum P (nodeAt p n) \<le> wsum P n"
proof (induction p arbitrary: n)
  case (Cons i p)
  have "wsum P (children n ! i) \<le> sum_list (map (wsum P) (children n))"
    using Cons.prems by (intro member_le_sum_list) auto
  then show ?case
    using Cons.IH [of "children n ! i"] Cons.prems by (simp add: wsum_node [of P n])
qed simp

lemma sum_list_word_of_nat: "sum_list (map (\<lambda>x. word_of_nat (f x)) xs) = word_of_nat (sum_list (map f xs))"
  by (induction xs) simp_all

lemma branchSupport_total: "wfn n \<Longrightarrow> branchSupport n = word_of_nat (total n)"
proof (induction n)
  case (Node s t b cs)
  have "sum_list (map branchSupport cs) = sum_list (map (\<lambda>c. word_of_nat (total c)) cs)"
    using Node by (intro arg_cong [of _ _ sum_list] map_cong) simp_all
  then show ?case
    using Node.prems by (simp add: sum_list_word_of_nat)
qed

section \<open>The node that an insertion meets\<close>

lemma findChild_cases:
  "(findChild l cs pos i = ([], pos) \<and> (\<forall>c \<in> set cs. \<not> pos < diff (sp c) l)) \<or>
   (\<exists>k p q. k < length cs \<and> pos < diff (sp (cs ! k)) l \<and> (\<forall>j < k. \<not> pos < diff (sp (cs ! j)) l) \<and>
      findFrom l (cs ! k) (diff (sp (cs ! k)) l) = (p, q) \<and> findChild l cs pos i = ((i + k) # p, q))"
proof (induction cs arbitrary: i)
  case (Cons c cs)
  show ?case
  proof (cases "pos < diff (sp c) l")
    case True
    obtain p q where "findFrom l c (diff (sp c) l) = (p, q)"
      by (cases "findFrom l c (diff (sp c) l)")
    then show ?thesis
      using True by (intro disjI2 exI [of _ 0] exI [of _ p] exI [of _ q]) simp
  next
    case False
    from Cons [of "i + 1"] show ?thesis
    proof (elim disjE exE conjE)
      fix k p q
      assume "k < length cs" "pos < diff (sp (cs ! k)) l" "\<forall>j < k. \<not> pos < diff (sp (cs ! j)) l"
        "findFrom l (cs ! k) (diff (sp (cs ! k)) l) = (p, q)" "findChild l cs pos (i + 1) = ((i + 1 + k) # p, q)"
      then show ?thesis
        using False by (intro disjI2 exI [of _ "Suc k"] exI [of _ p] exI [of _ q]) (auto simp: less_Suc_eq_0_disj)
    qed (use False in simp)
  qed
qed simp

text \<open>Induction along the descent of \<open>find\<close>.\<close>

lemma find_induct [consumes 1, case_names stop leaf step]:
  assumes "findFrom l n (diff (sp n) l) = (p, q)"
    and stop: "\<And>n. diff (sp n) l \<noteq> sp_end (sp n) \<Longrightarrow> Q n [] (diff (sp n) l)"
    and leaf: "\<And>n. diff (sp n) l = sp_end (sp n) \<Longrightarrow> \<forall>c \<in> set (children n). \<not> sp_end (sp n) < diff (sp c) l \<Longrightarrow>
      Q n [] (sp_end (sp n))"
    and step: "\<And>n k p q. diff (sp n) l = sp_end (sp n) \<Longrightarrow> k < length (children n) \<Longrightarrow>
      sp_end (sp n) < diff (sp (children n ! k)) l \<Longrightarrow> \<forall>j < k. \<not> sp_end (sp n) < diff (sp (children n ! j)) l \<Longrightarrow>
      Q (children n ! k) p q \<Longrightarrow> Q n (k # p) q"
  shows "Q n p q"
  using assms(1)
proof (induction n arbitrary: p q)
  case (Node s t b cs)
  let ?n = "Node s t b cs"
  show ?case
  proof (cases "diff s l = sp_end s")
    case False
    then show ?thesis
      using stop [of ?n] Node.prems by auto
  next
    case True
    from findChild_cases [of l cs "sp_end s" 0] show ?thesis
    proof (elim disjE exE conjE)
      assume "findChild l cs (sp_end s) 0 = ([], sp_end s)" "\<forall>c \<in> set cs. \<not> sp_end s < diff (sp c) l"
      then show ?thesis
        using leaf [of ?n] True Node.prems by auto
    next
      fix k p' q'
      assume k: "k < length cs" "sp_end s < diff (sp (cs ! k)) l" "\<forall>j < k. \<not> sp_end s < diff (sp (cs ! j)) l"
        "findFrom l (cs ! k) (diff (sp (cs ! k)) l) = (p', q')" "findChild l cs (sp_end s) 0 = ((0 + k) # p', q')"
      have "Q (cs ! k) p' q'"
        using Node.IH k by simp
      then show ?thesis
        using step [of ?n k p' q'] True Node.prems k by simp
    qed
  qed
qed

lemma diff_nat:
  assumes "sp_start s \<le> sp_end s" "sp_start s < diff s l"
  shows "unat (diff s l) = min (unat (Mismatch (sp_ledger s) l)) (unat (sp_end s))"
  using assms by (auto simp: diff_def clamp_def u32_nat split: if_splits)

lemma find_valid:
  assumes "findFrom l n (diff (sp n) l) = (p, q)" "wfn n" "sp_start (sp n) < diff (sp n) l"
  shows "valid_path p n \<and> wfn (nodeAt p n) \<and> q = diff (sp (nodeAt p n)) l \<and> sp_start (sp (nodeAt p n)) < q \<and>
    (p \<noteq> [] \<longrightarrow> compact (nodeAt p n))"
  using assms
proof (induction rule: find_induct)
  case (step n k p q)
  have "wfn (children n ! k) \<and> compact (children n ! k) \<and> sp_start (sp (children n ! k)) = sp_end (sp n)"
    using step(2,6) nth_mem [OF step(2)] by (simp add: wfn_node [of n])
  then show ?case
    using step by (cases p) auto
qed simp_all

section \<open>Splitting and growing a node\<close>

lemma before_eq: "sp_start s < d \<Longrightarrow> d \<le> sp_end s \<Longrightarrow> before s d = Some (s\<lparr>sp_end := d\<rparr>)"
  by (auto simp: before_def span_sub_def clamp_def Let_def)

lemma span_from_eq:
  "sp_start s \<le> d \<Longrightarrow> d \<le> sp_end s \<Longrightarrow> span_from s d = (if d = sp_end s then None else Some (s\<lparr>sp_start := d\<rparr>))"
  by (auto simp: span_from_def span_sub_def clamp_def Let_def)

definition split_at :: "node \<Rightarrow> u32 \<Rightarrow> node" where
  "split_at n d =
     (if d = sp_end (sp n) then n
      else Node ((sp n)\<lparr>sp_end := d\<rparr>) 0 (branchSupport n)
        [Node ((sp n)\<lparr>sp_start := d\<rparr>) (tipSupport n) (branchSupport n) (children n)])"

lemma splitNode_eq:
  assumes "sp_start (sp n) < d" "d \<le> sp_end (sp n)"
  shows "splitNode n d = Some (split_at n d)"
  using assms by (simp add: splitNode_def split_at_def span_from_eq before_eq less_imp_le)

lemma split_at_simps [simp]:
  "branchSupport (split_at n d) = branchSupport n" "sp_end (sp (split_at n d)) = d"
  "sp_start (sp (split_at n d)) = sp_start (sp n)" "sp_ledger (sp (split_at n d)) = sp_ledger (sp n)"
  by (simp_all add: split_at_def)

lemma split_at_wfn:
  assumes "wfn n" "sp_start (sp n) < d" "d \<le> sp_end (sp n)" "d = sp_end (sp n) \<or> compact n"
  shows "wfn (split_at n d)"
  using assms by (cases n) (auto simp: split_at_def compact_def)

lemma split_at_wsum: "tip_pred P \<Longrightarrow> wsum P (split_at n d) = wsum P n"
  by (cases n) (auto simp: split_at_def tip_pred_def)

text \<open>The span of the node that receives the support.\<close>

definition inc_span :: "node \<Rightarrow> Ledger \<Rightarrow> u32 \<Rightarrow> span" where
  "inc_span n l d = (if d = Seq l + 1 then sp n else (newSpanFromLedger l)\<lparr>sp_start := d\<rparr>)"

lemma growNode_eq:
  assumes "d \<le> Seq l + 1"
  shows "growNode n l d cnt =
    (if d = Seq l + 1 then Node (sp n) (tipSupport n + cnt) (branchSupport n + cnt) (children n)
     else Node (sp n) (tipSupport n) (branchSupport n + cnt)
       (children n @ [Node ((newSpanFromLedger l)\<lparr>sp_start := d\<rparr>) cnt cnt []]))"
proof -
  have "span_from (newSpanFromLedger l) d =
      (if d = Seq l + 1 then None else Some ((newSpanFromLedger l)\<lparr>sp_start := d\<rparr>))"
    using assms by (subst span_from_eq) (simp_all add: newSpanFromLedger_def)
  then show ?thesis
    by (simp add: growNode_def)
qed

lemma growNode_wsum:
  assumes "d \<le> Seq l + 1" "unat (tipSupport n) + unat cnt < 2 ^ 32"
  shows "wsum P (growNode n l d cnt) = wsum P n + (if P (inc_span n l d) then unat cnt else 0)"
  using assms by (cases n) (simp add: growNode_eq inc_span_def unat_add_fits)

lemma growNode_wfn:
  assumes "wfn n" "sp_end (sp n) = d" "d \<le> Seq l + 1" "fits l" "cnt \<noteq> 0" 
  shows "wfn (growNode n l d cnt)"
proof -
  have "d < Seq l + 1" if "d \<noteq> Seq l + 1"
    using assms(3) that by simp
  then show ?thesis
    using assms by (cases n) (auto simp: growNode_eq newSpanFromLedger_def compact_def ac_simps)
qed

lemma add_fits_nonzero: "unat t + unat cnt < 2 ^ 32 \<Longrightarrow> cnt \<noteq> 0 \<Longrightarrow> t + cnt \<noteq> (0 :: u32)"
  using unat_add_fits [of t cnt] by (auto simp: unat_eq_0)

lemma growNode_compact:
  assumes "compact n \<or> d \<noteq> sp_end (sp n)" "d \<le> Seq l + 1" "unat (tipSupport n) + unat cnt < 2 ^ 32" "cnt \<noteq> 0"
  shows "compact (growNode (split_at n d) l d cnt)"
  using assms add_fits_nonzero [OF assms(3,4)] by (auto simp: growNode_eq split_at_def compact_def)

lemma growNode_simps [simp]: "sp (growNode n l d cnt) = sp n" "branchSupport (growNode n l d cnt) = branchSupport n + cnt"
  by (simp_all add: growNode_def split: option.split)

lemma replaceAt_wfn:
  assumes "valid_path p n" "wfn n" "wfn new" "sp_start (sp new) = sp_start (sp (nodeAt p n))"
    "p = [] \<or> compact new" "branchSupport new = branchSupport (nodeAt p n) + cnt"
  shows "wfn (replaceAt p new cnt n) \<and> branchSupport (replaceAt p new cnt n) = branchSupport n + cnt \<and>
    sp_start (sp (replaceAt p new cnt n)) = sp_start (sp n) \<and> (p \<noteq> [] \<longrightarrow> sp (replaceAt p new cnt n) = sp n) \<and>
    (compact n \<longrightarrow> p \<noteq> [] \<longrightarrow> compact (replaceAt p new cnt n))"
  using assms
proof (induction p arbitrary: n)
  case (Cons i p)
  let ?c = "children n ! i"
  let ?c' = "replaceAt p new cnt ?c"
  have i: "i < length (children n)" "?c \<in> set (children n)"
    using Cons.prems(1) by simp_all
  have c: "sp_start (sp ?c) = sp_end (sp n)" "compact ?c" "wfn ?c"
    using Cons.prems(2) i(2) by (simp_all add: wfn_node [of n])
  have IH: "wfn ?c'" "branchSupport ?c' = branchSupport ?c + cnt" "sp_start (sp ?c') = sp_start (sp ?c)"
    "compact ?c \<longrightarrow> p \<noteq> [] \<longrightarrow> compact ?c'"
    using Cons.IH [of ?c] Cons.prems c by auto
  have "compact ?c'"
    using IH(4) c(2) Cons.prems(5) by (cases p) auto
  moreover have "sum_list (map branchSupport ((children n)[i := ?c'])) = sum_list (map branchSupport (children n)) + cnt"
    using sum_list_update_add [OF i(1), of branchSupport ?c'] by (simp add: IH(2))
  ultimately show ?case
    using Cons.prems(2) IH(1,3) c(1) set_update_subset_insert [of "children n" i ?c']
    by (auto simp: wfn_node [of n] compact_def)
qed simp

section \<open>Support per sequence number\<close>

abbreviation seqsum :: "u32 \<Rightarrow> node \<Rightarrow> nat" where
  "seqsum k \<equiv> wsum (\<lambda>s. sp_end s - 1 = k)"

definition seq_inv :: "(u32 \<Rightarrow> nat) \<Rightarrow> Trie \<Rightarrow> bool" where
  "seq_inv f t \<longleftrightarrow> distinct (map fst (seqSupport t)) \<and> sorted (seqKeys t) \<and> distinct (seqKeys t) \<and>
     set (seqKeys t) = fst ` set (seqSupport t) \<and>
     (\<forall>k. f k < 2 ^ 32 \<and> map_of (seqSupport t) k = (if f k = 0 then None else Some (word_of_nat (f k))))"

lemma keyIndex_split:
  assumes "sorted ks"
  shows "keyIndex ks k \<le> length ks" "\<forall>x \<in> set (take (keyIndex ks k) ks). x < k" "\<forall>x \<in> set (drop (keyIndex ks k) ks). k \<le> x"
proof -
  have split: "\<not> ks ! i < k \<longleftrightarrow> keyIndex ks k \<le> i" if "i < length ks" for i
    unfolding keyIndex_def
    by (rule bsearch_split) (use assms that in \<open>auto simp: sorted_iff_nth_mono dest: le_less_trans\<close>)
  show "keyIndex ks k \<le> length ks"
    using bsearch_bounds [of 0 "length ks"] by (simp add: keyIndex_def)
  show "\<forall>x \<in> set (take (keyIndex ks k) ks). x < k"
    using split by (force simp: in_set_conv_nth)
  show "\<forall>x \<in> set (drop (keyIndex ks k) ks). k \<le> x"
    using split by (auto simp: in_set_conv_nth not_less [symmetric])
qed

lemma insert_key:
  assumes "sorted ks" "distinct ks" "k \<notin> set ks"
  defines "ks' \<equiv> take (keyIndex ks k) ks @ k # drop (keyIndex ks k) ks"
  shows "sorted ks'" "distinct ks'" "set ks' = insert k (set ks)"
proof -
  let ?a = "take (keyIndex ks k) ks" and ?b = "drop (keyIndex ks k) ks"
  have ks: "ks = ?a @ ?b"
    by simp
  have ord: "\<forall>x \<in> set ?a. x < k" "\<forall>x \<in> set ?b. k \<le> x"
    using keyIndex_split [OF assms(1)] by blast+
  have "sorted (?a @ ?b)" "distinct (?a @ ?b)"
    using assms(1,2) by simp_all
  then have parts: "sorted ?a" "sorted ?b" "distinct ?a" "distinct ?b" "set ?a \<inter> set ?b = {}"
    unfolding sorted_append distinct_append by blast+
  show set: "set ks' = insert k (set ks)"
    using set_append [of ?a ?b] by (simp add: ks'_def)
  show "sorted ks'"
    unfolding ks'_def sorted_append using parts ord by (force simp del: append_take_drop_id intro: less_imp_le order_trans)
  have "k \<notin> set ?a" "k \<notin> set ?b"
    using assms(3) by (meson in_set_takeD in_set_dropD)+
  then show "distinct ks'"
    using parts by (simp add: ks'_def)
qed

lemma delete_key:
  assumes "sorted ks" "distinct ks" "k \<in> set ks"
  defines "i \<equiv> keyIndex ks k"
  shows "i < length ks \<and> ks ! i = k" "sorted (take i ks @ drop (i + 1) ks)" "distinct (take i ks @ drop (i + 1) ks)"
    "set (take i ks @ drop (i + 1) ks) = set ks - {k}"
proof -
  have le: "i \<le> length ks" "\<forall>x \<in> set (take i ks). x < k" "\<forall>x \<in> set (drop i ks). k \<le> x"
    using keyIndex_split [OF assms(1)] by (simp_all add: i_def)
  obtain j where j: "j < length ks" "ks ! j = k"
    using assms(3) by (auto simp: in_set_conv_nth)
  have "i \<le> j"
    using le(2) j nth_mem [of j "take i ks"] by (force simp: not_le [symmetric])
  then have "i < length ks" "ks ! i \<in> set (drop i ks)" "ks ! i \<le> ks ! j"
    using j assms(1) by (auto simp: sorted_iff_nth_mono in_set_conv_nth intro!: exI [of _ 0])
  then show ik: "i < length ks \<and> ks ! i = k"
    using le(3) j by force
  have ks: "ks = take i ks @ k # drop (i + 1) ks"
    using id_take_nth_drop [of i ks] ik by simp
  have "sorted (take i ks @ k # drop (i + 1) ks)" "distinct (take i ks @ k # drop (i + 1) ks)"
    using assms(1,2) ks by metis+
  then show "sorted (take i ks @ drop (i + 1) ks)" "distinct (take i ks @ drop (i + 1) ks)"
    by (auto simp: sorted_append simp del: append_take_drop_id)
  have "set ks = set (take i ks @ k # drop (i + 1) ks)"
    using ks by metis
  then show "set (take i ks @ drop (i + 1) ks) = set ks - {k}"
    using \<open>distinct (take i ks @ k # drop (i + 1) ks)\<close> by auto
qed

lemma dom_delete: "fst ` set (AList.delete k al) = fst ` set al - {k}"
  by (metis delete_keys list.set_map set_removeAll)

lemma seqSupportAdd_inv:
  assumes "seq_inv f t" "f sq + unat d < 2 ^ 32" "d \<noteq> 0"
  shows "seq_inv (f(sq := f sq + unat d)) (seqSupportAdd sq d t)"
proof -
  have inv: "distinct (map fst (seqSupport t))" "sorted (seqKeys t)" "distinct (seqKeys t)"
    "set (seqKeys t) = fst ` set (seqSupport t)"
    "f k < 2 ^ 32 \<and> map_of (seqSupport t) k = (if f k = 0 then None else Some (word_of_nat (f k)))" for k
    using assms(1) by (simp_all add: seq_inv_def)
  have d: "0 < unat d"
    using assms(3) by (simp add: unat_gt_0)
  have val: "mapGet (seqSupport t) sq + d = word_of_nat (f sq + unat d)"
    using inv(5) [of sq] by (auto simp: mapGet_def)
  have mem: "sq \<in> set (seqKeys t) \<longleftrightarrow> f sq \<noteq> 0"
    using inv(4) inv(5) [of sq] map_of_eq_None_iff [of "seqSupport t" sq] by (cases "f sq = 0") auto
  show ?thesis
  proof (cases "f sq = 0")
    case True
    then have "map_of (seqSupport t) sq = None"
      using inv(5) [of sq] by simp
    then show ?thesis
      using insert_key [OF inv(2,3), of sq] mem True inv d assms(2) unfolding seq_inv_def seqSupportAdd_def Let_def val
      by (simp add: update_conv' dom_update distinct_update)
  next
    case False
    then have "map_of (seqSupport t) sq \<noteq> None"
      using inv(5) [of sq] by simp
    then show ?thesis
      using mem False inv d assms(2) unfolding seq_inv_def seqSupportAdd_def Let_def val
      by (auto simp: update_conv' dom_update distinct_update)
  qed
qed

lemma seqSupportSub_inv:
  assumes "seq_inv f t" "unat d \<le> f sq" "0 < f sq"
  shows "\<exists>t'. seqSupportSub sq d t = Some t' \<and> seq_inv (f(sq := f sq - unat d)) t' \<and> root t' = root t \<and> genesis t' = genesis t"
proof -
  have inv: "distinct (map fst (seqSupport t))" "sorted (seqKeys t)" "distinct (seqKeys t)"
    "set (seqKeys t) = fst ` set (seqSupport t)"
    "f k < 2 ^ 32 \<and> map_of (seqSupport t) k = (if f k = 0 then None else Some (word_of_nat (f k)))" for k
    using assms(1) by (simp_all add: seq_inv_def)
  have f: "f sq \<noteq> 0"
    using assms(3) by simp
  have cur: "map_of (seqSupport t) sq = Some (word_of_nat (f sq))" "unat (word_of_nat (f sq) :: u32) = f sq"
    using inv(5) [of sq] f by (simp_all add: unat_u32_of_nat)
  have mem: "sq \<in> set (seqKeys t)"
    using inv(4) cur(1) by (force dest: map_of_SomeD)
  have le: "\<not> word_of_nat (f sq) < d"
    using assms(2) cur(2) by (simp add: u32_nat)
  have val: "word_of_nat (f sq) - d = word_of_nat (f sq - unat d)"
    using assms(2) by (simp add: of_nat_diff)
  have zero: "word_of_nat (f sq - unat d) = (0 :: u32) \<longleftrightarrow> f sq - unat d = 0"
    using inv(5) [of sq] unat_u32_of_nat [of "f sq - unat d"] by (auto simp: unat_eq_0 [symmetric])
  show ?thesis
  proof (cases "f sq = unat d")
    case True
    then show ?thesis
      using delete_key [OF inv(2,3) mem] inv cur le f
      by (simp add: seqSupportSub_def Let_def val seq_inv_def delete_conv' distinct_delete dom_delete)
  next
    case False
    let ?t = "t\<lparr>seqSupport := AList.update sq (word_of_nat (f sq - unat d)) (seqSupport t)\<rparr>"
    have lt: "unat d < f sq"
      using False assms(2) by simp
    then have "seqSupportSub sq d t = Some ?t"
      unfolding seqSupportSub_def cur(1) option.case Let_def val using le zero by (simp del: of_nat_diff)
    moreover have "seq_inv (f(sq := f sq - unat d)) ?t"
      unfolding seq_inv_def using inv mem lt less_imp_diff_less [of "f sq" "2 ^ 32" "unat d"]
      by (simp add: update_conv' dom_update distinct_update insert_absorb)
    ultimately show ?thesis
      by simp
  qed
qed

section \<open>Insertion\<close>

definition trie_inv :: "Trie \<Rightarrow> bool" where
  "trie_inv t \<longleftrightarrow> wfn (root t) \<and> sp (root t) = \<lparr>sp_start = 0, sp_end = 1, sp_ledger = genesis t\<rparr> \<and>
     seq_inv (\<lambda>k. seqsum k (root t)) t \<and> total (root t) < 2 ^ 32"

lemma trie_inv_New: "fits g \<Longrightarrow> trie_inv (New g)"
  by (simp add: trie_inv_def New_def newEmptyNode_def seq_inv_def fits_def u32_nat u32_succ)

lemma tip_pred_seq [simp]: "tip_pred (\<lambda>s. sp_end s - 1 = k)" "tip_pred (\<lambda>_. True)"
  by (simp_all add: tip_pred_def)

lemma diff_root:
  assumes "trie_inv t" "fits l"
  shows "diff (sp (root t)) l = 1"
proof -
  have "fits (genesis t)"
    using assms(1) wfn_node [of "root t"] by (auto simp: trie_inv_def)
  then have "1 \<le> Mismatch (genesis t) l"
    using Mismatch_bounds(1) [of "genesis t" l] assms(2) by (simp add: u32_nat)
  then have "\<not> 1 < Mismatch (genesis t) l \<Longrightarrow> Mismatch (genesis t) l = 1"
    by (meson order_antisym not_less)
  moreover have "sp (root t) = \<lparr>sp_start = 0, sp_end = 1, sp_ledger = genesis t\<rparr>"
    using assms(1) by (simp add: trie_inv_def)
  ultimately show ?thesis
    by (simp add: diff_def clamp_def)
qed

text \<open>Everything about the node at which \<open>find\<close> stops.\<close>

lemma find_location:
  assumes "trie_inv t" "fits l" "find t l = (p, d)"
  defines "loc \<equiv> nodeAt p (root t)"
  shows "valid_path p (root t)" "wfn loc" "p = [] \<or> compact loc" "p = [] \<longrightarrow> d = sp_end (sp loc)"
    "sp_start (sp loc) < d" "d \<le> sp_end (sp loc)" "d \<le> Mismatch (sp_ledger (sp loc)) l" "d \<le> Seq l + 1"
    "d = diff (sp loc) l"
proof -
  have root: "wfn (root t)" "diff (sp (root t)) l = 1" "sp_start (sp (root t)) = 0" "sp_end (sp (root t)) = 1"
    using assms(1) diff_root [OF assms(1,2)] by (simp_all add: trie_inv_def)
  have find: "findFrom l (root t) (diff (sp (root t)) l) = (p, d)"
    using assms(3) by (simp add: find_def)
  note valid = find_valid [OF find root(1), unfolded root(2,3), simplified, folded loc_def]
  show "valid_path p (root t)" "wfn loc" "p = [] \<or> compact loc" "d = diff (sp loc) l" and start: "sp_start (sp loc) < d"
    using valid by auto
  have d: "unat d = min (unat (Mismatch (sp_ledger (sp loc)) l)) (unat (sp_end (sp loc)))"
    using diff_nat [of "sp loc" l] valid wfn_node [of loc] by (metis less_imp_le)
  then show "d \<le> sp_end (sp loc)" "d \<le> Mismatch (sp_ledger (sp loc)) l"
    by (simp_all add: u32_nat)
  have "fits (sp_ledger (sp loc))"
    using valid by (simp add: wfn_node [of loc])
  then have "unat (Mismatch (sp_ledger (sp loc)) l) \<le> unat (Seq l) + 1"
    using Mismatch_bounds(3) assms(2) by blast
  then show "d \<le> Seq l + 1"
    using d assms(2) by (simp add: u32_nat fits_def u32_succ)
  show "p = [] \<longrightarrow> d = sp_end (sp loc)"
    using valid root loc_def by auto
qed

lemma inc_span_ends:
  assumes "trie_inv t" "fits l" "find t l = (p, d)"
  defines "loc \<equiv> split_at (nodeAt p (root t)) d"
  shows "sp_end (inc_span loc l d) = Seq l + 1"
    "Seq l \<noteq> 0 \<Longrightarrow> Ancestor (sp_ledger (inc_span loc l d)) (Seq l) = Ancestor l (Seq l)"
proof -
  let ?L = "sp_ledger (sp (nodeAt p (root t)))"
  show "sp_end (inc_span loc l d) = Seq l + 1"
    by (simp add: inc_span_def loc_def newSpanFromLedger_def)
  assume "Seq l \<noteq> 0"
  show "Ancestor (sp_ledger (inc_span loc l d)) (Seq l) = Ancestor l (Seq l)"
  proof (cases "d = Seq l + 1")
    case True
    note loc = find_location [OF assms(1-3)]
    have L: "fits ?L"
      using loc(2) by (simp add: wfn_node [of "nodeAt p (root t)"])
    have "unat (Mismatch ?L l) = unat (Seq l) + 1"
      using Mismatch_bounds(3) [OF L assms(2)] loc(7) True assms(2) by (simp add: fits_def u32_nat u32_succ)
    then have "Mismatch ?L l = Seq l + 1"
      using assms(2) by (simp add: word_unat_eq_iff fits_def u32_succ)
    then show ?thesis
      using Mismatch_bounds(4) [OF L assms(2)] True \<open>Seq l \<noteq> 0\<close> assms(2)
      by (simp add: inc_span_def loc_def fits_def u32_nat u32_succ unat_gt_0)
  next
    case False
    then show ?thesis
      by (simp add: inc_span_def newSpanFromLedger_def)
  qed
qed

lemma tip_le_total: "valid_path p n \<Longrightarrow> unat (tipSupport (nodeAt p n)) \<le> total n"
  using wsum_nodeAt [of p n "\<lambda>_. True"] by (simp add: wsum_node [of _ "nodeAt p n"])

lemma seqSupportAdd_simps [simp]: "root (seqSupportAdd k d t) = root t" "genesis (seqSupportAdd k d t) = genesis t"
  by (simp_all add: seqSupportAdd_def Let_def)

lemma seq_inv_root [simp]: "seq_inv f (t\<lparr>root := r\<rparr>) = seq_inv f t"
  by (simp add: seq_inv_def)

lemma Insert_spec:
  assumes "trie_inv t" "fits l" "total (root t) + unat cnt < 2 ^ 32" "cnt \<noteq> 0" "find t l = (p, d)"
  defines "loc \<equiv> split_at (nodeAt p (root t)) d"
  defines "t' \<equiv> seqSupportAdd (Seq l) cnt (t\<lparr>root := replaceAt p (growNode loc l d cnt) cnt (root t)\<rparr>)"
  shows "Insert l cnt t = Some t'" "trie_inv t'" "genesis t' = genesis t"
    "root t' = replaceAt p (growNode loc l d cnt) cnt (root t)"
    "tip_pred P \<Longrightarrow> wsum P (root t') = wsum P (root t) + (if P (inc_span loc l d) then unat cnt else 0)"
proof -
  let ?n = "nodeAt p (root t)" and ?g = "growNode loc l d cnt"
  note loc = find_location [OF assms(1,2,5)]
  show "genesis t' = genesis t" and root: "root t' = replaceAt p ?g cnt (root t)"
    by (simp_all add: t'_def)
  show "Insert l cnt t = Some t'"
    using assms(4,5) splitNode_eq [OF loc(5,6)] by (simp add: Insert_def t'_def loc_def)
  have tip: "unat (tipSupport ?n) + unat cnt < 2 ^ 32"
    using tip_le_total [OF loc(1)] assms(3) by simp
  then have tip': "unat (tipSupport loc) + unat cnt < 2 ^ 32"
    using assms(3) by (auto simp: loc_def split_at_def)
  have wsum: "wsum Q (root t') = wsum Q (root t) + (if Q (inc_span loc l d) then unat cnt else 0)" if "tip_pred Q" for Q
    using wsum_replaceAt [OF loc(1), of Q ?g cnt] growNode_wsum [OF loc(8) tip', of Q] split_at_wsum [OF that, of ?n d]
    by (simp add: root loc_def)
  then show "tip_pred P \<Longrightarrow> wsum P (root t') = wsum P (root t) + (if P (inc_span loc l d) then unat cnt else 0)" .
  have "wfn ?g" "p = [] \<or> compact ?g"
    using split_at_wfn [OF loc(2,5,6)] growNode_wfn [of loc d l cnt] growNode_compact [OF _ loc(8) tip assms(4)] loc assms(2,4)
    by (auto simp: loc_def)
  then have wfn: "wfn (root t')" "p \<noteq> [] \<Longrightarrow> sp (root t') = sp (root t)"
    using replaceAt_wfn [OF loc(1) _ \<open>wfn ?g\<close>, of cnt] assms(1) by (simp_all add: root trie_inv_def loc_def)
  have "sp (root t') = sp (root t)"
    using wfn(2) loc(4) by (cases p) (simp_all add: root loc_def split_at_def)
  moreover have "seq_inv (\<lambda>k. seqsum k (root t')) t'"
  proof -
    have "seqsum (Seq l) (root t) + unat cnt < 2 ^ 32"
      using wsum_mono [of "\<lambda>s. sp_end s - 1 = Seq l" "\<lambda>_. True" "root t"] assms(3) by simp
    then have "seq_inv ((\<lambda>k. seqsum k (root t))(Seq l := seqsum (Seq l) (root t) + unat cnt)) t'"
      using seqSupportAdd_inv [of "\<lambda>k. seqsum k (root t)" "t\<lparr>root := replaceAt p ?g cnt (root t)\<rparr>" "Seq l" cnt] assms(1,4)
      by (simp add: t'_def trie_inv_def)
    moreover have "(\<lambda>k. seqsum k (root t'))= (\<lambda>k. seqsum k (root t))(Seq l := seqsum (Seq l) (root t) + unat cnt)"
      using wsum [OF tip_pred_seq(1)] inc_span_ends(1) [OF assms(1,2,5)] by (auto simp: loc_def)
    ultimately show ?thesis
      by simp
  qed
  ultimately show "trie_inv t'"
    using wfn(1) assms(1,3) wsum [OF tip_pred_seq(2)] by (simp add: trie_inv_def t'_def)
qed

section \<open>Compaction\<close>

lemma mset_eraseChild:
  assumes "i < length cs"
  shows "mset (eraseChild i cs) = mset cs - {#cs ! i#}"
proof -
  have ne: "cs[i := last cs] \<noteq> []"
    using assms by auto
  have "mset (cs[i := last cs]) = add_mset (last cs) (mset cs - {#cs ! i#})"
    using assms by (simp add: mset_update)
  moreover have "mset (cs[i := last cs]) = add_mset (last (cs[i := last cs])) (mset (eraseChild i cs))"
    using arg_cong [OF append_butlast_last_id [OF ne], of mset] unfolding eraseChild_def mset_append by simp
  moreover have "last (cs[i := last cs]) = last cs"
    using assms by (subst last_list_update) auto
  ultimately show ?thesis
    by simp
qed

lemma eraseChild_facts:
  assumes "i < length cs"
  shows "sum_list (map f (eraseChild i cs)) + f (cs ! i) = sum_list (map (f :: node \<Rightarrow> 'b::comm_monoid_add) cs)"
    "set (eraseChild i cs) \<subseteq> set cs" "length (eraseChild i cs) = length cs - 1"
proof -
  have m: "mset cs = add_mset (cs ! i) (mset (eraseChild i cs))"
    using assms by (simp add: mset_eraseChild)
  then have "sum_mset (image_mset f (mset cs)) = f (cs ! i) + sum_mset (image_mset f (mset (eraseChild i cs)))"
    by simp
  then show "sum_list (map f (eraseChild i cs)) + f (cs ! i) = sum_list (map f cs)"
    by (simp only: mset_map [symmetric] sum_mset_sum_list add.commute)
  show "set (eraseChild i cs) \<subseteq> set cs"
    using m by (metis set_mset_mset set_mset_add_mset_insert subset_insertI)
  show "length (eraseChild i cs) = length cs - 1"
    by (simp add: eraseChild_def)
qed

lemma mergeSpans_eq:
  "sp_start c < sp_end c \<Longrightarrow> sp_start g = sp_end c \<Longrightarrow> sp_start g < sp_end g \<Longrightarrow> mergeSpans c g = g\<lparr>sp_start := sp_start c\<rparr>"
  by (auto simp: mergeSpans_def Let_def)

text \<open>How the loop changes the children of a node after the child \<open>i\<close> has become \<open>c\<close>.\<close>

definition compacted :: "node \<Rightarrow> bool \<Rightarrow> nat \<Rightarrow> node list \<Rightarrow> node list" where
  "compacted c running i cs =
     (if running \<and> tipSupport c = 0
      then case children c of
             [] \<Rightarrow> eraseChild i (cs[i := c])
           | [g] \<Rightarrow> eraseChild i (cs[i := c] @ [Node (mergeSpans (sp c) (sp g)) (tipSupport g) (branchSupport g) (children g)])
           | _ \<Rightarrow> cs[i := c]
      else cs[i := c])"

lemma removeAt_Cons:
  assumes "removeAt p cnt (children n ! i) = (c, running)"
  shows "fst (removeAt (i # p) cnt n) = Node (sp n) (tipSupport n) (branchSupport n - cnt) (compacted c running i (children n))"
    "\<not> snd (removeAt (i # p) cnt n) \<Longrightarrow> compacted c running i (children n) = (children n)[i := c]"
  using assms by (auto simp: compacted_def Let_def split: list.splits if_splits)

text \<open>What the children of a node are after the loop: the other children, and what is left of \<open>c\<close>.\<close>

lemma compacted_cases:
  assumes "i < length cs" "wfn c"
  obtains (none) "mset (compacted c running i cs) = mset cs - {#cs ! i#}" "tipSupport c = 0" "children c = []"
  | (same) "mset (compacted c running i cs) = add_mset c (mset cs - {#cs ! i#})" "running \<longrightarrow> compact c"
  | (merged) g where "mset (compacted c running i cs) =
      add_mset (Node ((sp g)\<lparr>sp_start := sp_start (sp c)\<rparr>) (tipSupport g) (branchSupport g) (children g)) (mset cs - {#cs ! i#})"
      "tipSupport c = 0" "children c = [g]"
proof -
  have upd: "mset (cs[i := c]) = add_mset c (mset cs - {#cs ! i#})"
    using assms(1) by (simp add: mset_update)
  show thesis
  proof (cases "running \<and> tipSupport c = 0")
    case False
    then show ?thesis
      using same upd by (auto simp: compacted_def compact_def)
  next
    case True
    consider "children c = []" | g where "children c = [g]" | "2 \<le> length (children c)"
      by (cases "children c" rule: remdups_adj.cases) auto
    then show ?thesis
    proof cases
      case 1
      then have "compacted c running i cs = eraseChild i (cs[i := c])"
        using True by (simp add: compacted_def)
      then show ?thesis
        using none True 1 mset_eraseChild [of i "cs[i := c]"] assms(1) upd by simp
    next
      case (2 g)
      then have "mergeSpans (sp c) (sp g) = (sp g)\<lparr>sp_start := sp_start (sp c)\<rparr>"
        using assms(2) wfn_node [of c] wfn_node [of g] by (intro mergeSpans_eq) auto
      then have "compacted c running i cs = eraseChild i (cs[i := c] @ [Node ((sp g)\<lparr>sp_start := sp_start (sp c)\<rparr>)
          (tipSupport g) (branchSupport g) (children g)])" (is "_ = eraseChild i (_ @ [?g])")
        using True 2 by (simp add: compacted_def)
      moreover have "mset (eraseChild i (cs[i := c] @ [?g])) = add_mset ?g (mset cs - {#cs ! i#})"
        using mset_eraseChild [of i "cs[i := c] @ [?g]"] assms(1) upd by (simp add: nth_append)
      ultimately show ?thesis
        using merged 2 True by simp
    next
      case 3
      then have "compacted c running i cs = cs[i := c]"
        using True by (auto simp: compacted_def split: list.splits)
      then show ?thesis
        using same upd 3 by (simp add: compact_def)
    qed
  qed
qed

lemma compacted_spec:
  assumes "i < length cs" "wfn c" "running \<or> compact c"
  obtains X where "mset (compacted c running i cs) = X + (mset cs - {#cs ! i#})"
    "sum_mset (image_mset branchSupport X) = branchSupport c"
    "\<And>P. tip_pred P \<Longrightarrow> sum_mset (image_mset (wsum P) X) = wsum P c"
    "\<forall>x \<in># X. sp_start (sp x) = sp_start (sp c) \<and> wfn x \<and> compact x" "size X \<le> 1"
    "\<forall>x \<in># X. x = c \<or> (\<exists>g. children c = [g] \<and>
       x = Node ((sp g)\<lparr>sp_start := sp_start (sp c)\<rparr>) (tipSupport g) (branchSupport g) (children g))"
  using assms(1,2)
proof (cases rule: compacted_cases [of i cs c running])
  case none
  then show ?thesis
    using that [of "{#}"] assms(2) by (simp add: wfn_node [of c] wsum_node [of _ c])
next
  case same
  then show ?thesis
    using that [of "{#c#}"] assms(2,3) by auto
next
  case (merged g)
  let ?g = "Node ((sp g)\<lparr>sp_start := sp_start (sp c)\<rparr>) (tipSupport g) (branchSupport g) (children g)"
  have g: "sp_start (sp g) = sp_end (sp c)" "compact g" "wfn g" "sp_start (sp c) < sp_end (sp c)"
    "branchSupport c = branchSupport g"
    using assms(2) merged(2,3) wfn_node [of c] by simp_all
  have "sp_start (sp c) < sp_end (sp g)"
    using g(1,3,4) wfn_node [of g] by (metis less_trans)
  then have "wfn ?g"
    using g(3) wfn_node [of g] by simp
  moreover have "wsum P ?g = wsum P c" if "tip_pred P" for P
    using merged(2,3) that by (simp add: wsum_node [of P c] wsum_node [of P g] tip_pred_def)
  moreover have "compact ?g"
    using g(2) by (simp add: compact_def)
  ultimately show ?thesis
    using that [of "{#?g#}"] merged g(5) by simp
qed

lemma sum_swap:
  fixes f :: "node \<Rightarrow> 'b::comm_monoid_add"
  assumes "mset ys = X + (mset cs - {#cs ! i#})" "i < length cs"
  shows "sum_list (map f ys) + f (cs ! i) = sum_list (map f cs) + sum_mset (image_mset f X)"
proof -
  have "mset ys + {#cs ! i#} = X + mset cs"
    using assms by (simp add: union_assoc)
  then have "sum_mset (image_mset f (mset ys + {#cs ! i#})) = sum_mset (image_mset f (X + mset cs))"
    by simp
  then show ?thesis
    by (simp add: mset_map [symmetric] sum_mset_sum_list ac_simps del: mset_map)
qed

lemma removeAt_spec:
  assumes "valid_path p n" "wfn n" "cnt \<le> tipSupport (nodeAt p n)" "removeAt p cnt n = (n', running)"
  shows "wfn n' \<and> sp n' = sp n \<and> branchSupport n' = branchSupport n - cnt \<and> (running \<or> (compact n \<longrightarrow> compact n')) \<and>
    (\<forall>P. tip_pred P \<longrightarrow> wsum P n' + (if P (sp (nodeAt p n)) then unat cnt else 0) = wsum P n)"
  using assms
proof (induction p arbitrary: n n' running)
  case Nil
  then have n': "n' = Node (sp n) (tipSupport n - cnt) (branchSupport n - cnt) (children n)" "running"
    by simp_all
  have "unat (tipSupport n - cnt) + unat cnt = unat (tipSupport n)"
    using Nil.prems(3) by (simp add: unat_sub u32_nat)
  then show ?case
    using Nil.prems(2) wfn_node [of n] by (simp add: n' wsum_node [of _ n])
next
  case (Cons i p)
  obtain c r where c: "removeAt p cnt (children n ! i) = (c, r)"
    by (cases "removeAt p cnt (children n ! i)")
  have i: "i < length (children n)" "children n ! i \<in> set (children n)"
    using Cons.prems(1) by simp_all
  have ci: "sp_start (sp (children n ! i)) = sp_end (sp n)" "compact (children n ! i)" "wfn (children n ! i)"
    using Cons.prems(2) i(2) by (simp_all add: wfn_node [of n])
  have IH: "wfn c" "sp c = sp (children n ! i)" "branchSupport c = branchSupport (children n ! i) - cnt" "r \<or> compact c"
    "\<And>P. tip_pred P \<Longrightarrow> wsum P c + (if P (sp (nodeAt (i # p) n)) then unat cnt else 0) = wsum P (children n ! i)"
    using Cons.IH [OF _ ci(3) _ c] Cons.prems(1,3) ci(2) by auto
  let ?cs = "compacted c r i (children n)"
  have n': "n' = Node (sp n) (tipSupport n) (branchSupport n - cnt) ?cs"
    "\<not> running \<Longrightarrow> ?cs = (children n)[i := c]"
    using removeAt_Cons [OF c] Cons.prems(4) by (metis fst_conv, metis snd_conv)
  obtain X where X: "mset ?cs = X + (mset (children n) - {#children n ! i#})"
    "sum_mset (image_mset branchSupport X) = branchSupport c"
    "\<And>P. tip_pred P \<Longrightarrow> sum_mset (image_mset (wsum P) X) = wsum P c"
    "\<forall>x \<in># X. sp_start (sp x) = sp_start (sp c) \<and> wfn x \<and> compact x"
    by (rule compacted_spec [OF i(1) IH(1,4)]) blast
  have "set ?cs \<subseteq> set_mset X \<union> set (children n)"
    using arg_cong [OF X(1), of set_mset] by (auto dest: in_diffD)
  then have "\<forall>x \<in> set ?cs. sp_start (sp x) = sp_end (sp n) \<and> compact x \<and> wfn x"
    using X(4) IH(2) ci(1) Cons.prems(2) wfn_node [of n] by auto
  moreover have "sum_list (map branchSupport ?cs) = sum_list (map branchSupport (children n)) - cnt"
    using sum_swap [OF X(1) i(1), of branchSupport] X(2) IH(3) by (simp add: algebra_simps)
  moreover have "wsum P n' + (if P (sp (nodeAt (i # p) n)) then unat cnt else 0) = wsum P n" if "tip_pred P" for P
    using sum_swap [OF X(1) i(1), of "wsum P"] X(3) [OF that] IH(5) [OF that] by (simp add: n'(1) wsum_node [of P n])
  moreover have "running \<or> (compact n \<longrightarrow> compact n')"
    using n' by (cases running) (simp_all add: compact_def)
  ultimately show ?case
    using Cons.prems(2) wfn_node [of n] by (auto simp: n'(1))
qed

section \<open>Looking a ledger up by its identifier\<close>

abbreviation idsum :: "LedgerID \<Rightarrow> node \<Rightarrow> nat" where
  "idsum i \<equiv> wsum (\<lambda>s. TipID (tip s) = i)"

lemma walkChildren_cases:
  "(walkChildren cs i k = None \<and> (\<forall>c \<in> set cs. findByIDWalk c i = None)) \<or>
   (\<exists>j p. walkChildren cs i k = Some ((k + j) # p) \<and> j < length cs \<and> findByIDWalk (cs ! j) i = Some p)"
proof (induction cs arbitrary: k)
  case (Cons c cs)
  show ?case
  proof (cases "findByIDWalk c i")
    case None
    from Cons [of "k + 1"] show ?thesis
    proof (elim disjE exE conjE)
      fix j p
      assume "walkChildren cs i (k + 1) = Some ((k + 1 + j) # p)" "j < length cs" "findByIDWalk (cs ! j) i = Some p"
      then show ?thesis
        using None by (intro disjI2 exI [of _ "Suc j"] exI [of _ p]) simp
    qed (use None in simp)
  next
    case (Some p)
    then show ?thesis
      by (intro disjI2 exI [of _ 0] exI [of _ p]) simp
  qed
qed simp

lemma findByIDWalk_Some:
  "findByIDWalk n i = Some p \<Longrightarrow> valid_path p n \<and> TipID (tip (sp (nodeAt p n))) = i"
proof (induction n arbitrary: p)
  case (Node s t b cs)
  show ?case
  proof (cases "TipID (tip s) = i")
    case False
    then obtain j p' where "p = j # p'" "j < length cs" "findByIDWalk (cs ! j) i = Some p'"
      using Node.prems walkChildren_cases [of cs i 0] by auto
    then show ?thesis
      using Node.IH [of "cs ! j" p'] by simp
  qed (use Node.prems in simp)
qed

lemma findByIDWalk_None: "findByIDWalk n i = None \<Longrightarrow> valid_path p n \<Longrightarrow> TipID (tip (sp (nodeAt p n))) \<noteq> i"
proof (induction n arbitrary: p)
  case (Node s t b cs)
  have "TipID (tip s) \<noteq> i" "\<forall>c \<in> set cs. findByIDWalk c i = None"
    using Node.prems(1) walkChildren_cases [of cs i 0] by (auto split: if_splits)
  then show ?case
    using Node.prems(2) Node.IH by (cases p) simp_all
qed

lemma wsum_zero: "(\<And>p. valid_path p n \<Longrightarrow> \<not> P (sp (nodeAt p n))) \<Longrightarrow> wsum P n = 0"
proof (induction n)
  case (Node s t b cs)
  have "wsum P c = 0" if c: "c \<in> set cs" for c
  proof (rule Node.IH [OF c])
    fix p
    assume "valid_path p c"
    moreover obtain j where "j < length cs" "cs ! j = c"
      using c by (auto simp: in_set_conv_nth)
    ultimately show "\<not> P (sp (nodeAt p c))"
      using Node.prems [of "j # p"] by simp
  qed
  moreover have "\<not> P s"
    using Node.prems [of "[]"] by simp
  ultimately show ?case
    by simp
qed

section \<open>Removal\<close>

text \<open>The tip that bears the identifier of \<open>l\<close> is at the sequence number of \<open>l\<close>.\<close>

definition id_at_seq :: "node \<Rightarrow> Ledger \<Rightarrow> bool" where
  "id_at_seq n l \<longleftrightarrow> (\<forall>p. valid_path p n \<longrightarrow> TipID (tip (sp (nodeAt p n))) = ID l \<longrightarrow> sp_end (sp (nodeAt p n)) - 1 = Seq l)"

lemma Remove_spec:
  assumes "trie_inv t" "id_at_seq (root t) l"
  obtains (absent) "Remove l cnt t = Some (False, t)" "TipSupport t l = 0"
  | (present) p t' n where "findByLedgerID t l = Some p" "0 < tipSupport (nodeAt p (root t))"
      "n = min cnt (tipSupport (nodeAt p (root t)))"
      "Remove l cnt t = Some (True, t')" "root t' = fst (removeAt p n (root t))" "trie_inv t'" "genesis t' = genesis t"
      "\<And>P. tip_pred P \<Longrightarrow> wsum P (root t') + (if P (sp (nodeAt p (root t))) then unat n else 0) = wsum P (root t)"
proof (cases "findByLedgerID t l")
  case None
  then show ?thesis
    using absent by (simp add: Remove_def TipSupport_def)
next
  case (Some p)
  let ?n = "nodeAt p (root t)"
  have p: "valid_path p (root t)" "TipID (tip (sp ?n)) = ID l"
    using findByIDWalk_Some Some by (auto simp: findByLedgerID_def)
  have seq: "sp_end (sp ?n) - 1 = Seq l"
    using assms(2) p by (simp add: id_at_seq_def)
  show ?thesis
  proof (cases "tipSupport ?n = 0")
    case True
    then show ?thesis
      using absent Some by (simp add: Remove_def TipSupport_def)
  next
    case False
    define n where "n = min cnt (tipSupport ?n)"
    obtain r run where r: "removeAt p n (root t) = (r, run)"
      by (cases "removeAt p n (root t)")
    have inv: "wfn (root t)" "seq_inv (\<lambda>k. seqsum k (root t)) t" "total (root t) < 2 ^ 32"
      "sp (root t) = \<lparr>sp_start = 0, sp_end = 1, sp_ledger = genesis t\<rparr>"
      using assms(1) by (simp_all add: trie_inv_def)
    have le: "n \<le> tipSupport ?n"
      by (simp add: n_def)
    note spec = removeAt_spec [OF p(1) inv(1) le r]
    have tip: "unat (tipSupport ?n) \<le> seqsum (Seq l) (root t)"
      using wsum_nodeAt [OF p(1), of "\<lambda>s. sp_end s - 1 = Seq l"] seq by (simp add: wsum_node [of _ ?n])
    have pos: "0 < unat (tipSupport ?n)"
      using False by (simp add: unat_gt_0)
    have "unat n \<le> seqsum (Seq l) (root t)" "0 < seqsum (Seq l) (root t)"
      using tip le pos by (simp_all add: u32_nat)
    then obtain t1 where t1: "seqSupportSub (Seq l) n t = Some t1" "root t1 = root t" "genesis t1 = genesis t"
      "seq_inv ((\<lambda>k. seqsum k (root t))(Seq l := seqsum (Seq l) (root t) - unat n)) t1"
      using seqSupportSub_inv [OF inv(2)] by blast
    have sums: "wsum P r + (if P (sp ?n) then unat n else 0) = wsum P (root t)" if "tip_pred P" for P
      using spec that by blast
    have "seqsum k (root t) = seqsum k r + (if Seq l = k then unat n else 0)" for k
      using sums [OF tip_pred_seq(1), of k] seq by simp
    then have "(\<lambda>k. seqsum k (root t))(Seq l := seqsum (Seq l) (root t) - unat n) = (\<lambda>k. seqsum k r)"
      by (intro ext) simp
    moreover have "total r \<le> total (root t)"
      using sums [OF tip_pred_seq(2)] by simp
    ultimately have "trie_inv (t1\<lparr>root := r\<rparr>)"
      using t1 spec inv by (simp add: trie_inv_def)
    moreover have "(if tipSupport ?n < cnt then tipSupport ?n else cnt) = n"
      by (auto simp: n_def min_def)
    then have "Remove l cnt t = Some (True, t1\<lparr>root := r\<rparr>)"
      using Some False t1(1) r by (simp add: Remove_def Let_def)
    ultimately show ?thesis
      using present [OF Some _ n_def, of "t1\<lparr>root := r\<rparr>"] r t1(3) sums pos False by (simp add: word_gt_0)
  qed
qed

section \<open>The self check\<close>

definition counts :: "(u32 \<Rightarrow> nat) \<Rightarrow> (u32 \<times> u32) list \<Rightarrow> bool" where
  "counts f m \<longleftrightarrow> distinct (map fst m) \<and> (\<forall>k. map_of m k = (if f k = 0 then None else Some (word_of_nat (f k))))"

lemma counts_update:
  assumes "counts f m" "t \<noteq> 0"
  shows "counts (f(k := f k + unat t)) (AList.update k (mapGet m k + t) m)"
proof -
  have "mapGet m k + t = word_of_nat (f k + unat t)"
    using assms(1) by (simp add: counts_def mapGet_def)
  moreover have "f k + unat t \<noteq> 0"
    using assms(2) by (simp add: unat_eq_0)
  ultimately show ?thesis
    using assms(1) by (simp add: counts_def update_conv' distinct_update)
qed

lemma fold_branchSupport: "fold (\<lambda>c acc. acc + branchSupport c) cs t = t + sum_list (map branchSupport cs)"
  by (induction cs arbitrary: t) (simp_all add: ac_simps)

lemma checkNodes_counts:
  assumes "counts f expected" "\<forall>(isRoot, n) \<in> set stack. wfn n \<and> (isRoot \<or> compact n)"
  shows "\<exists>expected'. checkNodes stack expected = Some expected' \<and>
    counts (\<lambda>k. f k + sum_list (map (\<lambda>(isRoot, n). seqsum k n) stack)) expected'"
  using assms
proof (induction stack expected arbitrary: f rule: checkNodes.induct)
  case (2 isRoot cur stack expected)
  let ?k = "sp_end (sp cur) - 1"
  let ?ex = "if tipSupport cur \<noteq> 0 then AList.update ?k (mapGet expected ?k + tipSupport cur) expected else expected"
  let ?f = "f(?k := f ?k + unat (tipSupport cur))"
  have cur: "wfn cur" "isRoot \<or> compact cur"
    using "2.prems"(2) by auto
  have ok: "\<not> (\<not> isRoot \<and> tipSupport cur = 0 \<and> length (children cur) < 2)"
    using cur(2) by (auto simp: compact_def)
  have sup: "\<not> fold (\<lambda>c acc. acc + branchSupport c) (children cur) (tipSupport cur) \<noteq> branchSupport cur"
    using cur(1) wfn_node [of cur] by (simp add: fold_branchSupport)
  have ex: "counts ?f ?ex"
    using counts_update [OF "2.prems"(1), of "tipSupport cur" ?k] "2.prems"(1) by simp
  have "\<forall>(isRoot, n) \<in> set (rev (map (Pair False) (children cur)) @ stack). wfn n \<and> (isRoot \<or> compact n)"
    using "2.prems"(2) cur(1) wfn_node [of cur] by auto
  from "2.IH" [OF ok refl refl refl sup ex this] obtain ex' where
    ex': "checkNodes (rev (map (Pair False) (children cur)) @ stack) ?ex = Some ex'"
    "counts (\<lambda>k. ?f k + sum_list (map (\<lambda>(isRoot, n). seqsum k n) (rev (map (Pair False) (children cur)) @ stack))) ex'"
    by blast
  have "(\<lambda>k. ?f k + sum_list (map (\<lambda>(isRoot, n). seqsum k n) (rev (map (Pair False) (children cur)) @ stack))) =
      (\<lambda>k. f k + sum_list (map (\<lambda>(isRoot, n). seqsum k n) ((isRoot, cur) # stack)))"
    by (rule ext) (simp add: rev_map [symmetric] sum_list_rev comp_def wsum_node [of _ cur])
  then have "counts (\<lambda>k. f k + sum_list (map (\<lambda>(isRoot, n). seqsum k n) ((isRoot, cur) # stack))) ex'"
    using ex'(2) by simp
  moreover have "checkNodes ((isRoot, cur) # stack) expected = Some ex'"
    using ex'(1) ok sup by (simp add: Let_def)
  ultimately show ?case
    by blast
qed simp

lemma trie_inv_CheckInvariants:
  assumes "trie_inv t"
  shows "CheckInvariants t"
proof -
  have "counts (\<lambda>_. 0) []" "wfn (root t)"
    using assms by (simp_all add: counts_def trie_inv_def)
  then have "\<exists>ex. checkNodes [(True, root t)] [] = Some ex \<and> counts (\<lambda>k. seqsum k (root t)) ex"
    using checkNodes_counts [of "\<lambda>_. 0" "[]" "[(True, root t)]"] by (simp del: checkNodes.simps)
  then obtain ex where ex: "checkNodes [(True, root t)] [] = Some ex" "counts (\<lambda>k. seqsum k (root t)) ex"
    by blast
  have seq: "counts (\<lambda>k. seqsum k (root t)) (seqSupport t)"
    using assms by (simp add: trie_inv_def seq_inv_def counts_def)
  have eq: "map_of ex = map_of (seqSupport t)"
    by (rule ext) (use ex(2) seq in \<open>simp add: counts_def\<close>)
  then have "dom (map_of ex) = dom (map_of (seqSupport t))"
    by simp
  then have "set (map fst ex) = set (map fst (seqSupport t))"
    by (simp add: dom_map_of_conv_image_fst)
  moreover have "distinct (map fst ex)" "distinct (map fst (seqSupport t))"
    using ex(2) seq by (simp_all add: counts_def)
  ultimately have "length (map fst ex) = length (map fst (seqSupport t))"
    by (metis distinct_card)
  then have "length ex = length (seqSupport t)"
    by simp
  moreover have "mapGet (seqSupport t) k = v" if "(k, v) \<in> set ex" for k v
    using that ex(2) eq map_of_is_SomeI [of ex k v] by (simp add: mapGet_def counts_def)
  ultimately show ?thesis
    using ex(1) by (auto simp: CheckInvariants_def list_all_iff)
qed

end
