(* ===== verification/LedgerTrieSem.thy ===== *)
theory LedgerTrieSem
  imports LedgerTrieInv
begin

text \<open>
  What the trie stands for.  The ledgers come from a family with the contract that the \<open>Ledger\<close>
  interface documents as unique history: where two ancestries have the same identifier they are
  the same further back, as far as both are known.  The ancestries may be partial, but all of them
  reach back to a common sequence number \<open>c\<close>, at which they agree.  Then every branch of the trie
  is the common ancestry of the ledgers below it, and the trie refines a count of support per
  ledger.
\<close>

section \<open>Agreement of ancestries\<close>

text \<open>The ancestries agree from \<open>c\<close> on and below the sequence number \<open>n\<close>.\<close>

definition agree :: "u32 \<Rightarrow> Ledger \<Rightarrow> Ledger \<Rightarrow> nat \<Rightarrow> bool" where
  "agree c a b n \<longleftrightarrow> (\<forall>s. c \<le> s \<longrightarrow> unat s < n \<longrightarrow> Ancestor a s = Ancestor b s)"

lemma agree_refl [simp]: "agree c a a n"
  by (simp add: agree_def)

lemma agree_sym: "agree c a b n \<Longrightarrow> agree c b a n"
  by (simp add: agree_def)

lemma agree_trans: "agree c a b n \<Longrightarrow> agree c b d n \<Longrightarrow> agree c a d n"
  by (simp add: agree_def)

lemma agree_mono: "agree c a b n \<Longrightarrow> m \<le> n \<Longrightarrow> agree c a b m"
  by (simp add: agree_def)

section \<open>The spans of the nodes\<close>

fun all_sp :: "(span \<Rightarrow> bool) \<Rightarrow> node \<Rightarrow> bool" where
  "all_sp P (Node s t b cs) \<longleftrightarrow> P s \<and> (\<forall>d \<in> set cs. all_sp P d)"

lemma all_sp_node: "all_sp P n \<longleftrightarrow> P (sp n) \<and> (\<forall>d \<in> set (children n). all_sp P d)"
  by (cases n) simp

lemma all_sp_nodeAt: "all_sp P n \<Longrightarrow> valid_path p n \<Longrightarrow> all_sp P (nodeAt p n)"
proof (induction p arbitrary: n)
  case (Cons i p)
  then show ?case
    using all_sp_node [of P n] by simp
qed simp

lemma all_sp_replaceAt: "all_sp P n \<Longrightarrow> valid_path p n \<Longrightarrow> all_sp P new \<Longrightarrow> all_sp P (replaceAt p new cnt n)"
proof (induction p arbitrary: n)
  case (Cons i p)
  have "all_sp P (replaceAt p new cnt (children n ! i))"
    using Cons all_sp_node [of P n] by simp
  then show ?case
    using Cons.prems(1) all_sp_node [of P n] set_update_subset_insert [of "children n" i] by auto
qed simp

lemma all_sp_split_at:
  assumes "tip_pred P" "all_sp P n" "P ((sp n)\<lparr>sp_end := d\<rparr>)"
  shows "all_sp P (split_at n d)"
  using assms by (cases n) (simp add: split_at_def tip_pred_def)

lemma all_sp_growNode:
  assumes "tip_pred P" "all_sp P n" "P (newSpanFromLedger l)" "d \<le> Seq l + 1"
  shows "all_sp P (growNode n l d cnt)"
  using assms by (cases n) (auto simp: growNode_eq tip_pred_def)

text \<open>One step up of a removal, with all that \<open>compacted_spec\<close> says about the new children.\<close>

lemma removeAt_step:
  assumes "valid_path (i # p) n" "wfn n" "cnt \<le> tipSupport (nodeAt (i # p) n)"
  obtains c r X where "removeAt p cnt (children n ! i) = (c, r)" "wfn c" "sp c = sp (children n ! i)"
    "fst (removeAt (i # p) cnt n) = Node (sp n) (tipSupport n) (branchSupport n - cnt) (compacted c r i (children n))"
    "mset (compacted c r i (children n)) = X + (mset (children n) - {#children n ! i#})" "size X \<le> 1"
    "\<forall>x \<in># X. sp_start (sp x) = sp_start (sp c) \<and>
       (x = c \<or> (\<exists>g. children c = [g] \<and>
          x = Node ((sp g)\<lparr>sp_start := sp_start (sp c)\<rparr>) (tipSupport g) (branchSupport g) (children g)))"
proof -
  obtain c r where c: "removeAt p cnt (children n ! i) = (c, r)"
    by (cases "removeAt p cnt (children n ! i)")
  have i: "i < length (children n)" "children n ! i \<in> set (children n)"
    using assms(1) by simp_all
  have ci: "compact (children n ! i)" "wfn (children n ! i)"
    using assms(2) i(2) wfn_node [of n] by simp_all
  have spec: "wfn c" "sp c = sp (children n ! i)" "r \<or> compact c"
    using removeAt_spec [OF _ ci(2) _ c] assms(1,3) ci(1) by auto
  obtain X where "mset (compacted c r i (children n)) = X + (mset (children n) - {#children n ! i#})" "size X \<le> 1"
    "\<forall>x \<in># X. sp_start (sp x) = sp_start (sp c) \<and> wfn x \<and> compact x"
    "\<forall>x \<in># X. x = c \<or> (\<exists>g. children c = [g] \<and>
       x = Node ((sp g)\<lparr>sp_start := sp_start (sp c)\<rparr>) (tipSupport g) (branchSupport g) (children g))"
    by (rule compacted_spec [OF i(1) spec(1,3)]) blast
  then show ?thesis
    using that [OF c spec(1,2) removeAt_Cons(1) [OF c]] by blast
qed

lemma set_compacted:
  assumes "mset ys = X + (mset cs - {#cs ! i#})"
  shows "set ys \<subseteq> set_mset X \<union> set cs"
  using arg_cong [OF assms, of set_mset] by (auto dest: in_diffD)

lemma all_sp_removeAt:
  assumes "tip_pred P"
  shows "valid_path p n \<Longrightarrow> wfn n \<Longrightarrow> cnt \<le> tipSupport (nodeAt p n) \<Longrightarrow> all_sp P n \<Longrightarrow> all_sp P (fst (removeAt p cnt n))"
proof (induction p arbitrary: n)
  case Nil
  then show ?case
    by (simp add: all_sp_node [of P n])
next
  case (Cons i p)
  obtain d r X where step: "removeAt p cnt (children n ! i) = (d, r)" "wfn d" "sp d = sp (children n ! i)"
    "fst (removeAt (i # p) cnt n) = Node (sp n) (tipSupport n) (branchSupport n - cnt) (compacted d r i (children n))"
    "mset (compacted d r i (children n)) = X + (mset (children n) - {#children n ! i#})" "size X \<le> 1"
    "\<forall>x \<in># X. sp_start (sp x) = sp_start (sp d) \<and>
       (x = d \<or> (\<exists>g. children d = [g] \<and>
          x = Node ((sp g)\<lparr>sp_start := sp_start (sp d)\<rparr>) (tipSupport g) (branchSupport g) (children g)))"
    by (rule removeAt_step [OF Cons.prems(1-3)]) (rule that)
  have "wfn (children n ! i)" "all_sp P (children n ! i)"
    using Cons.prems(1,2,4) wfn_node [of n] all_sp_node [of P n] by simp_all
  then have d: "all_sp P d"
    using Cons.IH [of "children n ! i"] Cons.prems(1,3) step(1) by simp
  have "all_sp P x" if x: "x \<in># X" for x
  proof (cases "x = d")
    case False
    then obtain g where "children d = [g]"
      "x = Node ((sp g)\<lparr>sp_start := sp_start (sp d)\<rparr>) (tipSupport g) (branchSupport g) (children g)"
      using step(7) x by blast
    then show ?thesis
      using d assms all_sp_node [of P d] all_sp_node [of P g] by (simp add: tip_pred_def)
  qed (use d in simp)
  then show ?case
    unfolding step(4) using set_compacted [OF step(5)] Cons.prems(4) all_sp_node [of P n] by auto
qed

section \<open>Branches\<close>

text \<open>The children of a node continue its ancestry, they start with different identifiers, and a
  node with several children ends at \<open>c\<close> or later.\<close>

fun branches :: "u32 \<Rightarrow> node \<Rightarrow> bool" where
  "branches c (Node s t b cs) \<longleftrightarrow>
     (\<forall>d \<in> set cs. agree c (sp_ledger (sp d)) (sp_ledger s) (unat (sp_end s)) \<and> branches c d) \<and>
     distinct (map (\<lambda>d. startID (sp d)) cs) \<and> (c \<le> sp_end s \<or> length cs \<le> 1)"

lemma branches_node:
  "branches c n \<longleftrightarrow>
     (\<forall>d \<in> set (children n). agree c (sp_ledger (sp d)) (sp_ledger (sp n)) (en n) \<and> branches c d) \<and>
     distinct (map (\<lambda>d. startID (sp d)) (children n)) \<and> (c \<le> sp_end (sp n) \<or> length (children n) \<le> 1)"
  by (cases n) simp

lemma branches_nodeAt: "branches c n \<Longrightarrow> valid_path p n \<Longrightarrow> branches c (nodeAt p n)"
proof (induction p arbitrary: n)
  case (Cons i p)
  then show ?case
    using branches_node [of c n] by simp
qed simp

lemma branches_replaceAt:
  assumes "branches c n" "valid_path p n" "branches c new" "sp_ledger (sp new) = sp_ledger (sp (nodeAt p n))"
    "sp_start (sp new) = sp_start (sp (nodeAt p n))"
  shows "branches c (replaceAt p new cnt n) \<and> sp_ledger (sp (replaceAt p new cnt n)) = sp_ledger (sp n) \<and>
    sp_start (sp (replaceAt p new cnt n)) = sp_start (sp n)"
  using assms
proof (induction p arbitrary: n)
  case (Cons i p)
  let ?d = "children n ! i" and ?d' = "replaceAt p new cnt (children n ! i)"
  have i: "i < length (children n)" "?d \<in> set (children n)"
    using Cons.prems(2) by simp_all
  have d: "agree c (sp_ledger (sp ?d)) (sp_ledger (sp n)) (en n)" "branches c ?d"
    using Cons.prems(1) i(2) branches_node [of c n] by simp_all
  have IH: "branches c ?d'" "sp_ledger (sp ?d') = sp_ledger (sp ?d)" "sp_start (sp ?d') = sp_start (sp ?d)"
    using Cons.IH [of ?d] Cons.prems d(2) by simp_all
  have "map (\<lambda>d. startID (sp d)) ((children n)[i := ?d']) = map (\<lambda>d. startID (sp d)) (children n)"
    using i(1) IH by (intro nth_equalityI) (auto simp: nth_list_update startID_def)
  then show ?case
    using Cons.prems(1) branches_node [of c n] IH d(1) set_update_subset_insert [of "children n" i ?d'] by auto
qed simp

lemma branches_split_at: "branches c n \<Longrightarrow> branches c (split_at n d)"
  by (cases n) (simp add: split_at_def)

lemma distinct_mset_sub:
  assumes "mset xs \<subseteq># mset ys" "distinct ys"
  shows "distinct xs"
  unfolding distinct_count_atmost_1
proof
  fix x
  have "count (mset xs) x \<le> count (mset ys) x"
    using assms(1) by (rule mset_subset_eq_count)
  moreover have "count (mset ys) x = (if x \<in> set ys then 1 else 0)"
    using assms(2) by (simp add: distinct_count_atmost_1)
  moreover have "set xs \<subseteq> set ys"
    using set_mset_mono [OF assms(1)] by simp
  ultimately show "count (mset xs) x = (if x \<in> set xs then 1 else 0)"
    by (auto simp: le_Suc_eq)
qed

lemma startID_merged:
  assumes "wfn n" "branches c n" "children n = [g]" "c \<le> sp_start (sp n)"
  shows "Ancestor (sp_ledger (sp g)) (sp_start (sp n)) = startID (sp n)"
  using assms wfn_node [of n] branches_node [of c n] by (simp add: startID_def agree_def word_less_nat_alt)

lemma branches_removeAt:
  "valid_path p n \<Longrightarrow> wfn n \<Longrightarrow> cnt \<le> tipSupport (nodeAt p n) \<Longrightarrow> branches c n \<Longrightarrow> branches c (fst (removeAt p cnt n))"
proof (induction p arbitrary: n)
  case Nil
  then show ?case
    by (simp add: branches_node [of c n])
next
  case (Cons i p)
  obtain d r X where step: "removeAt p cnt (children n ! i) = (d, r)" "wfn d" "sp d = sp (children n ! i)"
    "fst (removeAt (i # p) cnt n) = Node (sp n) (tipSupport n) (branchSupport n - cnt) (compacted d r i (children n))"
    "mset (compacted d r i (children n)) = X + (mset (children n) - {#children n ! i#})" "size X \<le> 1"
    "\<forall>x \<in># X. sp_start (sp x) = sp_start (sp d) \<and>
       (x = d \<or> (\<exists>g. children d = [g] \<and>
          x = Node ((sp g)\<lparr>sp_start := sp_start (sp d)\<rparr>) (tipSupport g) (branchSupport g) (children g)))"
    by (rule removeAt_step [OF Cons.prems(1-3)]) (rule that)
  let ?c = "children n ! i" and ?f = "\<lambda>d. startID (sp d)"
  have i: "i < length (children n)" "?c \<in> set (children n)"
    using Cons.prems(1) by simp_all
  have ci: "wfn ?c" "branches c ?c" "agree c (sp_ledger (sp ?c)) (sp_ledger (sp n)) (en n)" "sp_start (sp ?c) = sp_end (sp n)"
    using i(2) Cons.prems(2,4) wfn_node [of n] branches_node [of c n] by simp_all
  then have d: "branches c d"
    using Cons.IH [of ?c] Cons.prems(1,3) step(1) by simp
  have X: "branches c x \<and> agree c (sp_ledger (sp x)) (sp_ledger (sp n)) (en n) \<and>
      (c \<le> sp_end (sp n) \<longrightarrow> ?f x = ?f ?c)" if x: "x \<in># X" for x
  proof (cases "x = d")
    case True
    then show ?thesis
      using d ci(3) step(3) by simp
  next
    case False
    then obtain g where g: "children d = [g]"
      "x = Node ((sp g)\<lparr>sp_start := sp_start (sp d)\<rparr>) (tipSupport g) (branchSupport g) (children g)"
      using step(7) x by blast
    have gd: "branches c g" "agree c (sp_ledger (sp g)) (sp_ledger (sp d)) (en d)"
      using d g(1) branches_node [of c d] by simp_all
    have "en n \<le> en d"
      using ci(1,4) step(3) wfn_node [of ?c] by (simp add: word_less_nat_alt)
    then have "agree c (sp_ledger (sp g)) (sp_ledger (sp n)) (en n)"
      using agree_trans [OF agree_mono [OF gd(2)]] ci(3) step(3) by simp
    moreover have "c \<le> sp_end (sp n) \<longrightarrow> Ancestor (sp_ledger (sp g)) (sp_start (sp d)) = ?f ?c"
      using startID_merged [OF step(2) d g(1)] step(3) ci(4) by simp
    ultimately show ?thesis
      using gd(1) g branches_node [of c g] by (simp add: startID_def)
  qed
  obtain ys where ys: "mset (children n) = add_mset ?c ys"
    using i(2) multi_member_split [of ?c "mset (children n)"] by auto
  have "size (mset (compacted d r i (children n))) \<le> size (mset (children n))"
    using step(5,6) ys by simp
  then have len: "length (compacted d r i (children n)) \<le> length (children n)"
    by simp
  have "distinct (map ?f (compacted d r i (children n)))"
  proof (cases "c \<le> sp_end (sp n)")
    case True
    then have "image_mset ?f X \<subseteq># {#?f ?c#}"
      using step(6) X by (cases X) auto
    then have "mset (map ?f (compacted d r i (children n))) \<subseteq># mset (map ?f (children n))"
      using step(5) ys subset_mset.add_right_mono [of "image_mset ?f X" "{#?f ?c#}" "image_mset ?f ys"] by simp
    then show ?thesis
      using distinct_mset_sub Cons.prems(4) branches_node [of c n] by blast
  next
    case False
    then have "length (compacted d r i (children n)) \<le> 1"
      using len Cons.prems(4) branches_node [of c n] by simp
    then show ?thesis
      by (cases "compacted d r i (children n)") simp_all
  qed
  moreover have "agree c (sp_ledger (sp x)) (sp_ledger (sp n)) (en n) \<and> branches c x"
    if "x \<in> set (compacted d r i (children n))" for x
    using that X set_compacted [OF step(5)] Cons.prems(4) branches_node [of c n] by blast
  moreover have "c \<le> sp_end (sp n) \<or> length (compacted d r i (children n)) \<le> 1"
    using len Cons.prems(4) branches_node [of c n] by linarith
  ultimately show ?case
    unfolding step(4) by simp
qed

lemma diff_le_Mismatch:
  assumes "sp_start s \<le> sp_end s" "\<not> d < diff s l" "d < sp_end s"
  shows "Mismatch (sp_ledger s) l \<le> d \<or> d < sp_start s"
  using assms by (auto simp: diff_def clamp_def split: if_splits)

lemma find_leaf:
  assumes "findFrom l n (diff (sp n) l) = (p, q)"
  shows "q = sp_end (sp (nodeAt p n)) \<longrightarrow> (\<forall>c \<in> set (children (nodeAt p n)). \<not> q < diff (sp c) l)"
  using assms by (induction rule: find_induct) simp_all

lemma wfn_nodeAt: "wfn n \<Longrightarrow> valid_path p n \<Longrightarrow> wfn (nodeAt p n)"
proof (induction p arbitrary: n)
  case (Cons i p)
  then show ?case
    using wfn_node [of n] by simp
qed simp

lemma sub_agree:
  assumes "wfn n" "branches c n" "valid_path p n"
  shows "agree c (sp_ledger (sp (nodeAt p n))) (sp_ledger (sp n)) (en n)" "p \<noteq> [] \<Longrightarrow> en n < en (nodeAt p n)"
    "en n \<le> en (nodeAt p n)"
proof -
  have "agree c (sp_ledger (sp (nodeAt p n))) (sp_ledger (sp n)) (en n) \<and> (p \<noteq> [] \<longrightarrow> en n < en (nodeAt p n)) \<and>
      en n \<le> en (nodeAt p n)"
    using assms
  proof (induction p arbitrary: n)
    case (Cons i p)
    let ?d = "children n ! i"
    have d: "wfn ?d" "branches c ?d" "agree c (sp_ledger (sp ?d)) (sp_ledger (sp n)) (en n)" "st ?d = en n"
      using Cons.prems wfn_node [of n] branches_node [of c n] by simp_all
    have "st ?d < en ?d"
      using d(1) wfn_node [of ?d] by (simp add: word_less_nat_alt)
    then have lt: "en n < en ?d"
      using d(4) by simp
    have IH: "agree c (sp_ledger (sp (nodeAt p ?d))) (sp_ledger (sp ?d)) (en ?d)" "en ?d \<le> en (nodeAt p ?d)"
      using Cons.IH [OF d(1,2)] Cons.prems(3) by simp_all
    then show ?case
      using agree_trans [OF agree_mono [OF IH(1)] d(3)] lt by simp
  qed simp
  then show "agree c (sp_ledger (sp (nodeAt p n))) (sp_ledger (sp n)) (en n)" "p \<noteq> [] \<Longrightarrow> en n < en (nodeAt p n)"
    "en n \<le> en (nodeAt p n)"
    by blast+
qed

lemma wsum_zero_child:
  assumes "\<forall>p'. valid_path p' n \<longrightarrow> P (sp (nodeAt p' n)) \<longrightarrow> p' = p" "j < length (children n)" "\<forall>q. p \<noteq> j # q"
  shows "wsum P (children n ! j) = 0"
proof (rule wsum_zero)
  fix q
  assume "valid_path q (children n ! j)"
  then show "\<not> P (sp (nodeAt q (children n ! j)))"
    using assms(1) [rule_format, of "j # q"] assms(2,3) by auto
qed

lemma wsum_unique:
  assumes "valid_path p n" "P (sp (nodeAt p n))" "\<forall>p'. valid_path p' n \<longrightarrow> P (sp (nodeAt p' n)) \<longrightarrow> p' = p"
  shows "wsum P n = unat (tipSupport (nodeAt p n))"
  using assms
proof (induction p arbitrary: n)
  case Nil
  have "sum_list (map (wsum P) (children n)) = 0"
    using wsum_zero_child [OF Nil.prems(3)] by (simp add: sum_list_sum_nth)
  then show ?case
    using Nil.prems(2) by (simp add: wsum_node [of P n])
next
  case (Cons i p)
  have i: "i < length (children n)" "valid_path p (children n ! i)"
    using Cons.prems(1) by simp_all
  have "\<not> P (sp n)"
    using Cons.prems(3) [rule_format, of "[]"] by auto
  moreover have "wsum P (children n ! j) = 0" if "j < length (children n)" "j \<noteq> i" for j
    using wsum_zero_child [OF Cons.prems(3)] that by simp
  then have "(\<Sum>j \<in> {0..<length (children n)} - {i}. wsum P (children n ! j)) = 0"
    by simp
  then have "sum_list (map (wsum P) (children n)) = wsum P (children n ! i)"
    using i(1) sum.remove [of "{0..<length (children n)}" i "\<lambda>j. wsum P (children n ! j)"] by (simp add: sum_list_sum_nth)
  moreover have "\<forall>p'. valid_path p' (children n ! i) \<longrightarrow> P (sp (nodeAt p' (children n ! i))) \<longrightarrow> p' = p"
  proof (intro allI impI)
    fix p'
    assume "valid_path p' (children n ! i)" "P (sp (nodeAt p' (children n ! i)))"
    then show "p' = p"
      using Cons.prems(3) [rule_format, of "i # p'"] i(1) by simp
  qed
  ultimately show ?case
    using Cons.IH [OF i(2)] Cons.prems(2) by (simp add: wsum_node [of P n])
qed

lemma nat_diff_eq_min: "x + min c y = y \<Longrightarrow> y - c = (x :: nat)"
  by (auto simp: min_def split: if_splits)

section \<open>Families of ledgers\<close>

text \<open>A span of a ledger of the family that reaches beyond \<open>c\<close>, or the span of the root.\<close>

definition span_ok :: "u32 \<Rightarrow> Ledger \<Rightarrow> Ledger set \<Rightarrow> span \<Rightarrow> bool" where
  "span_ok c g L s \<longleftrightarrow> sp_ledger s \<in> L \<and> c < sp_end s \<or> sp_ledger s = g \<and> sp_end s = 1"

definition trie_sem :: "u32 \<Rightarrow> Ledger \<Rightarrow> Ledger set \<Rightarrow> Trie \<Rightarrow> bool" where
  "trie_sem c g L t \<longleftrightarrow> trie_inv t \<and> genesis t = g \<and> all_sp (span_ok c g L) (root t) \<and> branches c (root t)"

lemma tip_pred_span_ok [simp]: "tip_pred (span_ok c g L)"
  by (simp add: tip_pred_def span_ok_def)

lemma tip_pred_id [simp]: "tip_pred (\<lambda>s. TipID (tip s) = i)"
  by (simp add: tip_pred_def tip_def Let_def)

lemma trie_semD:
  assumes "trie_sem c g L t"
  shows "trie_inv t" "wfn (root t)" "all_sp (span_ok c g L) (root t)" "branches c (root t)" "total (root t) < 2 ^ 32"
  using assms by (simp_all add: trie_sem_def trie_inv_def)

lemma span_okD: "all_sp (span_ok c g L) n \<Longrightarrow> span_ok c g L (sp n)"
  using all_sp_node [of "span_ok c g L" n] by blast

text \<open>What the trie relies on of the \<open>Ledger\<close> interface.  \<open>g\<close> is the genesis ledger at the root,
  \<open>L\<close> the ledgers that validators support.\<close>

locale ledger_family =
  fixes c :: u32 and g :: Ledger and L :: "Ledger set"
  assumes seq_genesis: "Seq g = 0"
    and ledger_fits: "a \<in> L \<Longrightarrow> fits a"
    and window: "a \<in> L \<Longrightarrow> MinSeq a \<le> c \<and> c \<le> Seq a \<and> 0 < Seq a"
    and own_id: "a \<in> L \<Longrightarrow> Ancestor a (Seq a) = ID a"
    and genesis_id: "a \<in> L \<Longrightarrow> c \<le> s \<Longrightarrow> 0 < s \<Longrightarrow> s \<le> Seq a \<Longrightarrow> Ancestor a s \<noteq> Ancestor g 0"
    and genesis_common: "a \<in> L \<Longrightarrow> c = 0 \<Longrightarrow> Ancestor a 0 = Ancestor g 0"
    and common: "a \<in> L \<Longrightarrow> b \<in> L \<Longrightarrow> Ancestor a c = Ancestor b c"
    and history: "a \<in> L \<Longrightarrow> b \<in> L \<Longrightarrow> MinSeq a \<le> s \<Longrightarrow> s \<le> Seq a \<Longrightarrow> MinSeq b \<le> s' \<Longrightarrow> s' \<le> Seq b \<Longrightarrow>
      Ancestor a s = Ancestor b s' \<Longrightarrow>
      s = s' \<and> (\<forall>p. MinSeq a \<le> p \<longrightarrow> MinSeq b \<le> p \<longrightarrow> p \<le> s \<longrightarrow> Ancestor a p = Ancestor b p)"
begin

lemma history_agree:
  assumes "a \<in> L" "b \<in> L" "c \<le> s" "s \<le> Seq a" "c \<le> s'" "s' \<le> Seq b" "Ancestor a s = Ancestor b s'"
  shows "s = s'" "agree c a b (unat s + 1)"
proof -
  have w: "MinSeq a \<le> c" "MinSeq b \<le> c"
    using window assms(1,2) by blast+
  have h: "s = s' \<and> (\<forall>p. MinSeq a \<le> p \<longrightarrow> MinSeq b \<le> p \<longrightarrow> p \<le> s \<longrightarrow> Ancestor a p = Ancestor b p)"
    using history [OF assms(1,2) order_trans [OF w(1) assms(3)] assms(4) order_trans [OF w(2) assms(5)] assms(6,7)] .
  then show "s = s'"
    by blast
  show "agree c a b (unat s + 1)"
    unfolding agree_def
  proof (intro allI impI)
    fix p
    assume "c \<le> p" "unat p < unat s + 1"
    then show "Ancestor a p = Ancestor b p"
      using h order_trans [OF w(1)] order_trans [OF w(2)] by (simp add: word_le_nat_alt)
  qed
qed

lemma Mismatch_floor:
  assumes "a \<in> L" "b \<in> L"
  shows "c < Mismatch a b" "Ancestor a (Mismatch a b - 1) = Ancestor b (Mismatch a b - 1)"
    "Mismatch a b \<le> Seq a \<Longrightarrow> Mismatch a b \<le> Seq b \<Longrightarrow> Ancestor a (Mismatch a b) \<noteq> Ancestor b (Mismatch a b)"
proof -
  have w: "MinSeq a \<le> c" "MinSeq b \<le> c" "c \<le> Seq a" "c \<le> Seq b"
    using window assms by blast+
  have h: "MinSeq a \<le> p \<Longrightarrow> MinSeq b \<le> p \<Longrightarrow> p \<le> c \<Longrightarrow> Ancestor a p = Ancestor b p" for p
    using history [OF assms w(1,3,2,4) common [OF assms]] by blast
  have "c < Mismatch a b \<and> Ancestor a (Mismatch a b - 1) = Ancestor b (Mismatch a b - 1) \<and>
     (Mismatch a b \<le> Seq a \<longrightarrow> Mismatch a b \<le> Seq b \<longrightarrow> Ancestor a (Mismatch a b) \<noteq> Ancestor b (Mismatch a b))"
    using ledger_fits [OF assms(1)] ledger_fits [OF assms(2)]
  proof (cases rule: Mismatch_cases)
    case fallback
    then have "Ancestor a (max (MinSeq a) (MinSeq b)) \<noteq> Ancestor b (max (MinSeq a) (MinSeq b))"
      using w by blast
    then show ?thesis
      using h [of "max (MinSeq a) (MinSeq b)"] w by simp
  next
    case parts
    have "c < Mismatch a b"
    proof (rule ccontr)
      assume "\<not> c < Mismatch a b"
      then have le: "Mismatch a b \<le> c"
        by simp
      have "Ancestor a (Mismatch a b) \<noteq> Ancestor b (Mismatch a b)"
        using parts(5) order_trans [OF le w(3)] order_trans [OF le w(4)] by blast
      then show False
        using h [OF _ _ le] parts(1) by (simp add: less_imp_le)
    qed
    then show ?thesis
      using parts(4,5) by blast
  qed
  then show "c < Mismatch a b" "Ancestor a (Mismatch a b - 1) = Ancestor b (Mismatch a b - 1)"
    "Mismatch a b \<le> Seq a \<Longrightarrow> Mismatch a b \<le> Seq b \<Longrightarrow> Ancestor a (Mismatch a b) \<noteq> Ancestor b (Mismatch a b)"
    by blast+
qed

lemma Mismatch_agree:
  assumes "a \<in> L" "b \<in> L"
  shows "agree c a b (unat (Mismatch a b))"
    "Mismatch a b \<le> s \<Longrightarrow> s \<le> Seq a \<Longrightarrow> s \<le> Seq b \<Longrightarrow> Ancestor a s \<noteq> Ancestor b s"
proof -
  let ?m = "Mismatch a b"
  note floor = Mismatch_floor [OF assms] and bounds = Mismatch_bounds(1-3) [OF ledger_fits [OF assms(1)] ledger_fits [OF assms(2)]]
  have m: "unat (?m - 1) = unat ?m - 1"
    using bounds(1) by (simp add: unat_sub word_le_nat_alt)
  then have le: "c \<le> ?m - 1" "?m - 1 \<le> Seq a" "?m - 1 \<le> Seq b"
    using bounds floor(1) by (simp_all add: word_le_nat_alt word_less_nat_alt)
  show "agree c a b (unat ?m)"
    using history_agree(2) [OF assms le(1,2,1,3) floor(2)] m bounds(1) by simp
  show "Ancestor a s \<noteq> Ancestor b s" if s: "?m \<le> s" "s \<le> Seq a" "s \<le> Seq b"
  proof
    assume eq: "Ancestor a s = Ancestor b s"
    have "c \<le> s" "c \<le> ?m"
      using floor(1) s(1) by (simp_all add: less_imp_le order_trans)
    then have "Ancestor a ?m = Ancestor b ?m"
      using history_agree(2) [OF assms _ s(2) _ s(3) eq] s(1) by (simp add: agree_def word_le_nat_alt)
    then show False
      using floor(3) s order_trans by blast
  qed
qed

text \<open>The genesis ledger parts from every ledger of the family at 1.\<close>

lemma Mismatch_genesis:
  assumes "a \<in> L"
  shows "Mismatch g a = 1" "agree c g a 1"
proof -
  have "fits g"
    by (simp add: fits_def seq_genesis)
  then have "unat (Mismatch g a) = 1"
    using Mismatch_bounds(1,2) [OF _ ledger_fits [OF assms]] seq_genesis by fastforce
  then show "Mismatch g a = 1"
    by (simp add: word_unat_eq_iff)
  show "agree c g a 1"
    using genesis_common [OF assms] by (auto simp: agree_def unat_eq_0)
qed

lemma not_genesis: "a \<in> L \<Longrightarrow> a \<noteq> g"
  using window seq_genesis by fastforce

lemma span_ok_child:
  assumes "all_sp (span_ok c g L) n" "wfn n" "d \<in> set (children n)"
  shows "sp_ledger (sp d) \<in> L" "c < sp_end (sp d)" "1 < sp_end (sp d)" "sp_end (sp n) < sp_end (sp d)"
    "sp_start (sp d) = sp_end (sp n)" "wfn d" "all_sp (span_ok c g L) d"
proof -
  show d: "wfn d" "sp_start (sp d) = sp_end (sp n)" "all_sp (span_ok c g L) d"
    using assms wfn_node [of n] all_sp_node [of "span_ok c g L" n] by blast+
  have "sp_start (sp n) < sp_end (sp n)" and e: "sp_start (sp d) < sp_end (sp d)"
    using assms(2) d(1) wfn_node [of n] wfn_node [of d] by blast+
  then show "sp_end (sp n) < sp_end (sp d)" "1 < sp_end (sp d)"
    using d(2) by (simp_all add: u32_nat)
  then show "sp_ledger (sp d) \<in> L" "c < sp_end (sp d)"
    using span_okD [OF d(3)] by (auto simp: span_ok_def)
qed

text \<open>At the sequence number \<open>d\<close> inside a span whose ledger parts from \<open>l\<close> at or before \<open>d\<close>, the two differ.\<close>

lemma span_differs:
  assumes "sp_ledger (sp n) \<in> L" "l \<in> L" "wfn n" "d < sp_end (sp n)" "d \<le> Seq l" "Mismatch (sp_ledger (sp n)) l \<le> d"
  shows "Ancestor (sp_ledger (sp n)) d \<noteq> Ancestor l d"
proof (rule Mismatch_agree(2) [OF assms(1,2,6)])
  have "unat d < unat (Seq (sp_ledger (sp n)) + 1)"
    using assms(3,4) wfn_node [of n] by (simp add: word_less_nat_alt word_le_nat_alt)
  then show "d \<le> Seq (sp_ledger (sp n))"
    using ledger_fits [OF assms(1)] by (simp add: fits_def u32_succ word_le_nat_alt)
qed (rule assms(5))

lemma diff_ok:
  assumes "span_ok c g L (sp n)" "l \<in> L" "wfn n" "sp_start (sp n) < diff (sp n) l"
  shows "agree c l (sp_ledger (sp n)) (unat (diff (sp n) l))"
    "span_ok c g L ((sp n)\<lparr>sp_end := diff (sp n) l\<rparr>)"
    "diff (sp n) l \<noteq> sp_end (sp n) \<Longrightarrow> sp_ledger (sp n) \<in> L \<and> Mismatch (sp_ledger (sp n)) l \<le> diff (sp n) l \<and>
       diff (sp n) l < sp_end (sp n)"
proof -
  let ?d = "diff (sp n) l" and ?M = "Mismatch (sp_ledger (sp n)) l"
  have "sp_start (sp n) \<le> sp_end (sp n)"
    using assms(3) wfn_node [of n] by (simp add: less_imp_le)
  then have d: "unat ?d = min (unat ?M) (en n)"
    using diff_nat assms(4) by blast
  have le: "unat ?d \<le> unat ?M" "?d \<le> sp_end (sp n)"
    using d by (simp_all add: word_le_nat_alt)
  consider (ledger) "sp_ledger (sp n) \<in> L" "c < sp_end (sp n)" | (root) "sp_ledger (sp n) = g" "sp_end (sp n) = 1" "?M = 1"
    using assms(1) Mismatch_genesis(1) [OF assms(2)] by (auto simp: span_ok_def)
  then have "agree c (sp_ledger (sp n)) l (unat ?d) \<and> span_ok c g L ((sp n)\<lparr>sp_end := ?d\<rparr>) \<and>
      (?d \<noteq> sp_end (sp n) \<longrightarrow> sp_ledger (sp n) \<in> L)"
  proof cases
    case ledger
    have "c < ?d"
      using d Mismatch_floor(1) [OF ledger(1) assms(2)] ledger(2) by (simp add: word_less_nat_alt)
    then show ?thesis
      using agree_mono [OF Mismatch_agree(1) [OF ledger(1) assms(2)] le(1)] ledger(1) by (simp add: span_ok_def)
  next
    case root
    then have "?d = 1"
      using d by (simp add: word_unat_eq_iff)
    then show ?thesis
      using Mismatch_genesis(2) [OF assms(2)] root by (simp add: span_ok_def)
  qed
  then show "agree c l (sp_ledger (sp n)) (unat ?d)" "span_ok c g L ((sp n)\<lparr>sp_end := ?d\<rparr>)"
    "?d \<noteq> sp_end (sp n) \<Longrightarrow> sp_ledger (sp n) \<in> L \<and> ?M \<le> ?d \<and> ?d < sp_end (sp n)"
    using d agree_sym by (auto simp: word_le_nat_alt word_less_nat_alt word_unat_eq_iff min_def split: if_splits)
qed

text \<open>A child whose span does not continue \<open>l\<close> parts from it where the span starts.\<close>

lemma child_differs:
  assumes "all_sp (span_ok c g L) n" "wfn n" "l \<in> L" "x \<in> set (children n)" "\<not> sp_end (sp n) < diff (sp x) l"
  shows "c < sp_end (sp n)" "sp_end (sp n) \<le> Seq l \<Longrightarrow> Ancestor (sp_ledger (sp x)) (sp_end (sp n)) \<noteq> Ancestor l (sp_end (sp n))"
proof -
  note x = span_ok_child [OF assms(1,2,4)]
  have M: "Mismatch (sp_ledger (sp x)) l \<le> sp_end (sp n)"
    using diff_le_Mismatch [of "sp x" "sp_end (sp n)" l] x(4,5) assms(5) by auto
  then show "c < sp_end (sp n)"
    using Mismatch_floor(1) [OF x(1) assms(3)] by simp
  show "Ancestor (sp_ledger (sp x)) (sp_end (sp n)) \<noteq> Ancestor l (sp_end (sp n))" if "sp_end (sp n) \<le> Seq l"
    by (rule span_differs [OF x(1) assms(3) x(6,4) that M])
qed

lemma branches_growNode:
  assumes l: "l \<in> L" and n: "all_sp (span_ok c g L) n" "wfn n" "branches c n"
    and d: "sp_start (sp n) < d" "d \<le> sp_end (sp n)" "d = diff (sp n) l" "d \<le> Seq l + 1"
    and leaf: "d = sp_end (sp n) \<longrightarrow> (\<forall>x \<in> set (children n). \<not> d < diff (sp x) l)"
  shows "branches c (growNode (split_at n d) l d cnt)"
proof (cases "d = Seq l + 1")
  case True
  then show ?thesis
    using branches_split_at [OF n(3), of d] branches_node [of c "split_at n d"] by (simp add: growNode_eq)
next
  case False
  let ?n = "split_at n d" and ?leaf = "Node ((newSpanFromLedger l)\<lparr>sp_start := d\<rparr>) cnt cnt []"
  have "unat (Seq l + 1) = unat (Seq l) + 1"
    using ledger_fits [OF l] by (simp add: fits_def u32_succ)
  then have le: "d \<le> Seq l"
    using d(4) False by (simp add: word_le_nat_alt word_unat_eq_iff)
  note ok = diff_ok [OF span_okD [OF n(1)] l n(2), folded d(3), OF d(1)]
  have child: "c \<le> d \<and> startID (sp x) \<noteq> Ancestor l d" if x: "x \<in> set (children ?n)" for x
  proof (cases "d = sp_end (sp n)")
    case True
    then have x: "x \<in> set (children n)" "\<not> sp_end (sp n) < diff (sp x) l"
      using x leaf by (auto simp: split_at_def)
    show ?thesis
      using child_differs [OF n(1,2) l x] True le span_ok_child(5) [OF n(1,2) x(1)] by (simp add: startID_def less_imp_le)
  next
    case ne: False
    have M: "sp_ledger (sp n) \<in> L" "Mismatch (sp_ledger (sp n)) l \<le> d" "d < sp_end (sp n)"
      using ok(3) [OF ne] by blast+
    then have "c \<le> d"
      using Mismatch_floor(1) [OF M(1) l] by (simp add: less_imp_le)
    then show ?thesis
      using span_differs [OF M(1) l n(2) M(3) le M(2)] x ne by (simp add: startID_def split_at_def)
  qed
  have "startID (sp ?leaf) \<notin> (\<lambda>x. startID (sp x)) ` set (children ?n)"
    using child by (force simp: startID_def newSpanFromLedger_def)
  moreover have "branches c ?n"
    by (rule branches_split_at [OF n(3)])
  moreover have "c \<le> d \<or> children ?n = []"
    using child by (cases "children ?n") auto
  ultimately show ?thesis
    using False d(4) branches_node [of c ?n] ok(1) by (auto simp: growNode_eq newSpanFromLedger_def)
qed

lemma tip_at:
  assumes "all_sp (span_ok c g L) n" "wfn n"
  shows "unat (sp_end (sp n) - 1) + 1 = en n" "TipID (tip (sp n)) = Ancestor (sp_ledger (sp n)) (sp_end (sp n) - 1)"
    "sp_ledger (sp n) \<in> L \<Longrightarrow> c \<le> sp_end (sp n) - 1 \<and> sp_end (sp n) - 1 \<le> Seq (sp_ledger (sp n))"
    "sp_ledger (sp n) \<in> L \<or> sp_ledger (sp n) = g \<and> sp_end (sp n) = 1"
proof -
  have w: "sp_start (sp n) < sp_end (sp n)" "sp_end (sp n) \<le> Seq (sp_ledger (sp n)) + 1"
    using assms(2) wfn_node [of n] by simp_all
  have "1 \<le> en n"
    using w(1) by (simp add: word_less_nat_alt)
  then show e: "unat (sp_end (sp n) - 1) + 1 = en n"
    by (simp add: unat_sub word_le_nat_alt)
  show "TipID (tip (sp n)) = Ancestor (sp_ledger (sp n)) (sp_end (sp n) - 1)"
    by (simp add: tip_def Let_def)
  show "sp_ledger (sp n) \<in> L \<or> sp_ledger (sp n) = g \<and> sp_end (sp n) = 1"
    using span_okD [OF assms(1)] by (auto simp: span_ok_def)
  assume L: "sp_ledger (sp n) \<in> L"
  then have "c < sp_end (sp n)"
    using span_okD [OF assms(1)] not_genesis by (auto simp: span_ok_def)
  then show "c \<le> sp_end (sp n) - 1 \<and> sp_end (sp n) - 1 \<le> Seq (sp_ledger (sp n))"
    using e w(2) ledger_fits [OF L] by (simp add: u32_nat fits_def u32_succ)
qed

text \<open>A tip has the identifier of a ledger of the family only if the two have the same ancestry.\<close>

lemma tip_ledger:
  assumes "all_sp (span_ok c g L) n" "wfn n" "a \<in> L" "c \<le> s" "s \<le> Seq a" "TipID (tip (sp n)) = Ancestor a s"
  shows "sp_end (sp n) - 1 = s" "agree c (sp_ledger (sp n)) a (unat s + 1)"
proof -
  note tip = tip_at [OF assms(1,2)]
  have "sp_end (sp n) - 1 = s \<and> agree c (sp_ledger (sp n)) a (unat s + 1)"
    using tip(4)
  proof
    assume L: "sp_ledger (sp n) \<in> L"
    have "Ancestor (sp_ledger (sp n)) (sp_end (sp n) - 1) = Ancestor a s"
      using tip(2) assms(6) by simp
    then show ?thesis
      using history_agree [OF L assms(3) _ _ assms(4,5)] tip(3) [OF L] by blast
  next
    assume root: "sp_ledger (sp n) = g \<and> sp_end (sp n) = 1"
    then have "s = 0"
      using genesis_id [OF assms(3,4) _ assms(5)] assms(6) tip(2) by (cases "s = 0") (auto simp: word_gt_0)
    then show ?thesis
      using Mismatch_genesis(2) [OF assms(3)] root by simp
  qed
  then show "sp_end (sp n) - 1 = s" "agree c (sp_ledger (sp n)) a (unat s + 1)"
    by blast+
qed

lemma same_tip:
  assumes a: "all_sp (span_ok c g L) a" "wfn a" and b: "all_sp (span_ok c g L) b" "wfn b"
    and eq: "TipID (tip (sp a)) = TipID (tip (sp b))"
  shows "en a = en b" "agree c (sp_ledger (sp a)) (sp_ledger (sp b)) (en a)"
proof -
  note ta = tip_at [OF a] and tb = tip_at [OF b]
  have "en a = en b \<and> agree c (sp_ledger (sp a)) (sp_ledger (sp b)) (en a)"
    using tb(4)
  proof
    assume L: "sp_ledger (sp b) \<in> L"
    have "sp_end (sp a) - 1 = sp_end (sp b) - 1" "agree c (sp_ledger (sp a)) (sp_ledger (sp b)) (unat (sp_end (sp b) - 1) + 1)"
      using tip_ledger [OF a L _ _ eq [unfolded tb(2)]] tb(3) [OF L] by blast+
    then show ?thesis
      using tb(1) ta(1) by simp
  next
    assume rb: "sp_ledger (sp b) = g \<and> sp_end (sp b) = 1"
    show ?thesis
      using ta(4)
    proof
      assume L: "sp_ledger (sp a) \<in> L"
      have "sp_end (sp b) - 1 = sp_end (sp a) - 1" "agree c (sp_ledger (sp b)) (sp_ledger (sp a)) (unat (sp_end (sp a) - 1) + 1)"
        using tip_ledger [OF b L _ _ eq [symmetric, unfolded ta(2)]] ta(3) [OF L] by blast+
      then show ?thesis
        using tb(1) ta(1) agree_sym by simp
    qed (use rb in simp)
  qed
  then show "en a = en b" "agree c (sp_ledger (sp a)) (sp_ledger (sp b)) (en a)"
    by blast+
qed

section \<open>Tips are unique\<close>

lemma tip_unique_child:
  assumes n: "all_sp (span_ok c g L) n" "wfn n" "branches c n"
    and ij: "i < length (children n)" "j < length (children n)" "valid_path p (children n ! i)" "valid_path q (children n ! j)"
    and eq: "TipID (tip (sp (nodeAt p (children n ! i)))) = TipID (tip (sp (nodeAt q (children n ! j))))"
  shows "i = j"
proof (rule ccontr)
  assume ne: "i \<noteq> j"
  let ?a = "children n ! i" and ?b = "children n ! j"
  let ?x = "nodeAt p ?a" and ?y = "nodeAt q ?b"
  note a = span_ok_child [OF n(1,2) nth_mem [OF ij(1)]] and b = span_ok_child [OF n(1,2) nth_mem [OF ij(2)]]
  have br: "branches c ?a" "branches c ?b" "c \<le> sp_end (sp n)"
    using n(3) ij(1,2) ne branches_node [of c n] by auto
  have "startID (sp ?a) \<noteq> startID (sp ?b)"
    using n(3) branches_node [of c n] ij(1,2) ne nth_eq_iff_index_eq [of "map (\<lambda>x. startID (sp x)) (children n)" i j] by simp
  then have differ: "Ancestor (sp_ledger (sp ?a)) (sp_end (sp n)) \<noteq> Ancestor (sp_ledger (sp ?b)) (sp_end (sp n))"
    using a(5) b(5) by (simp add: startID_def)
  have xy: "agree c (sp_ledger (sp ?x)) (sp_ledger (sp ?y)) (en ?x)"
    by (rule same_tip(2) [OF all_sp_nodeAt [OF a(7) ij(3)] wfn_nodeAt [OF a(6) ij(3)] all_sp_nodeAt [OF b(7) ij(4)]
      wfn_nodeAt [OF b(6) ij(4)] eq])
  note x = sub_agree [OF a(6) br(1) ij(3)] and y = sub_agree [OF b(6) br(2) ij(4)]
  have lt: "en n < en ?a" "en n < en ?b" "en n < en ?x"
    using a(4) b(4) x(3) by (simp_all add: word_less_nat_alt)
  have "Ancestor (sp_ledger (sp ?a)) (sp_end (sp n)) = Ancestor (sp_ledger (sp ?x)) (sp_end (sp n))"
    using x(1) br(3) lt(1) by (simp add: agree_def)
  also have "\<dots> = Ancestor (sp_ledger (sp ?y)) (sp_end (sp n))"
    using xy br(3) lt(3) by (simp add: agree_def)
  also have "\<dots> = Ancestor (sp_ledger (sp ?b)) (sp_end (sp n))"
    using y(1) br(3) lt(2) by (simp add: agree_def)
  finally show False
    using differ by blast
qed

lemma tip_unique:
  "all_sp (span_ok c g L) n \<Longrightarrow> wfn n \<Longrightarrow> branches c n \<Longrightarrow> valid_path p n \<Longrightarrow> valid_path p' n \<Longrightarrow>
    TipID (tip (sp (nodeAt p n))) = TipID (tip (sp (nodeAt p' n))) \<Longrightarrow> p = p'"
proof (induction p arbitrary: n p')
  case Nil
  then have "en n = en (nodeAt p' n)"
    using same_tip(1) [OF Nil.prems(1,2) all_sp_nodeAt wfn_nodeAt, of n p'] by simp
  then show ?case
    using sub_agree(2) [OF Nil.prems(2,3,5)] by fastforce
next
  case (Cons i p)
  show ?case
  proof (cases p')
    case Nil
    then have "en (nodeAt (i # p) n) = en n"
      using same_tip(1) [OF all_sp_nodeAt [OF Cons.prems(1,4)] wfn_nodeAt [OF Cons.prems(2,4)] Cons.prems(1,2)] Cons.prems(6) by simp
    then show ?thesis
      using sub_agree(2) [OF Cons.prems(2-4)] by simp
  next
    case (Cons j q)
    have ij: "i < length (children n)" "j < length (children n)" "valid_path p (children n ! i)" "valid_path q (children n ! j)"
      "TipID (tip (sp (nodeAt p (children n ! i)))) = TipID (tip (sp (nodeAt q (children n ! j))))"
      using Cons.prems(4-6) Cons by simp_all
    then have "i = j"
      using tip_unique_child [OF Cons.prems(1-3)] by blast
    moreover have "branches c (children n ! i)"
      using Cons.prems(3) ij(1) branches_node [of c n] by simp
    ultimately show ?thesis
      using Cons.IH [of "children n ! i" q] span_ok_child(6,7) [OF Cons.prems(1,2) nth_mem [OF ij(1)]] ij Cons by simp
  qed
qed

section \<open>Support per ledger\<close>

lemma trie_sem_New: "trie_sem c g L (New g)"
proof -
  have "fits g"
    by (simp add: fits_def seq_genesis)
  then show ?thesis
    using trie_inv_New [of g] by (simp add: trie_sem_def New_def newEmptyNode_def span_ok_def)
qed

lemma id_at_seq_sem:
  assumes "trie_sem c g L t" "l \<in> L"
  shows "id_at_seq (root t) l"
  unfolding id_at_seq_def
proof (intro allI impI)
  fix p
  assume p: "valid_path p (root t)" "TipID (tip (sp (nodeAt p (root t)))) = ID l"
  show "sp_end (sp (nodeAt p (root t))) - 1 = Seq l"
    using tip_ledger(1) [OF all_sp_nodeAt [OF trie_semD(3) [OF assms(1)] p(1)] wfn_nodeAt [OF trie_semD(2) [OF assms(1)] p(1)] assms(2)]
      window [OF assms(2)] own_id [OF assms(2)] p(2) by simp
qed

lemma TipSupport_idsum:
  assumes "trie_sem c g L t"
  shows "unat (TipSupport t l) = idsum (ID l) (root t)"
proof (cases "findByLedgerID t l")
  case None
  then have "idsum (ID l) (root t) = 0"
    using findByIDWalk_None by (intro wsum_zero) (simp add: findByLedgerID_def)
  then show ?thesis
    using None by (simp add: TipSupport_def)
next
  case (Some p)
  then have p: "valid_path p (root t)" "TipID (tip (sp (nodeAt p (root t)))) = ID l"
    using findByIDWalk_Some by (auto simp: findByLedgerID_def)
  have "\<forall>p'. valid_path p' (root t) \<longrightarrow> TipID (tip (sp (nodeAt p' (root t)))) = ID l \<longrightarrow> p' = p"
    using tip_unique [OF trie_semD(3,2,4) [OF assms] _ p(1)] p(2) by simp
  then have "idsum (ID l) (root t) = unat (tipSupport (nodeAt p (root t)))"
    using p by (intro wsum_unique) blast+
  then show ?thesis
    using Some by (simp add: TipSupport_def)
qed

lemma Insert_sem:
  assumes t: "trie_sem c g L t" and l: "l \<in> L" and cnt: "total (root t) + unat cnt < 2 ^ 32"
  shows "\<exists>t'. Insert l cnt t = Some t' \<and> trie_sem c g L t' \<and> total (root t') = total (root t) + unat cnt \<and>
    (\<forall>i. idsum i (root t') = idsum i (root t) + (if i = ID l then unat cnt else 0))"
proof (cases "cnt = 0")
  case True
  then show ?thesis
    using t by (simp add: Insert_def)
next
  case False
  obtain p d where find: "find t l = (p, d)"
    by (cases "find t l")
  note inv = trie_semD [OF t] and fl = ledger_fits [OF l] and wl = window [OF l]
  let ?n = "nodeAt p (root t)" and ?loc = "split_at (nodeAt p (root t)) d"
  define t' where "t' = seqSupportAdd (Seq l) cnt (t\<lparr>root := replaceAt p (growNode ?loc l d cnt) cnt (root t)\<rparr>)"
  note spec = Insert_spec [OF inv(1) fl cnt False find, folded t'_def]
  note loc = find_location [OF inv(1) fl find]
  have leaf: "d = sp_end (sp ?n) \<longrightarrow> (\<forall>x \<in> set (children ?n). \<not> d < diff (sp x) l)"
    using find_leaf [of l "root t" p d] find by (simp add: find_def)
  have n: "all_sp (span_ok c g L) ?n" "branches c ?n"
    using all_sp_nodeAt [OF inv(3) loc(1)] branches_nodeAt [OF inv(4) loc(1)] by blast+
  have "span_ok c g L ((sp ?n)\<lparr>sp_end := d\<rparr>)"
    using diff_ok(2) [OF span_okD [OF n(1)] l loc(2)] loc(5,9) by simp
  moreover have "span_ok c g L (newSpanFromLedger l)"
    using l wl fl by (simp add: span_ok_def newSpanFromLedger_def u32_nat fits_def u32_succ)
  ultimately have "all_sp (span_ok c g L) (growNode ?loc l d cnt)"
    using all_sp_growNode [OF tip_pred_span_ok all_sp_split_at [OF tip_pred_span_ok n(1)] _ loc(8)] by blast
  then have "all_sp (span_ok c g L) (root t')" "branches c (root t')"
    unfolding spec(4)
    using all_sp_replaceAt [OF inv(3) loc(1)]
      branches_replaceAt [OF inv(4) loc(1) branches_growNode [OF l n(1) loc(2) n(2) loc(5,6,9,8) leaf]] by simp_all
  then have sem: "trie_sem c g L t'"
    using spec(2,3) t by (simp add: trie_sem_def)
  have "Ancestor (sp_ledger (inc_span ?loc l d)) (Seq l) = ID l"
    using inc_span_ends(2) [OF inv(1) fl find] wl own_id [OF l] by auto
  then have "TipID (tip (inc_span ?loc l d)) = ID l"
    using inc_span_ends(1) [OF inv(1) fl find] by (simp add: tip_def Let_def)
  then have "idsum i (root t') = idsum i (root t) + (if i = ID l then unat cnt else 0)" for i
    using spec(5) [OF tip_pred_id, of i] by auto
  moreover have "total (root t') = total (root t) + unat cnt"
    using spec(5) [OF tip_pred_seq(2)] by simp
  ultimately show ?thesis
    using spec(1) sem by blast
qed

lemma Remove_sem:
  assumes t: "trie_sem c g L t" and l: "l \<in> L"
  shows "\<exists>t'. Remove l cnt t = Some (idsum (ID l) (root t) \<noteq> 0, t') \<and> trie_sem c g L t' \<and> total (root t') \<le> total (root t) \<and>
    (\<forall>i. idsum i (root t') = (if i = ID l then idsum i (root t) - unat cnt else idsum i (root t)))"
  using trie_semD(1) [OF t] id_at_seq_sem [OF t l]
proof (cases rule: Remove_spec [of t l cnt])
  case absent
  then have "idsum (ID l) (root t) = 0"
    using TipSupport_idsum [OF t, of l] by simp
  then show ?thesis
    using absent(1) t by auto
next
  case (present p t' n)
  let ?n = "nodeAt p (root t)"
  note inv = trie_semD [OF t]
  have p: "valid_path p (root t)" "TipID (tip (sp ?n)) = ID l"
    using findByIDWalk_Some present(1) by (auto simp: findByLedgerID_def)
  have le: "n \<le> tipSupport ?n"
    using present(3) by simp
  have "all_sp (span_ok c g L) (root t')" "branches c (root t')"
    unfolding present(5) using all_sp_removeAt [OF tip_pred_span_ok p(1) inv(2) le inv(3)] branches_removeAt [OF p(1) inv(2) le inv(4)]
    by simp_all
  then have sem: "trie_sem c g L t'"
    using present(6,7) t by (simp add: trie_sem_def)
  have tip: "unat (tipSupport ?n) = idsum (ID l) (root t)"
    using TipSupport_idsum [OF t, of l] present(1) by (simp add: TipSupport_def)
  have sums: "idsum i (root t') + (if ID l = i then min (unat cnt) (idsum (ID l) (root t)) else 0) = idsum i (root t)" for i
    using present(8) [OF tip_pred_id, of i] p(2) unat_min [of cnt "tipSupport ?n"] present(3) tip by (cases "ID l = i") simp_all
  have "idsum i (root t') = (if i = ID l then idsum i (root t) - unat cnt else idsum i (root t))" for i
    using sums [of i] nat_diff_eq_min [of "idsum i (root t')" "unat cnt" "idsum i (root t)"] by (cases "i = ID l") auto
  moreover have "total (root t') \<le> total (root t)"
    using present(8) [OF tip_pred_seq(2)] by simp
  moreover have "idsum (ID l) (root t) \<noteq> 0"
    using tip present(2) by (simp add: word_less_nat_alt)
  ultimately show ?thesis
    using sem present(4) by auto
qed

end

end
