(* ===== verification/TestLedgers.thy ===== *)
theory TestLedgers
  imports LedgerTrieSem
begin

text \<open>
  The ledger builder that comes with the trie, \<open>testledger.go\<close>: ledgers that are built from a path,
  with an identifier that spells the path.  The ledgers it hands out keep the contract of the trie.
\<close>

definition zeroID :: LedgerID where
  "zeroID = replicate 32 0"

record TestLedger =
  tl_id :: LedgerID
  tl_seq :: u32
  tl_ancestors :: "LedgerID list"

text \<open>The methods of \<open>TestLedger\<close>, as the \<open>Ledger\<close> interface sees them.\<close>

definition testView :: "TestLedger \<Rightarrow> Ledger" where
  "testView l = \<lparr>ID = tl_id l, Seq = tl_seq l, MinSeq = 0,
     Ancestor = (\<lambda>s. if s > tl_seq l then zeroID else tl_ancestors l ! unat s)\<rparr>"

text \<open>The key of a child is the identifier of its parent and a rune.  The paths are ASCII, so a rune
  is a byte.\<close>

record TestLedgerBuilder =
  tb_genesis :: TestLedger
  tb_children :: "((LedgerID \<times> u8) \<times> TestLedger) list"

definition NewTestLedgerBuilder :: TestLedgerBuilder where
  "NewTestLedgerBuilder =
     \<lparr>tb_genesis = \<lparr>tl_id = zeroID, tl_seq = 0, tl_ancestors = [zeroID]\<rparr>, tb_children = []\<rparr>"

definition extend :: "TestLedger \<Rightarrow> u8 \<Rightarrow> nat \<Rightarrow> TestLedger" where
  "extend parent r depth =
     (let i = (tl_id parent)[depth := r];
          n = unat (tl_seq parent + 2);
          ancestors = take n (tl_ancestors parent) @ replicate (n - length (tl_ancestors parent)) zeroID
      in \<lparr>tl_id = i, tl_seq = tl_seq parent + 1, tl_ancestors = ancestors[unat (tl_seq parent + 1) := i]\<rparr>)"

fun buildLoop :: "u8 list \<Rightarrow> nat \<Rightarrow> TestLedger \<Rightarrow> TestLedgerBuilder \<Rightarrow> TestLedger \<times> TestLedgerBuilder" where
  "buildLoop [] i cur b = (cur, b)"
| "buildLoop (r # s) i cur b =
     (let key = (tl_id cur, r)
      in case map_of (tb_children b) key of
           Some child \<Rightarrow> buildLoop s (Suc i) child b
         | None \<Rightarrow>
             let child = extend cur r i
             in buildLoop s (Suc i) child (b\<lparr>tb_children := AList.update key child (tb_children b)\<rparr>))"

definition Build :: "u8 list \<Rightarrow> TestLedgerBuilder \<Rightarrow> (TestLedger \<times> TestLedgerBuilder) option" where
  "Build s b = (if length s \<ge> 32 then None else Some (buildLoop s 0 (tb_genesis b) b))"

section \<open>What the builder returns\<close>

definition pathID :: "u8 list \<Rightarrow> LedgerID" where
  "pathID p = p @ replicate (32 - length p) 0"

definition built :: "u8 list \<Rightarrow> TestLedger" where
  "built p = \<lparr>tl_id = pathID p, tl_seq = word_of_nat (length p), tl_ancestors = map (\<lambda>k. pathID (take k p)) [0..<length p + 1]\<rparr>"

lemma built_id: "tl_id (built p) = pathID p"
  by (simp add: built_def)

text \<open>A path that can be built: short enough for an identifier, and without the padding byte.\<close>

definition is_path :: "u8 list \<Rightarrow> bool" where
  "is_path p \<longleftrightarrow> length p < 32 \<and> 0 \<notin> set p"

lemma is_path_take: "is_path p \<Longrightarrow> is_path (take k p)"
  by (auto simp: is_path_def dest: in_set_takeD)

lemma pathID_inj:
  assumes "is_path p" "is_path q" "pathID p = pathID q"
  shows "p = q"
proof -
  have id: "takeWhile (\<lambda>b. b \<noteq> 0) (pathID r) = r" if "is_path r" for r
  proof -
    have "takeWhile (\<lambda>b. b \<noteq> 0) (r @ replicate (32 - length r) 0) = r @ takeWhile (\<lambda>b. b \<noteq> 0) (replicate (32 - length r) (0 :: u8))"
      using that by (intro takeWhile_append2) (auto simp: is_path_def)
    then show ?thesis
      by (simp add: pathID_def takeWhile_replicate)
  qed
  show ?thesis
    using id [OF assms(1)] id [OF assms(2)] assms(3) by metis
qed

lemma extend_built:
  assumes "length p < 31"
  shows "extend (built p) r (length p) = built (p @ [r])"
proof -
  have seq: "unat (word_of_nat (length p) + 1 :: u32) = length p + 1" "unat (word_of_nat (length p) + 2 :: u32) = length p + 2"
    using assms by (simp_all add: unat_word_ariths unat_of_nat)
  have "32 - length p = Suc (31 - length p)"
    using assms by simp
  then have rep: "replicate (32 - length p) (0 :: u8) = 0 # replicate (31 - length p) 0"
    by (simp only: replicate_Suc)
  have i: "(pathID p)[length p := r] = pathID (p @ [r])"
    using rep by (simp add: pathID_def)
  have "map (\<lambda>k. pathID (take k p)) [0..<length p + 1] = map (\<lambda>k. pathID (take k (p @ [r]))) [0..<length p + 1]"
    by simp
  then show ?thesis
    using seq i by (simp add: extend_def built_def Let_def add.commute nth_append list_update_append)
qed

definition builder_inv :: "TestLedgerBuilder \<Rightarrow> bool" where
  "builder_inv b \<longleftrightarrow> tb_genesis b = built [] \<and>
     (\<forall>k l. map_of (tb_children b) k = Some l \<longrightarrow>
        (\<exists>p. is_path (p @ [snd k]) \<and> fst k = pathID p \<and> l = built (p @ [snd k])))"

lemma builder_inv_New: "builder_inv NewTestLedgerBuilder"
  by (simp add: builder_inv_def NewTestLedgerBuilder_def built_def pathID_def zeroID_def)

lemma buildLoop_built:
  "is_path (p @ s) \<Longrightarrow> builder_inv b \<Longrightarrow>
    \<exists>b'. buildLoop s (length p) (built p) b = (built (p @ s), b') \<and> builder_inv b'"
proof (induction s arbitrary: p b)
  case (Cons r s)
  have p: "is_path ((p @ [r]) @ s)" "is_path (p @ [r])" "is_path p" "length p < 31"
    using Cons.prems(1) by (auto simp: is_path_def)
  note IH = Cons.IH [OF p(1)]
  show ?case
  proof (cases "map_of (tb_children b) (pathID p, r)")
    case None
    let ?b = "b\<lparr>tb_children := AList.update (pathID p, r) (built (p @ [r])) (tb_children b)\<rparr>"
    have "builder_inv ?b"
      using Cons.prems(2) p(2) by (auto simp: builder_inv_def update_conv)
    then show ?thesis
      using IH [of ?b] None extend_built [OF p(4), of r] by (simp add: built_id Let_def)
  next
    case (Some l)
    then obtain q where q: "is_path (q @ [r])" "pathID p = pathID q" "l = built (q @ [r])"
      using Cons.prems(2) by (fastforce simp: builder_inv_def)
    have "is_path q"
      using q(1) by (auto simp: is_path_def)
    then have "p = q"
      using pathID_inj [OF p(3) _ q(2)] by blast
    then show ?thesis
      using IH [OF Cons.prems(2)] Some q(3) by (simp add: built_id Let_def)
  qed
qed simp

lemma Build_built:
  assumes "is_path s" "builder_inv b"
  shows "\<exists>b'. Build s b = Some (built s, b') \<and> builder_inv b'"
  using buildLoop_built [of "[]" s b] assms by (simp add: Build_def is_path_def builder_inv_def)

section \<open>The contract of the trie\<close>

text \<open>The ledger of a path, from a new builder.\<close>

definition test_ledger :: "u8 list \<Rightarrow> Ledger" where
  "test_ledger p = testView (fst (the (Build p NewTestLedgerBuilder)))"

definition test_ledgers :: "Ledger set" where
  "test_ledgers = test_ledger ` {p. p \<noteq> [] \<and> is_path p}"

lemma test_ledger_simps:
  assumes "is_path p"
  shows "unat (Seq (test_ledger p)) = length p" "ID (test_ledger p) = pathID p" "MinSeq (test_ledger p) = 0"
    "s \<le> Seq (test_ledger p) \<Longrightarrow> Ancestor (test_ledger p) s = pathID (take (unat s) p)"
proof -
  have v: "test_ledger p = testView (built p)"
    using Build_built [OF assms builder_inv_New] by (auto simp: test_ledger_def)
  show seq: "unat (Seq (test_ledger p)) = length p"
    using assms by (simp add: v testView_def built_def is_path_def unat_of_nat)
  show "ID (test_ledger p) = pathID p" "MinSeq (test_ledger p) = 0"
    by (simp_all add: v testView_def built_def)
  assume s: "s \<le> Seq (test_ledger p)"
  then have "unat s < length p + 1"
    using seq by (simp add: word_le_nat_alt)
  then show "Ancestor (test_ledger p) s = pathID (take (unat s) p)"
    using s by (auto simp: v testView_def built_def simp del: upt_Suc)
qed

lemma test_ledger_history:
  assumes "is_path p" "is_path q" "s \<le> Seq (test_ledger p)" "s' \<le> Seq (test_ledger q)"
    "Ancestor (test_ledger p) s = Ancestor (test_ledger q) s'"
  shows "s = s' \<and> (\<forall>i \<le> s. Ancestor (test_ledger p) i = Ancestor (test_ledger q) i)"
proof -
  note p = test_ledger_simps [OF assms(1)] and q = test_ledger_simps [OF assms(2)]
  have le: "unat s \<le> length p" "unat s' \<le> length q"
    using assms(3,4) p(1) q(1) by (simp_all add: word_le_nat_alt)
  have eq: "take (unat s) p = take (unat s') q"
    using pathID_inj [OF is_path_take [OF assms(1)] is_path_take [OF assms(2)]] assms(5) p(4) [OF assms(3)] q(4) [OF assms(4)] by simp
  then have s: "s = s'"
    using le by (metis length_take min_absorb2 word_unat_eq_iff)
  moreover have "Ancestor (test_ledger p) i = Ancestor (test_ledger q) i" if "i \<le> s" for i
    using arg_cong [OF eq, of "take (unat i)"] that s p(4) [OF order_trans [OF that assms(3)]]
      q(4) [OF order_trans [OF that [unfolded s] assms(4)]] by (simp add: word_le_nat_alt min_absorb1)
  ultimately show ?thesis
    by blast
qed

interpretation test: ledger_family 0 "test_ledger []" test_ledgers
proof
  note simps = test_ledger_simps
  have nil: "is_path []"
    by (simp add: is_path_def)
  show "Seq (test_ledger []) = 0"
    using simps(1) [OF nil] by (simp add: unat_eq_0)
  fix a
  assume "a \<in> test_ledgers"
  then obtain p where p: "a = test_ledger p" "p \<noteq> []" "is_path p"
    by (auto simp: test_ledgers_def)
  show "fits a" "MinSeq a \<le> 0 \<and> 0 \<le> Seq a \<and> 0 < Seq a" "Ancestor a (Seq a) = ID a"
    "Ancestor a 0 = Ancestor (test_ledger []) 0"
    using p simps [OF p(3)] simps(4) [OF nil, of 0] by (simp_all add: fits_def is_path_def word_less_nat_alt)
  show "Ancestor a s \<noteq> Ancestor (test_ledger []) 0" if "0 < s" "s \<le> Seq a" for s
  proof
    assume "Ancestor a s = Ancestor (test_ledger []) 0"
    then have "take (unat s) p = []"
      using pathID_inj [OF is_path_take [OF p(3)] nil] simps(4) [OF p(3), of s] simps(4) [OF nil, of 0] that p(1) by simp
    then show False
      using p(2) that(1) by (simp add: word_less_nat_alt)
  qed
  fix b
  assume "b \<in> test_ledgers"
  then obtain q where q: "b = test_ledger q" "is_path q"
    by (auto simp: test_ledgers_def)
  show "Ancestor a 0 = Ancestor b 0"
    using p(1) q(1) simps(4) [OF p(3), of 0] simps(4) [OF q(2), of 0] by simp
  show "s = s' \<and> (\<forall>i. MinSeq a \<le> i \<longrightarrow> MinSeq b \<le> i \<longrightarrow> i \<le> s \<longrightarrow> Ancestor a i = Ancestor b i)"
    if "s \<le> Seq a" "s' \<le> Seq b" "Ancestor a s = Ancestor b s'" for s s'
    using test_ledger_history [OF p(3) q(2)] that p(1) q(1) by blast
qed

end
