(* ===== verification/LedgerTrieProps.thy ===== *)
theory LedgerTrieProps
  imports TestLedgers
begin

text \<open>
  The support of a branch of the trie, and the properties of the trie as a whole: every sequence
  of insertions and removals keeps the self check true and refines a count of support per ledger.
\<close>

section \<open>Support per branch\<close>

text \<open>The tip of the span is \<open>l\<close> or one of its descendants.\<close>

definition desc :: "Ledger \<Rightarrow> span \<Rightarrow> bool" where
  "desc l s \<longleftrightarrow> Seq l < sp_end s \<and> Ancestor (sp_ledger s) (Seq l) = ID l"

lemma wsum_cong_path:
  "(\<And>p. valid_path p n \<Longrightarrow> tipSupport (nodeAt p n) \<noteq> 0 \<Longrightarrow> P (sp (nodeAt p n)) = Q (sp (nodeAt p n))) \<Longrightarrow>
    wsum P n = wsum Q n"
proof (induction n)
  case (Node s t b cs)
  have "wsum P c = wsum Q c" if c: "c \<in> set cs" for c
  proof (rule Node.IH [OF c])
    fix p
    assume "valid_path p c" "tipSupport (nodeAt p c) \<noteq> 0"
    moreover obtain j where "j < length cs" "cs ! j = c"
      using c by (auto simp: in_set_conv_nth)
    ultimately show "P (sp (nodeAt p c)) = Q (sp (nodeAt p c))"
      using Node.prems [of "j # p"] by simp
  qed
  then have "sum_list (map (wsum P) cs) = sum_list (map (wsum Q) cs)"
    by (simp cong: map_cong)
  then show ?case
    using Node.prems [of "[]"] by (cases "t = 0") simp_all
qed

lemma unat_branchSupport:
  assumes "wfn n" "total n < 2 ^ 32"
  shows "unat (branchSupport n) = total n"
  using branchSupport_total [OF assms(1)] unat_u32_of_nat [OF assms(2)] by simp

lemma sum_list_sum: "sum_list (map (\<lambda>x. \<Sum>i \<in> I. f i x) xs) = (\<Sum>i \<in> I. sum_list (map (f i) xs) :: nat)"
  by (induction xs) (simp_all add: sum.distrib)

lemma wsum_members: "finite I \<Longrightarrow> wsum (\<lambda>s. h s \<in> I) n = (\<Sum>i \<in> I. wsum (\<lambda>s. h s = i) n)"
proof (induction n)
  case (Node s t b cs)
  have "(\<Sum>i \<in> I. if h s = i then unat t else 0) = (if h s \<in> I then unat t else 0)"
    using Node.prems by (simp add: sum.delta')
  moreover have "sum_list (map (wsum (\<lambda>s. h s \<in> I)) cs) = (\<Sum>i \<in> I. sum_list (map (wsum (\<lambda>s. h s = i)) cs))"
    using Node by (simp add: sum_list_sum [symmetric] cong: map_cong)
  ultimately show ?case
    by (simp add: sum.distrib)
qed

text \<open>A ledger descends from \<open>l\<close> when \<open>l\<close> is in its ancestry.\<close>

definition descends :: "Ledger \<Rightarrow> Ledger \<Rightarrow> bool" where
  "descends m l \<longleftrightarrow> Seq l \<le> Seq m \<and> Ancestor m (Seq l) = ID l"

context ledger_family
begin

lemma wsum_desc_all:
  assumes "wfn n" "branches c n" "l \<in> L" "agree c (sp_ledger (sp n)) l (unat (Seq l) + 1)" "Seq l < sp_end (sp n)"
  shows "wsum (desc l) n = total n"
proof (rule wsum_cong_path)
  fix p
  assume p: "valid_path p n"
  let ?m = "nodeAt p n"
  note m = sub_agree [OF assms(1,2) p]
  have c: "c \<le> Seq l"
    using window [OF assms(3)] by blast
  have "Ancestor (sp_ledger (sp ?m)) (Seq l) = Ancestor (sp_ledger (sp n)) (Seq l)"
    using m(1) c assms(5) by (simp add: agree_def word_less_nat_alt)
  also have "\<dots> = ID l"
    using assms(4) c own_id [OF assms(3)] by (simp add: agree_def)
  finally show "desc l (sp ?m) = True"
    using m(3) assms(5) by (simp add: desc_def word_less_nat_alt)
qed

lemma wsum_desc_none:
  assumes "l \<in> L" "all_sp (span_ok c g L) n" "wfn n" "branches c n" "c \<le> s" "s \<le> Seq l" "s < sp_end (sp n)"
    "sp_ledger (sp n) \<in> L" "Ancestor (sp_ledger (sp n)) s \<noteq> Ancestor l s"
  shows "wsum (desc l) n = 0"
proof (rule wsum_zero)
  fix p
  assume p: "valid_path p n"
  let ?m = "nodeAt p n"
  note m = sub_agree [OF assms(3,4) p]
  note tip = tip_at [OF all_sp_nodeAt [OF assms(2) p] wfn_nodeAt [OF assms(3) p]]
  show "\<not> desc l (sp ?m)"
  proof
    assume d: "desc l (sp ?m)"
    have "sp_end (sp ?m) \<noteq> 1"
      using d window [OF assms(1)] by (auto simp: desc_def u32_nat)
    then have L: "sp_ledger (sp ?m) \<in> L"
      using tip(4) by blast
    have "Seq l \<le> Seq (sp_ledger (sp ?m))"
      using tip(1) tip(3) [OF L] d by (simp add: desc_def word_less_nat_alt word_le_nat_alt)
    then have "agree c (sp_ledger (sp ?m)) l (unat (Seq l) + 1)"
      using history_agree(2) [OF L assms(1) _ _ _ order_refl, of "Seq l"] d own_id [OF assms(1)] window [OF assms(1)]
      by (simp add: desc_def)
    then have "Ancestor (sp_ledger (sp ?m)) s = Ancestor l s"
      using assms(5,6) by (simp add: agree_def word_le_nat_alt)
    then show False
      using m(1) assms(5,7,9) by (simp add: agree_def word_less_nat_alt)
  qed
qed

lemma wsum_desc_child:
  assumes l: "l \<in> L" and n: "all_sp (span_ok c g L) n" "wfn n" "branches c n"
    and k: "k < length (children n)" "sp_end (sp n) \<le> Seq l"
      "c \<le> sp_end (sp n) \<Longrightarrow> Ancestor (sp_ledger (sp (children n ! k))) (sp_end (sp n)) = Ancestor l (sp_end (sp n))"
  shows "wsum (desc l) n = wsum (desc l) (children n ! k)"
proof -
  have "wsum (desc l) (children n ! j) = 0" if j: "j < length (children n)" "j \<noteq> k" for j
  proof -
    let ?x = "children n ! j"
    note x = span_ok_child [OF n(1,2) nth_mem [OF j(1)]]
    have br: "branches c ?x" "c \<le> sp_end (sp n)"
      using n(3) j k(1) branches_node [of c n] by auto
    have "startID (sp ?x) \<noteq> startID (sp (children n ! k))"
      using n(3) branches_node [of c n] j k(1) nth_eq_iff_index_eq [of "map (\<lambda>x. startID (sp x)) (children n)" j k] by simp
    then have "Ancestor (sp_ledger (sp ?x)) (sp_end (sp n)) \<noteq> Ancestor l (sp_end (sp n))"
      using x(5) span_ok_child(5) [OF n(1,2) nth_mem [OF k(1)]] k(3) [OF br(2)] by (simp add: startID_def)
    then show ?thesis
      using wsum_desc_none [OF l x(7,6) br k(2) x(4,1)] by blast
  qed
  then have "(\<Sum>j \<in> {0..<length (children n)} - {k}. wsum (desc l) (children n ! j)) = 0"
    by simp
  then have "sum_list (map (wsum (desc l)) (children n)) = wsum (desc l) (children n ! k)"
    using k(1) sum.remove [of "{0..<length (children n)}" k "\<lambda>j. wsum (desc l) (children n ! j)"] by (simp add: sum_list_sum_nth)
  moreover have "\<not> desc l (sp n)"
    using k(2) by (simp add: desc_def not_less)
  ultimately show ?thesis
    by (simp add: wsum_node [of _ n])
qed

text \<open>The node whose tip is \<open>l\<close> has all the descendants of \<open>l\<close> below it.\<close>

lemma tip_own:
  assumes "all_sp (span_ok c g L) n" "wfn n" "m \<in> L" "TipID (tip (sp n)) = ID m"
  shows "sp_end (sp n) - 1 = Seq m" "agree c (sp_ledger (sp n)) m (unat (Seq m) + 1)" "unat (Seq m) + 1 = en n"
  using tip_ledger [OF assms(1-3), of "Seq m"] window [OF assms(3)] own_id [OF assms(3)] assms(4) tip_at(1) [OF assms(1,2)] by auto

lemma wsum_desc_at:
  assumes l: "l \<in> L"
  shows "all_sp (span_ok c g L) n \<Longrightarrow> wfn n \<Longrightarrow> branches c n \<Longrightarrow> valid_path p n \<Longrightarrow> TipID (tip (sp (nodeAt p n))) = ID l \<Longrightarrow>
    wsum (desc l) n = total (nodeAt p n)"
proof (induction p arbitrary: n)
  case Nil
  have h: "agree c (sp_ledger (sp n)) l (unat (Seq l) + 1)" "unat (Seq l) + 1 = en n"
    using tip_own [OF Nil.prems(1,2) l] Nil.prems(5) by simp_all
  then have "Seq l < sp_end (sp n)"
    by (simp add: word_less_nat_alt)
  then show ?case
    using wsum_desc_all [OF Nil.prems(2,3) l h(1)] by simp
next
  case (Cons i p)
  let ?x = "children n ! i" and ?m = "nodeAt (i # p) n"
  have i: "i < length (children n)" "valid_path p ?x" "branches c ?x"
    using Cons.prems(3,4) branches_node [of c n] by simp_all
  note x = span_ok_child [OF Cons.prems(1,2) nth_mem [OF i(1)]]
  note h = tip_own [OF all_sp_nodeAt [OF Cons.prems(1,4)] wfn_nodeAt [OF Cons.prems(2,4)] l Cons.prems(5)]
  have "en n < en ?m"
    using sub_agree(2) [OF Cons.prems(2-4)] by blast
  then have le: "sp_end (sp n) \<le> Seq l"
    using h(3) by (simp add: word_le_nat_alt)
  have "Ancestor (sp_ledger (sp ?x)) (sp_end (sp n)) = Ancestor l (sp_end (sp n))" if c: "c \<le> sp_end (sp n)"
  proof -
    have "Ancestor (sp_ledger (sp ?x)) (sp_end (sp n)) = Ancestor (sp_ledger (sp ?m)) (sp_end (sp n))"
      using sub_agree(1) [OF x(6) i(3,2)] c x(4) by (simp add: agree_def word_less_nat_alt)
    also have "\<dots> = Ancestor l (sp_end (sp n))"
      using h(2) c le by (simp add: agree_def word_le_nat_alt)
    finally show ?thesis .
  qed
  then have "wsum (desc l) n = wsum (desc l) ?x"
    using wsum_desc_child [OF l Cons.prems(1-3) i(1) le] by blast
  then show ?case
    using Cons.IH [OF x(7,6) i(3,2)] Cons.prems(5) by simp
qed

text \<open>The descent of \<open>find\<close> ends at the node with all the descendants of \<open>l\<close> below it, if there is one.\<close>

lemma wsum_desc_end:
  assumes l: "l \<in> L" and n: "all_sp (span_ok c g L) n" "wfn n" "branches c n" "sp_start (sp n) < diff (sp n) l"
    and leaf: "diff (sp n) l = sp_end (sp n) \<Longrightarrow> \<forall>x \<in> set (children n). \<not> sp_end (sp n) < diff (sp x) l"
  shows "wsum (desc l) n = (if Seq l < diff (sp n) l then total n else 0)"
proof -
  let ?d = "diff (sp n) l"
  note ok = diff_ok [OF span_okD [OF n(1)] l n(2,4)]
  consider (upto) "Seq l < ?d" | (inside) "?d \<le> Seq l" "?d \<noteq> sp_end (sp n)" | (after) "?d \<le> Seq l" "?d = sp_end (sp n)"
    by fastforce
  then show ?thesis
  proof cases
    case upto
    then have "agree c (sp_ledger (sp n)) l (unat (Seq l) + 1)"
      using agree_mono [OF agree_sym [OF ok(1)], of "unat (Seq l) + 1"] by (simp add: word_less_nat_alt)
    moreover have "Seq l < sp_end (sp n)"
      using upto ok(3) by (cases "?d = sp_end (sp n)") (simp_all add: order.strict_trans)
    ultimately show ?thesis
      using wsum_desc_all [OF n(2,3) l] upto by simp
  next
    case inside
    have M: "sp_ledger (sp n) \<in> L" "Mismatch (sp_ledger (sp n)) l \<le> ?d" "?d < sp_end (sp n)"
      using ok(3) [OF inside(2)] by blast+
    have "c \<le> ?d"
      using Mismatch_floor(1) [OF M(1) l] M(2) by (simp add: less_imp_le)
    then have "wsum (desc l) n = 0"
      using wsum_desc_none [OF l n(1-3) _ inside(1) M(3,1)] span_differs [OF M(1) l n(2) M(3) inside(1) M(2)] by blast
    then show ?thesis
      using inside(1) by (auto dest: leD)
  next
    case after
    have "wsum (desc l) x = 0" if x: "x \<in> set (children n)" for x
    proof -
      note x' = span_ok_child [OF n(1,2) x]
      have br: "branches c x"
        using x n(3) branches_node [of c n] by blast
      have nd: "\<not> sp_end (sp n) < diff (sp x) l"
        using leaf after(2) x by blast
      note differs = child_differs [OF n(1,2) l x nd]
      show ?thesis
        using wsum_desc_none [OF l x'(7,6) br less_imp_le [OF differs(1)] _ x'(4,1)] differs(2) after by simp
    qed
    then have "sum_list (map (wsum (desc l)) (children n)) = 0"
      by simp
    then show ?thesis
      using after leD [OF after(1)] by (simp add: wsum_node [of "desc l" n] desc_def [of l "sp n"])
  qed
qed

lemma wsum_desc_find:
  assumes l: "l \<in> L" and find: "findFrom l n (diff (sp n) l) = (p, q)"
    and n: "all_sp (span_ok c g L) n" "wfn n" "branches c n" "sp_start (sp n) < diff (sp n) l"
  shows "wsum (desc l) n = (if Seq l < q then total (nodeAt p n) else 0)"
  using find n
proof (induction rule: find_induct)
  case (stop n)
  then show ?case
    using wsum_desc_end [OF l stop(2-5)] by simp
next
  case (leaf n)
  then show ?case
    using wsum_desc_end [OF l leaf(3-6)] by simp
next
  case (step n k p q)
  let ?x = "children n ! k"
  note x = span_ok_child [OF step(6,7) nth_mem [OF step(2)]]
  have br: "branches c ?x"
    using step(2,8) branches_node [of c n] by simp
  have lt: "sp_start (sp ?x) < diff (sp ?x) l"
    using step(3) x(5) by simp
  have "agree c l (sp_ledger (sp ?x)) (unat (diff (sp ?x) l))"
    by (rule diff_ok(1) [OF span_okD [OF x(7)] l x(6) lt])
  then have eq: "c \<le> sp_end (sp n) \<Longrightarrow> Ancestor (sp_ledger (sp ?x)) (sp_end (sp n)) = Ancestor l (sp_end (sp n))"
    using lt x(5) by (simp add: agree_def word_less_nat_alt)
  have "en n < unat (Mismatch (sp_ledger (sp ?x)) l)"
    using diff_nat [OF _ lt] x(4,5) lt by (simp add: word_less_nat_alt less_imp_le)
  then have le: "sp_end (sp n) \<le> Seq l"
    using Mismatch_bounds(3) [OF ledger_fits [OF x(1)] ledger_fits [OF l]] by (simp add: word_le_nat_alt)
  have "wsum (desc l) n = wsum (desc l) ?x"
    by (rule wsum_desc_child [OF l step(6-8,2) le eq])
  then show ?case
    using step(5) [OF x(7,6) br lt] by simp
qed

lemma BranchSupport_desc:
  assumes t: "trie_sem c g L t" and l: "l \<in> L"
  shows "unat (BranchSupport t l) = wsum (desc l) (root t)"
proof -
  note inv = trie_semD [OF t]
  have branch: "unat (branchSupport (nodeAt p (root t))) = total (nodeAt p (root t))" if "valid_path p (root t)" for p
    using unat_branchSupport [OF wfn_nodeAt [OF inv(2) that]] wsum_nodeAt [OF that, of "\<lambda>_. True"] inv(5) by simp
  show ?thesis
  proof (cases "findByLedgerID t l")
    case (Some p)
    then have p: "valid_path p (root t)" "TipID (tip (sp (nodeAt p (root t)))) = ID l"
      using findByIDWalk_Some by (auto simp: findByLedgerID_def)
    then show ?thesis
      using wsum_desc_at [OF l inv(3,2,4) p] branch [OF p(1)] Some by (simp add: BranchSupport_def)
  next
    case None
    obtain p d where find: "find t l = (p, d)"
      by (cases "find t l")
    note loc = find_location [OF inv(1) ledger_fits [OF l] find]
    have "sp_start (sp (root t)) < diff (sp (root t)) l"
      using diff_root [OF inv(1) ledger_fits [OF l]] inv(1) by (simp add: trie_inv_def)
    then have "wsum (desc l) (root t) = (if Seq l < d then total (nodeAt p (root t)) else 0)"
      using wsum_desc_find [OF l _ inv(3,2,4)] find by (simp add: find_def)
    moreover have "Seq l < d \<longrightarrow> Seq l < sp_end (sp (nodeAt p (root t)))"
      using loc(6) order_less_le_trans by blast
    ultimately show ?thesis
      using None find branch [OF loc(1)] by (auto simp: BranchSupport_def)
  qed
qed

text \<open>A supported tip with the identifier of a ledger descends from \<open>l\<close> exactly when the ledger does.\<close>

lemma desc_descends:
  assumes n: "all_sp (span_ok c g L) n" "wfn n" and m: "m \<in> L" "TipID (tip (sp n)) = ID m" and l: "l \<in> L"
  shows "desc l (sp n) \<longleftrightarrow> descends m l"
proof -
  note h = tip_own [OF n m]
  have "Seq l < sp_end (sp n) \<longleftrightarrow> Seq l \<le> Seq m"
    using h(3) by (auto simp: word_less_nat_alt word_le_nat_alt)
  moreover have "Ancestor (sp_ledger (sp n)) (Seq l) = Ancestor m (Seq l)" if "Seq l \<le> Seq m"
    using h(2) that window [OF l] by (simp add: agree_def word_le_nat_alt)
  ultimately show ?thesis
    by (auto simp: desc_def descends_def)
qed

end

section \<open>Sequences of operations\<close>

datatype trie_op = OpInsert Ledger u32 | OpRemove Ledger u32

fun trie_run :: "trie_op list \<Rightarrow> Trie \<Rightarrow> Trie option" where
  "trie_run [] t = Some t"
| "trie_run (OpInsert l cnt # ops) t = (case Insert l cnt t of None \<Rightarrow> None | Some t' \<Rightarrow> trie_run ops t')"
| "trie_run (OpRemove l cnt # ops) t = (case Remove l cnt t of None \<Rightarrow> None | Some (_, t') \<Rightarrow> trie_run ops t')"

fun op_ledger :: "trie_op \<Rightarrow> Ledger" where
  "op_ledger (OpInsert l cnt) = l"
| "op_ledger (OpRemove l cnt) = l"

fun op_added :: "trie_op \<Rightarrow> nat" where
  "op_added (OpInsert l cnt) = unat cnt"
| "op_added (OpRemove l cnt) = 0"

text \<open>The specification: a count of support per identifier.\<close>

fun spec_step :: "trie_op \<Rightarrow> (LedgerID \<Rightarrow> nat) \<Rightarrow> LedgerID \<Rightarrow> nat" where
  "spec_step (OpInsert l cnt) f = f(ID l := f (ID l) + unat cnt)"
| "spec_step (OpRemove l cnt) f = f(ID l := f (ID l) - unat cnt)"

definition spec_run :: "trie_op list \<Rightarrow> LedgerID \<Rightarrow> nat" where
  "spec_run ops = fold spec_step ops (\<lambda>_. 0)"

lemma spec_step_pos: "0 < fold spec_step ops f i \<Longrightarrow> 0 < f i \<or> (\<exists>op \<in> set ops. ID (op_ledger op) = i)"
proof (induction ops arbitrary: f)
  case (Cons op ops)
  have "0 < spec_step op f i \<or> (\<exists>op \<in> set ops. ID (op_ledger op) = i)"
    using Cons by simp
  moreover have "0 < spec_step op f i \<Longrightarrow> 0 < f i \<or> ID (op_ledger op) = i"
    by (cases op) (auto split: if_splits)
  ultimately show ?case
    by auto
qed simp

context ledger_family
begin

lemma trie_run_sem:
  "trie_sem c g L t \<Longrightarrow> \<forall>i. idsum i (root t) = f i \<Longrightarrow> \<forall>op \<in> set ops. op_ledger op \<in> L \<Longrightarrow>
    total (root t) + sum_list (map op_added ops) < 2 ^ 32 \<Longrightarrow>
    \<exists>t'. trie_run ops t = Some t' \<and> trie_sem c g L t' \<and> (\<forall>i. idsum i (root t') = fold spec_step ops f i)"
proof (induction ops arbitrary: t f)
  case (Cons op ops)
  have rest: "\<forall>op \<in> set ops. op_ledger op \<in> L"
    using Cons.prems(3) by simp
  show ?case
  proof (cases op)
    case (OpInsert l cnt)
    obtain t' where t': "Insert l cnt t = Some t'" "trie_sem c g L t'" "total (root t') = total (root t) + unat cnt"
      "\<forall>i. idsum i (root t') = idsum i (root t) + (if i = ID l then unat cnt else 0)"
      using Insert_sem [OF Cons.prems(1), of l cnt] Cons.prems(3,4) OpInsert by auto
    have "\<forall>i. idsum i (root t') = spec_step op f i"
      using t'(4) Cons.prems(2) OpInsert by simp
    from Cons.IH [OF t'(2) this rest] show ?thesis
      using t'(1,3) Cons.prems(4) OpInsert by (simp add: fun_upd_def)
  next
    case (OpRemove l cnt)
    obtain b t' where t': "Remove l cnt t = Some (b, t')" "trie_sem c g L t'" "total (root t') \<le> total (root t)"
      "\<forall>i. idsum i (root t') = (if i = ID l then idsum i (root t) - unat cnt else idsum i (root t))"
      using Remove_sem [OF Cons.prems(1), of l cnt] Cons.prems(3) OpRemove by auto
    have "\<forall>i. idsum i (root t') = spec_step op f i"
      using t'(4) Cons.prems(2) OpRemove by simp
    from Cons.IH [OF t'(2) this rest] show ?thesis
      using t'(1,3) Cons.prems(4) OpRemove by (simp add: fun_upd_def)
  qed
qed simp

lemma trie_run_New:
  assumes "\<forall>op \<in> set ops. op_ledger op \<in> L" "sum_list (map op_added ops) < 2 ^ 32"
  obtains t where "trie_run ops (New g) = Some t" "trie_sem c g L t" "\<forall>i. idsum i (root t) = spec_run ops i"
proof -
  have z: "wsum P (root (New g)) = 0" for P
    by (simp add: New_def newEmptyNode_def)
  show thesis
    using trie_run_sem [OF trie_sem_New, of "\<lambda>_. 0" ops] assms z that by (auto simp: spec_run_def)
qed

lemma supported_op:
  assumes "\<forall>i. idsum i (root t) = spec_run ops i" "valid_path p (root t)" "tipSupport (nodeAt p (root t)) \<noteq> 0"
  obtains op where "op \<in> set ops" "ID (op_ledger op) = TipID (tip (sp (nodeAt p (root t))))"
proof -
  let ?n = "nodeAt p (root t)"
  have "unat (tipSupport ?n) \<le> idsum (TipID (tip (sp ?n))) (root t)"
    using wsum_nodeAt [OF assms(2), of "\<lambda>s. TipID (tip s) = TipID (tip (sp ?n))"] by (simp add: wsum_node [of _ ?n])
  then have "0 < spec_run ops (TipID (tip (sp ?n)))"
    using assms(1,3) by (simp add: unat_gt_0 [symmetric])
  then show thesis
    using that spec_step_pos [of ops "\<lambda>_. 0"] by (auto simp: spec_run_def)
qed

lemma trie_run_branch:
  assumes "\<forall>op \<in> set ops. op_ledger op \<in> L" "trie_sem c g L t" "\<forall>i. idsum i (root t) = spec_run ops i" "l \<in> L"
  shows "unat (BranchSupport t l) = (\<Sum>i \<in> {ID m |m. m \<in> op_ledger ` set ops \<and> descends m l}. spec_run ops i)"
proof -
  let ?I = "{ID m |m. m \<in> op_ledger ` set ops \<and> descends m l}"
  note inv = trie_semD [OF assms(2)]
  have "wsum (desc l) (root t) = wsum (\<lambda>s. TipID (tip s) \<in> ?I) (root t)"
  proof (rule wsum_cong_path)
    fix p
    let ?n = "nodeAt p (root t)"
    assume p: "valid_path p (root t)" "tipSupport ?n \<noteq> 0"
    have n: "all_sp (span_ok c g L) ?n" "wfn ?n"
      using all_sp_nodeAt [OF inv(3) p(1)] wfn_nodeAt [OF inv(2) p(1)] by blast+
    obtain op where op: "op \<in> set ops" "ID (op_ledger op) = TipID (tip (sp ?n))"
      by (rule supported_op [OF assms(3) p])
    show "desc l (sp ?n) = (TipID (tip (sp ?n)) \<in> ?I)"
    proof
      assume "desc l (sp ?n)"
      then have "descends (op_ledger op) l"
        using desc_descends [OF n] op assms(1,4) by auto
      then show "TipID (tip (sp ?n)) \<in> ?I"
        using op by (intro CollectI exI [of _ "op_ledger op"]) simp
    next
      assume "TipID (tip (sp ?n)) \<in> ?I"
      then show "desc l (sp ?n)"
        using desc_descends [OF n] assms(1,4) by auto
    qed
  qed
  also have "\<dots> = (\<Sum>i \<in> ?I. idsum i (root t))"
    by (rule wsum_members) (auto intro: finite_subset [of _ "ID ` op_ledger ` set ops"])
  finally show ?thesis
    using BranchSupport_desc [OF assms(2,4)] assms(3) by simp
qed

end

section \<open>Properties of the trie\<close>

text \<open>C4: Under the unique-history contract of the ledgers, any sequence of insertions and removals
  runs without a panic as long as the inserted support fits in a \<open>uint32\<close>, and \<open>TipSupport\<close> of a
  ledger is what was inserted for it less what was removed, never below zero.\<close>

theorem TipSupport_refines:
  assumes "ledger_family c g L" "\<forall>op \<in> set ops. op_ledger op \<in> L" "sum_list (map op_added ops) < 2 ^ 32"
  shows "\<exists>t. trie_run ops (New g) = Some t \<and> (\<forall>l. unat (TipSupport t l) = spec_run ops (ID l))"
proof -
  obtain t where "trie_run ops (New g) = Some t" "trie_sem c g L t" "\<forall>i. idsum i (root t) = spec_run ops i"
    by (rule ledger_family.trie_run_New [OF assms])
  then show ?thesis
    using ledger_family.TipSupport_idsum [OF assms(1)] by auto
qed

definition ex_ops :: "trie_op list" where
  "ex_ops = [OpInsert (test_ledger [1, 2]) 3, OpInsert (test_ledger [1, 3]) 2, OpRemove (test_ledger [1, 2]) 1]"

lemma ex_ops_ok:
  "\<forall>op \<in> set ex_ops. op_ledger op \<in> test_ledgers" "sum_list (map op_added ex_ops) < 2 ^ 32"
  by (simp_all add: ex_ops_def test_ledgers_def is_path_def)

theorem TipSupport_refines_witness:
  "\<exists>t. trie_run ex_ops (New (test_ledger [])) = Some t \<and> (\<forall>l. unat (TipSupport t l) = spec_run ex_ops (ID l))"
  by (rule TipSupport_refines [OF test.ledger_family_axioms ex_ops_ok])

text \<open>C5: \<open>BranchSupport\<close> of a ledger is the sum of the support of the ledger itself and of all the
  ledgers that descend from it, whether or not the ledger was ever inserted.\<close>

theorem BranchSupport_refines:
  assumes "ledger_family c g L" "\<forall>op \<in> set ops. op_ledger op \<in> L" "sum_list (map op_added ops) < 2 ^ 32" "l \<in> L"
    "trie_run ops (New g) = Some t"
  shows "unat (BranchSupport t l) = (\<Sum>i \<in> {ID m |m. m \<in> op_ledger ` set ops \<and> descends m l}. spec_run ops i)"
proof -
  obtain t' where "trie_run ops (New g) = Some t'" "trie_sem c g L t'" "\<forall>i. idsum i (root t') = spec_run ops i"
    by (rule ledger_family.trie_run_New [OF assms(1-3)])
  then show ?thesis
    using ledger_family.trie_run_branch [OF assms(1,2) _ _ assms(4)] assms(5) by simp
qed

theorem BranchSupport_refines_witness:
  "\<exists>t. trie_run ex_ops (New (test_ledger [])) = Some t \<and>
    unat (BranchSupport t (test_ledger [1])) =
      (\<Sum>i \<in> {ID m |m. m \<in> op_ledger ` set ex_ops \<and> descends m (test_ledger [1])}. spec_run ex_ops i)"
proof -
  obtain t where t: "trie_run ex_ops (New (test_ledger [])) = Some t"
    by (rule test.trie_run_New [OF ex_ops_ok])
  moreover have "test_ledger [1] \<in> test_ledgers"
    by (simp add: test_ledgers_def is_path_def)
  ultimately show ?thesis
    using BranchSupport_refines [OF test.ledger_family_axioms ex_ops_ok _ t] by blast
qed

section \<open>The structural invariant without unique history\<close>

text \<open>Identifiers of the ledgers to remove occur in an ancestry at their own sequence number only;
  nothing is said about how the ancestries relate, or how far back they reach.\<close>

definition coherent :: "Ledger \<Rightarrow> Ledger set \<Rightarrow> bool" where
  "coherent g L \<longleftrightarrow> fits g \<and> (\<forall>a \<in> L. fits a) \<and>
     (\<forall>a \<in> insert g L. \<forall>b \<in> L. \<forall>s. Ancestor a s = ID b \<longrightarrow> s = Seq b)"

definition led_in :: "Ledger set \<Rightarrow> span \<Rightarrow> bool" where
  "led_in L s \<longleftrightarrow> sp_ledger s \<in> L"

lemma tip_pred_led_in [simp]: "tip_pred (led_in L)"
  by (simp add: tip_pred_def led_in_def)

lemma coherent_id_at_seq:
  assumes "coherent g L" "all_sp (led_in (insert g L)) n" "l \<in> L"
  shows "id_at_seq n l"
  unfolding id_at_seq_def
proof (intro allI impI)
  fix p
  assume p: "valid_path p n" "TipID (tip (sp (nodeAt p n))) = ID l"
  have "sp_ledger (sp (nodeAt p n)) \<in> insert g L"
    using all_sp_nodeAt [OF assms(2) p(1)] all_sp_node [of "led_in (insert g L)" "nodeAt p n"] by (simp add: led_in_def)
  then show "sp_end (sp (nodeAt p n)) - 1 = Seq l"
    using assms(1,3) p(2) unfolding coherent_def tip_def Let_def by (metis SpanTip.select_convs(2))
qed

lemma trie_run_inv:
  assumes C: "coherent g L"
  shows "trie_inv t \<Longrightarrow> all_sp (led_in (insert g L)) (root t) \<Longrightarrow> \<forall>op \<in> set ops. op_ledger op \<in> L \<Longrightarrow>
    total (root t) + sum_list (map op_added ops) < 2 ^ 32 \<Longrightarrow> \<exists>t'. trie_run ops t = Some t' \<and> trie_inv t'"
proof (induction ops arbitrary: t)
  case (Cons op ops)
  have rest: "\<forall>op \<in> set ops. op_ledger op \<in> L"
    using Cons.prems(3) by simp
  show ?case
  proof (cases op)
    case (OpInsert l cnt)
    have l: "l \<in> insert g L" "fits l"
      using Cons.prems(3) C OpInsert by (auto simp: coherent_def)
    obtain p d where find: "find t l = (p, d)"
      by (cases "find t l")
    note loc = find_location [OF Cons.prems(1) l(2) find]
    show ?thesis
    proof (cases "cnt = 0")
      case True
      then show ?thesis
        using Cons.IH [OF Cons.prems(1,2) rest] Cons.prems(4) OpInsert by (simp add: Insert_def)
    next
      case False
      have tot: "total (root t) + unat cnt < 2 ^ 32"
        using Cons.prems(4) OpInsert by simp
      note spec = Insert_spec [OF Cons.prems(1) l(2) tot False find]
      have "all_sp (led_in (insert g L)) (root (seqSupportAdd (Seq l) cnt
          (t\<lparr>root := replaceAt p (growNode (split_at (nodeAt p (root t)) d) l d cnt) cnt (root t)\<rparr>)))"
        unfolding spec(4)
      proof (rule all_sp_replaceAt [OF Cons.prems(2) loc(1) all_sp_growNode [OF tip_pred_led_in all_sp_split_at [OF tip_pred_led_in] _ loc(8)]])
        show n: "all_sp (led_in (insert g L)) (nodeAt p (root t))"
          by (rule all_sp_nodeAt [OF Cons.prems(2) loc(1)])
        show "led_in (insert g L) ((sp (nodeAt p (root t)))\<lparr>sp_end := d\<rparr>)"
          using n all_sp_node [of _ "nodeAt p (root t)"] by (simp add: led_in_def)
        show "led_in (insert g L) (newSpanFromLedger l)"
          using l(1) by (simp add: led_in_def newSpanFromLedger_def)
      qed
      from Cons.IH [OF spec(2) this rest] show ?thesis
        using spec(1) spec(5) [OF tip_pred_seq(2)] Cons.prems(4) OpInsert by simp
    qed
  next
    case (OpRemove l cnt)
    have l: "l \<in> L"
      using Cons.prems(3) OpRemove by simp
    from Cons.prems(1) coherent_id_at_seq [OF C Cons.prems(2) l] show ?thesis
    proof (cases rule: Remove_spec [of t l cnt])
      case absent
      then show ?thesis
        using Cons.IH [OF Cons.prems(1,2) rest] Cons.prems(4) OpRemove by simp
    next
      case (present p t' n)
      have p: "valid_path p (root t)"
        using findByIDWalk_Some present(1) by (auto simp: findByLedgerID_def)
      have "all_sp (led_in (insert g L)) (root t')"
        unfolding present(5)
        by (rule all_sp_removeAt [OF tip_pred_led_in p _ _ Cons.prems(2)]) (use present(3) Cons.prems(1) in \<open>simp_all add: trie_inv_def\<close>)
      from Cons.IH [OF present(6) this rest] show ?thesis
        using present(4) present(8) [OF tip_pred_seq(2)] Cons.prems(4) OpRemove by simp
    qed
  qed
qed simp


text \<open>Two partial ancestries that part above their common floor.\<close>

definition ex_g :: Ledger where
  "ex_g = \<lparr>ID = [], Seq = 0, MinSeq = 0, Ancestor = (\<lambda>s. [])\<rparr>"

definition ex_a :: Ledger where
  "ex_a = \<lparr>ID = [1], Seq = 9, MinSeq = 8, Ancestor = (\<lambda>s. if s = 9 then [1] else if s = 8 then [7] else [])\<rparr>"

definition ex_b :: Ledger where
  "ex_b = \<lparr>ID = [2], Seq = 10, MinSeq = 8,
     Ancestor = (\<lambda>s. if s = 10 then [2] else if s = 9 then [4] else if s = 8 then [7] else [])\<rparr>"


end
