(* ===== verification/ConsensusTypes.thy ===== *)
theory ConsensusTypes
  imports GoBytes LedgerTrieProps
begin

text \<open>
  The messages of consensus (\<open>internal/consensus/types.go\<close>).  A fixed array of bytes is a list of
  that many bytes.
\<close>

type_synonym NodeID = "u8 list"

record Validation =
  vLedgerID :: LedgerID
  vLedgerSeq :: u32
  vNodeID :: NodeID
  vSignTime :: Time
  vSeenTime :: Time
  vCloseTime :: Time
  vSignature :: "u8 list"
  vFull :: bool
  vFlags :: u32
  vCookie :: u64
  vLoadFee :: u32
  vConsensusHash :: "u8 list"
  vServerVersion :: u64
  vValidatedHash :: "u8 list"
  vAmendments :: "u8 list list"
  vBaseFee :: u64
  vReserveBase :: u32
  vReserveIncrement :: u32
  vBaseFeeDrops :: u64
  vReserveBaseDrops :: u64
  vReserveIncrementDrops :: u64
  vSigningData :: "u8 list"
  vSuppressionHash :: "u8 list"
  vRaw :: "u8 list"

definition zeroNodeID :: NodeID where
  "zeroNodeID = replicate 33 0"

text \<open>The zero value of the type.\<close>

definition zeroValidation :: Validation where
  "zeroValidation = \<lparr>vLedgerID = zeroID, vLedgerSeq = 0, vNodeID = zeroNodeID, vSignTime = zeroTime, vSeenTime = zeroTime,
     vCloseTime = zeroTime, vSignature = [], vFull = False, vFlags = 0, vCookie = 0, vLoadFee = 0, vConsensusHash = zeroID,
     vServerVersion = 0, vValidatedHash = zeroID, vAmendments = [], vBaseFee = 0, vReserveBase = 0, vReserveIncrement = 0,
     vBaseFeeDrops = 0, vReserveBaseDrops = 0, vReserveIncrementDrops = 0, vSigningData = [], vSuppressionHash = zeroID, vRaw = []\<rparr>"

end
