(* ===== verification/AncestryProvider.thy ===== *)
theory AncestryProvider
  imports TestLedgers
begin

text \<open>
  The provider of ancestries (\<open>internal/consensus/rcl/ledger_provider.go\<close>): it walks the parent
  hashes of a ledger backwards, at most 256 of them, and keeps the chains it built in a cache with
  a bounded number of entries, the least recently used of which goes first.

  The lookup of a header by hash is the argument \<open>lk\<close>; it stands for the ledger service, and an
  error and a nil header are both \<open>None\<close>.  An element of the Go list is a handle with its value; the
  cache maps an identifier to an element.  A panic (an index out of range) is \<open>None\<close>.
\<close>

section \<open>Chains\<close>

record LedgerHeader =
  lh_seq :: u32
  lh_parent :: LedgerID

type_synonym lookup = "LedgerID \<Rightarrow> LedgerHeader option"

definition maxProviderAncestors :: u32 where "maxProviderAncestors = 256"

definition providerCacheCapacity :: int where "providerCacheCapacity = 1024"

record providerLedger =
  pl_id :: LedgerID
  pl_seq :: u32
  pl_minSeq :: u32
  pl_ancestors :: "LedgerID list"

text \<open>The methods of \<open>providerLedger\<close>, as the \<open>Ledger\<close> interface sees them.\<close>

definition providerView :: "providerLedger \<Rightarrow> Ledger" where
  "providerView l = \<lparr>ID = pl_id l, Seq = pl_seq l, MinSeq = pl_minSeq l,
     Ancestor = (\<lambda>s. if s = pl_seq l then pl_id l
       else if s < pl_minSeq l \<or> s > pl_seq l then zeroID
       else pl_ancestors l ! unat (s - pl_minSeq l))\<rparr>"

section \<open>The cache\<close>

type_synonym element = "nat \<times> LedgerID \<times> providerLedger"

record LedgerProvider =
  lp_maxItems :: int
  lp_cache :: "(LedgerID \<times> element) list"
  lp_lru :: "element list"
  lp_next :: nat

definition newLedgerProviderFromLookup :: LedgerProvider where
  "newLedgerProviderFromLookup = \<lparr>lp_maxItems = providerCacheCapacity, lp_cache = [], lp_lru = [], lp_next = 0\<rparr>"

definition MoveToFront :: "element \<Rightarrow> element list \<Rightarrow> element list" where
  "MoveToFront e l = (if e \<in> set l then e # remove1 e l else l)"

definition cacheGet :: "LedgerID \<Rightarrow> LedgerProvider \<Rightarrow> providerLedger option \<times> LedgerProvider" where
  "cacheGet i p =
     (case map_of (lp_cache p) i of
        None \<Rightarrow> (None, p)
      | Some e \<Rightarrow> (Some (snd (snd e)), p\<lparr>lp_lru := MoveToFront e (lp_lru p)\<rparr>))"

function evict :: "LedgerProvider \<Rightarrow> LedgerProvider" where
  "evict p =
     (if int (length (lp_lru p)) > lp_maxItems p \<and> lp_lru p \<noteq> []
      then let old = last (lp_lru p)
           in evict (p\<lparr>lp_cache := AList.delete (fst (snd old)) (lp_cache p), lp_lru := butlast (lp_lru p)\<rparr>)
      else p)"
  by pat_completeness auto
termination
  by (relation "measure (\<lambda>p. length (lp_lru p))") auto

definition cachePut :: "LedgerID \<Rightarrow> providerLedger \<Rightarrow> LedgerProvider \<Rightarrow> LedgerProvider" where
  "cachePut i pl p =
     (case map_of (lp_cache p) i of
        Some e \<Rightarrow> p\<lparr>lp_lru := MoveToFront e (lp_lru p)\<rparr>
      | None \<Rightarrow>
          let e = (lp_next p, i, pl)
          in evict (p\<lparr>lp_lru := e # lp_lru p, lp_cache := AList.update i e (lp_cache p), lp_next := lp_next p + 1\<rparr>))"

section \<open>Building a chain\<close>

text \<open>The entries of a cached chain that the new one needs; the indices \<open>js\<close> are below \<open>idx\<close>.\<close>

fun borrow :: "providerLedger \<Rightarrow> u32 \<Rightarrow> nat list \<Rightarrow> LedgerID list \<Rightarrow> LedgerID list option" where
  "borrow cached myMinSeq [] ancestors = Some ancestors"
| "borrow cached myMinSeq (j # js) ancestors =
     (let wantSeq = myMinSeq + word_of_nat j; i = unat (wantSeq - pl_minSeq cached)
      in if wantSeq \<ge> pl_minSeq cached \<and> wantSeq < pl_seq cached
         then if i < length (pl_ancestors cached)
              then borrow cached myMinSeq js (ancestors[j := pl_ancestors cached ! i])
              else None
         else borrow cached myMinSeq js ancestors)"

lemma unat_step: "(a :: u32) < b \<Longrightarrow> unat (a + 1) = unat a + 1"
proof -
  assume "a < b"
  then have "unat a < unat b" "unat b < 4294967296"
    by (simp_all add: word_less_nat_alt)
  then have "unat a < 4294967295"
    by linarith
  then show ?thesis
    by (simp add: u32_succ)
qed

text \<open>The loop from \<open>filled\<close> on, with the header \<open>cur\<close> of the last ledger reached.  Result: the
  ancestors, their first sequence number, and the provider.\<close>

function chainLoop :: "lookup \<Rightarrow> u32 \<Rightarrow> u32 \<Rightarrow> LedgerHeader \<Rightarrow> u32 \<Rightarrow> LedgerID list \<Rightarrow> u32 \<Rightarrow> LedgerProvider \<Rightarrow>
    (LedgerID list \<times> u32 \<times> LedgerProvider) option" where
  "chainLoop lk tipSeq targetDepth cur filled ancestors myMinSeq p =
     (if filled < targetDepth
      then let parentHash = lh_parent cur;
               idx = targetDepth - 1 - filled;
               ancestors = ancestors[unat idx := parentHash];
               filled' = filled + 1
           in if filled' \<ge> targetDepth then Some (ancestors, myMinSeq, p)
              else case cacheGet parentHash p of
                     (Some cached, p') \<Rightarrow>
                       (case borrow cached myMinSeq [0..<unat idx] ancestors of
                          None \<Rightarrow> None
                        | Some ancestors \<Rightarrow>
                            if pl_minSeq cached > myMinSeq
                            then let gap = unat (pl_minSeq cached - myMinSeq)
                                 in if gap \<le> length ancestors then Some (drop gap ancestors, pl_minSeq cached, p') else None
                            else Some (ancestors, myMinSeq, p'))
                   | (None, p') \<Rightarrow>
                       (case lk parentHash of
                          None \<Rightarrow> Some (drop (unat idx) ancestors, tipSeq - filled', p')
                        | Some parent \<Rightarrow> chainLoop lk tipSeq targetDepth parent filled' ancestors myMinSeq p')
      else Some (ancestors, myMinSeq, p))"
  by pat_completeness auto
termination
  by (relation "measure (\<lambda>(lk, T, D, cur, f, xs, m, p). unat D - unat f)") (auto simp: unat_step word_less_nat_alt diff_less_mono2)

declare evict.simps [simp del] chainLoop.simps [simp del]

text \<open>Outer \<open>None\<close>: panic; inner \<open>None\<close>: nil.\<close>

definition buildChain :: "lookup \<Rightarrow> LedgerID \<Rightarrow> LedgerProvider \<Rightarrow> (providerLedger option \<times> LedgerProvider) option" where
  "buildChain lk i p =
     (case lk i of
        None \<Rightarrow> Some (None, p)
      | Some hdr \<Rightarrow>
          let tipSeq = lh_seq hdr
          in if tipSeq = 0 then Some (None, p)
             else let targetDepth = (if tipSeq - 1 > maxProviderAncestors then maxProviderAncestors else tipSeq - 1)
                  in if targetDepth = 0
                     then Some (Some \<lparr>pl_id = i, pl_seq = tipSeq, pl_minSeq = tipSeq, pl_ancestors = []\<rparr>, p)
                     else case chainLoop lk tipSeq targetDepth hdr 0 (replicate (unat targetDepth) zeroID)
                            (tipSeq - targetDepth) p of
                            None \<Rightarrow> None
                          | Some (ancestors, myMinSeq, p') \<Rightarrow>
                              Some (Some \<lparr>pl_id = i, pl_seq = tipSeq, pl_minSeq = myMinSeq, pl_ancestors = ancestors\<rparr>, p'))"

text \<open>A provider without a lookup is disabled.\<close>

definition LedgerByID :: "lookup option \<Rightarrow> LedgerID \<Rightarrow> LedgerProvider \<Rightarrow> (Ledger option \<times> LedgerProvider) option" where
  "LedgerByID lookup i p =
     (case lookup of
        None \<Rightarrow> Some (None, p)
      | Some lk \<Rightarrow>
          (case cacheGet i p of
             (Some cached, p') \<Rightarrow> Some (Some (providerView cached), p')
           | (None, p') \<Rightarrow>
               (case buildChain lk i p' of
                  None \<Rightarrow> None
                | Some (None, p'') \<Rightarrow> Some (None, p'')
                | Some (Some b, p'') \<Rightarrow> Some (Some (providerView b), cachePut i b p''))))"

section \<open>Ancestries\<close>

text \<open>The ledger \<open>k\<close> links behind \<open>i\<close>.\<close>

fun anc :: "lookup \<Rightarrow> nat \<Rightarrow> LedgerID \<Rightarrow> LedgerID option" where
  "anc lk 0 i = Some i"
| "anc lk (Suc k) i = (case lk i of None \<Rightarrow> None | Some h \<Rightarrow> anc lk k (lh_parent h))"

text \<open>What the ledger service promises: a hash fixes a sequence number, and the parent of a ledger
  has the number before its own.\<close>

definition store_ok :: "(LedgerID \<Rightarrow> nat) \<Rightarrow> lookup \<Rightarrow> bool" where
  "store_ok sq lk \<longleftrightarrow> lk zeroID = None \<and>
     (\<forall>i h. lk i = Some h \<longrightarrow> unat (lh_seq h) = sq i \<and>
        (1 < sq i \<longrightarrow> lh_parent h \<noteq> zeroID \<and> sq (lh_parent h) + 1 = sq i))"

text \<open>The chain is the ancestry of its ledger, as far back as it goes, and it is as long as the
  lookup and the limit of 256 allow.\<close>

definition chain_ok :: "lookup \<Rightarrow> providerLedger \<Rightarrow> bool" where
  "chain_ok lk l \<longleftrightarrow> (\<exists>h. lk (pl_id l) = Some h \<and> pl_seq l = lh_seq h) \<and>
     0 < unat (pl_minSeq l) \<and> unat (pl_minSeq l) + length (pl_ancestors l) = unat (pl_seq l) \<and> length (pl_ancestors l) \<le> 256 \<and>
     (\<forall>k \<le> length (pl_ancestors l).
        anc lk k (pl_id l) = Some ((pl_ancestors l @ [pl_id l]) ! (length (pl_ancestors l) - k)))"

definition chain_full :: "lookup \<Rightarrow> providerLedger \<Rightarrow> bool" where
  "chain_full lk l \<longleftrightarrow> pl_minSeq l = 1 \<or> length (pl_ancestors l) = 256 \<or>
     pl_ancestors l \<noteq> [] \<and> lk (hd (pl_ancestors l)) = None"

lemma store_okD:
  assumes "store_ok sq lk" "lk i = Some h"
  shows "unat (lh_seq h) = sq i" "1 < sq i \<Longrightarrow> lh_parent h \<noteq> zeroID" "1 < sq i \<Longrightarrow> sq (lh_parent h) + 1 = sq i"
  using assms by (auto simp: store_ok_def)

lemma anc_add: "anc lk (a + b) i = (case anc lk a i of None \<Rightarrow> None | Some j \<Rightarrow> anc lk b j)"
  by (induction a arbitrary: i) (auto split: option.splits)

lemma anc_seq:
  assumes "store_ok sq lk"
  shows "anc lk k i = Some j \<Longrightarrow> k < sq i \<Longrightarrow> sq j + k = sq i"
proof (induction k arbitrary: i)
  case (Suc k)
  then obtain h where h: "lk i = Some h" "anc lk k (lh_parent h) = Some j"
    by (auto split: option.splits)
  have "sq (lh_parent h) + 1 = sq i"
    using store_okD(3) [OF assms h(1)] Suc.prems(2) by simp
  then show ?case
    using Suc.IH [OF h(2)] Suc.prems(2) by simp
qed simp

lemma anc_nonzero:
  assumes "store_ok sq lk"
  shows "anc lk k i = Some j \<Longrightarrow> k < sq i \<Longrightarrow> i \<noteq> zeroID \<Longrightarrow> j \<noteq> zeroID"
proof (induction k arbitrary: i)
  case (Suc k)
  then obtain h where h: "lk i = Some h" "anc lk k (lh_parent h) = Some j"
    by (auto split: option.splits)
  note p = store_okD(2,3) [OF assms h(1)]
  have "k < sq (lh_parent h)" "lh_parent h \<noteq> zeroID"
    using p Suc.prems(2) by (cases "1 < sq i"; simp)+
  then show ?case
    using Suc.IH [OF h(2)] by blast
qed simp

lemma borrow_spec:
  assumes "unat (pl_minSeq cached) + length (pl_ancestors cached) = unat (pl_seq cached)"
    "\<forall>j \<in> set js. unat m + j < unat (pl_seq cached)" "\<forall>j \<in> set js. j < length xs" "distinct js"
  shows "\<exists>ys. borrow cached m js xs = Some ys \<and> length ys = length xs \<and>
    (\<forall>j < length xs. ys ! j = (if j \<in> set js \<and> unat (pl_minSeq cached) \<le> unat m + j
       then pl_ancestors cached ! (unat m + j - unat (pl_minSeq cached)) else xs ! j))"
  using assms(2-)
proof (induction js arbitrary: xs)
  case (Cons j js)
  have j: "unat m + j < unat (pl_seq cached)"
    using Cons.prems(1) by simp
  have "unat m + j < 4294967296"
    by (rule less_trans [OF j]) simp
  then have w: "unat (m + word_of_nat j) = unat m + j"
    by (simp add: unat_word_ariths unat_of_nat)
  show ?case
  proof (cases "unat (pl_minSeq cached) \<le> unat m + j")
    case True
    let ?i = "unat m + j - unat (pl_minSeq cached)" and ?xs = "xs[j := pl_ancestors cached ! (unat m + j - unat (pl_minSeq cached))]"
    have i: "unat (m + word_of_nat j - pl_minSeq cached) = ?i" "?i < length (pl_ancestors cached)"
      using w True assms(1) j by (simp_all add: unat_sub word_le_nat_alt)
    have "borrow cached m (j # js) xs = borrow cached m js ?xs"
      using w i True j by (simp add: Let_def u32_nat)
    moreover obtain ys where "borrow cached m js ?xs = Some ys" "length ys = length ?xs"
      "\<forall>k < length ?xs. ys ! k = (if k \<in> set js \<and> unat (pl_minSeq cached) \<le> unat m + k
       then pl_ancestors cached ! (unat m + k - unat (pl_minSeq cached)) else ?xs ! k)"
      using Cons.IH [of ?xs] Cons.prems by auto
    ultimately show ?thesis
      using True by (auto simp: nth_list_update)
  next
    case False
    then have "borrow cached m (j # js) xs = borrow cached m js xs"
      using w by (simp add: Let_def u32_nat)
    moreover obtain ys where "borrow cached m js xs = Some ys" "length ys = length xs"
      "\<forall>k < length xs. ys ! k = (if k \<in> set js \<and> unat (pl_minSeq cached) \<le> unat m + k
       then pl_ancestors cached ! (unat m + k - unat (pl_minSeq cached)) else xs ! k)"
      using Cons.IH [of xs] Cons.prems by auto
    ultimately show ?thesis
      using False by auto
  qed
qed simp

section \<open>The cache holds the chains of its identifiers\<close>

definition cache_core :: "lookup \<Rightarrow> LedgerProvider \<Rightarrow> bool" where
  "cache_core lk p \<longleftrightarrow> distinct (map (\<lambda>e. fst (snd e)) (lp_lru p)) \<and>
     (\<forall>i e. map_of (lp_cache p) i = Some e \<longleftrightarrow> e \<in> set (lp_lru p) \<and> fst (snd e) = i) \<and>
     (\<forall>e \<in> set (lp_lru p). pl_id (snd (snd e)) = fst (snd e) \<and> chain_ok lk (snd (snd e)))"

definition cache_inv :: "lookup \<Rightarrow> LedgerProvider \<Rightarrow> bool" where
  "cache_inv lk p \<longleftrightarrow> cache_core lk p \<and> int (length (lp_lru p)) \<le> lp_maxItems p"

definition cache_full :: "lookup \<Rightarrow> LedgerProvider \<Rightarrow> bool" where
  "cache_full lk p \<longleftrightarrow> (\<forall>e \<in> set (lp_lru p). chain_full lk (snd (snd e)))"

lemma cache_coreD: "cache_core lk p \<Longrightarrow> map_of (lp_cache p) i = Some e \<longleftrightarrow> e \<in> set (lp_lru p) \<and> fst (snd e) = i"
  unfolding cache_core_def by blast

lemma mset_MoveToFront: "mset (MoveToFront e l) = mset l"
  by (simp add: MoveToFront_def)

lemma cache_core_MoveToFront:
  assumes "cache_core lk p"
  shows "cache_core lk (p\<lparr>lp_lru := MoveToFront e (lp_lru p)\<rparr>)"
proof -
  have m: "mset (MoveToFront e (lp_lru p)) = mset (lp_lru p)"
    by (rule mset_MoveToFront)
  then have "set (MoveToFront e (lp_lru p)) = set (lp_lru p)"
    by (rule mset_eq_setD)
  moreover have "mset (map (\<lambda>e. fst (snd e)) (MoveToFront e (lp_lru p))) = mset (map (\<lambda>e. fst (snd e)) (lp_lru p))"
    using m by simp
  then have "distinct (map (\<lambda>e. fst (snd e)) (MoveToFront e (lp_lru p))) = distinct (map (\<lambda>e. fst (snd e)) (lp_lru p))"
    by (rule mset_eq_imp_distinct_iff)
  ultimately show ?thesis
    using assms by (simp add: cache_core_def)
qed

lemma cacheGet_spec:
  assumes "cache_inv lk p" "cacheGet i p = (r, p')"
  shows "cache_inv lk p'" "set (lp_lru p') = set (lp_lru p)" "lp_maxItems p' = lp_maxItems p"
    "r = Some l \<Longrightarrow> pl_id l = i \<and> chain_ok lk l \<and> (cache_full lk p \<longrightarrow> chain_full lk l)"
    "r = None \<Longrightarrow> p' = p \<and> map_of (lp_cache p) i = None"
proof -
  have len: "length (MoveToFront e (lp_lru p)) = length (lp_lru p)" "set (MoveToFront e (lp_lru p)) = set (lp_lru p)" for e
    using mset_eq_length [OF mset_MoveToFront] mset_eq_setD [OF mset_MoveToFront] by blast+
  show "cache_inv lk p'" "set (lp_lru p') = set (lp_lru p)" "lp_maxItems p' = lp_maxItems p"
    using assms cache_core_MoveToFront len by (auto simp: cacheGet_def cache_inv_def split: option.splits)
  show "r = None \<Longrightarrow> p' = p \<and> map_of (lp_cache p) i = None"
    using assms(2) by (auto simp: cacheGet_def split: option.splits)
  assume "r = Some l"
  then obtain e where e: "map_of (lp_cache p) i = Some e" "l = snd (snd e)"
    using assms(2) by (auto simp: cacheGet_def split: option.splits)
  then have "e \<in> set (lp_lru p)" "fst (snd e) = i"
    using assms(1) cache_coreD [of lk p i e] by (simp_all add: cache_inv_def)
  then show "pl_id l = i \<and> chain_ok lk l \<and> (cache_full lk p \<longrightarrow> chain_full lk l)"
    using assms(1) e(2) by (auto simp: cache_inv_def cache_core_def cache_full_def)
qed

lemma cache_core_drop:
  assumes "cache_core lk p" "lp_lru p = l @ [e]"
  shows "cache_core lk (p\<lparr>lp_cache := AList.delete (fst (snd e)) (lp_cache p), lp_lru := l\<rparr>)"
  using assms by (cases e) (auto simp: cache_core_def delete_conv' restrict_map_def image_iff split: if_splits)

lemma evict_spec:
  assumes "0 \<le> lp_maxItems p" "cache_core lk p"
  shows "cache_inv lk (evict p) \<and> set (lp_lru (evict p)) \<subseteq> set (lp_lru p) \<and> lp_maxItems (evict p) = lp_maxItems p"
  using assms
proof (induction p rule: evict.induct)
  case (1 p)
  show ?case
  proof (cases "int (length (lp_lru p)) > lp_maxItems p \<and> lp_lru p \<noteq> []")
    case True
    let ?e = "last (lp_lru p)"
    let ?p = "p\<lparr>lp_cache := AList.delete (fst (snd ?e)) (lp_cache p), lp_lru := butlast (lp_lru p)\<rparr>"
    have "cache_core lk ?p"
      using cache_core_drop [OF "1.prems"(2), of "butlast (lp_lru p)" ?e] True by simp
    then have "cache_inv lk (evict ?p) \<and> set (lp_lru (evict ?p)) \<subseteq> set (lp_lru ?p) \<and> lp_maxItems (evict ?p) = lp_maxItems ?p"
      using "1.IH" [OF True refl] "1.prems"(1) by simp
    moreover have "evict p = evict ?p"
      using True by (subst evict.simps) (simp add: Let_def)
    ultimately show ?thesis
      by (auto dest: in_set_butlastD)
  next
    case False
    then have "evict p = p"
      by (subst evict.simps) (simp only: if_not_P if_False)
    then show ?thesis
      using False "1.prems" by (auto simp: cache_inv_def not_less)
  qed
qed

lemma cachePut_spec:
  assumes "cache_inv lk p" "pl_id l = i" "chain_ok lk l"
  shows "cache_inv lk (cachePut i l p)" "lp_maxItems (cachePut i l p) = lp_maxItems p"
    "set (lp_lru (cachePut i l p)) \<subseteq> insert (lp_next p, i, l) (set (lp_lru p))"
proof -
  let ?e = "(lp_next p, i, l)"
  let ?p = "p\<lparr>lp_lru := ?e # lp_lru p, lp_cache := AList.update i ?e (lp_cache p), lp_next := lp_next p + 1\<rparr>"
  have "cache_inv lk (cachePut i l p) \<and> lp_maxItems (cachePut i l p) = lp_maxItems p \<and>
      set (lp_lru (cachePut i l p)) \<subseteq> insert ?e (set (lp_lru p))"
  proof (cases "map_of (lp_cache p) i")
    case (Some e)
    then have "cachePut i l p = snd (cacheGet i p)"
      by (simp add: cachePut_def cacheGet_def)
    then show ?thesis
      using cacheGet_spec(1-3) [OF assms(1), of i "fst (cacheGet i p)" "snd (cacheGet i p)"] by auto
  next
    case None
    have "cache_core lk p" "0 \<le> lp_maxItems p"
      using assms(1) by (auto simp: cache_inv_def)
    moreover have "\<forall>e \<in> set (lp_lru p). fst (snd e) \<noteq> i"
    proof
      fix e
      assume e: "e \<in> set (lp_lru p)"
      then have "map_of (lp_cache p) (fst (snd e)) = Some e"
        using cache_coreD [OF calculation(1)] by blast
      then show "fst (snd e) \<noteq> i"
        using None by auto
    qed
    ultimately have "cache_core lk ?p" "0 \<le> lp_maxItems ?p"
      using assms(2,3) by (auto simp: cache_core_def update_conv split: if_splits)
    then show ?thesis
      using evict_spec [of ?p lk] None by (simp add: cachePut_def Let_def)
  qed
  then show "cache_inv lk (cachePut i l p)" "lp_maxItems (cachePut i l p) = lp_maxItems p"
    "set (lp_lru (cachePut i l p)) \<subseteq> insert (lp_next p, i, l) (set (lp_lru p))"
    by blast+
qed

section \<open>The loop builds the ancestry\<close>

lemma chain_okI:
  assumes "lk i = Some h" "T = lh_seq h" "unat m + length ys = unat T" "0 < unat m" "length ys \<le> 256"
    "\<And>k. 1 \<le> k \<Longrightarrow> k \<le> length ys \<Longrightarrow> anc lk k i = Some (ys ! (length ys - k))"
  shows "chain_ok lk \<lparr>pl_id = i, pl_seq = T, pl_minSeq = m, pl_ancestors = ys\<rparr>"
proof -
  have "anc lk k i = Some ((ys @ [i]) ! (length ys - k))" if "k \<le> length ys" for k
    using that assms(6) [of k] by (cases "k = 0") (auto simp: nth_append)
  then show ?thesis
    using assms(1-5) by (simp add: chain_ok_def)
qed

text \<open>The parameters of a walk: the tip \<open>i\<close> with number \<open>T\<close>, and the number \<open>D\<close> of ancestors wanted.\<close>

definition walk :: "(LedgerID \<Rightarrow> nat) \<Rightarrow> lookup \<Rightarrow> LedgerID \<Rightarrow> u32 \<Rightarrow> u32 \<Rightarrow> bool" where
  "walk sq lk i T D \<longleftrightarrow> store_ok sq lk \<and> (\<exists>h. lk i = Some h \<and> T = lh_seq h) \<and> unat D < unat T \<and> unat D \<le> 256 \<and>
     (unat D = 256 \<or> unat D + 1 = unat T)"

definition chain_good :: "lookup \<Rightarrow> LedgerID \<Rightarrow> u32 \<Rightarrow> bool \<Rightarrow> LedgerID list \<Rightarrow> u32 \<Rightarrow> bool" where
  "chain_good lk i T full ys m \<longleftrightarrow> chain_ok lk \<lparr>pl_id = i, pl_seq = T, pl_minSeq = m, pl_ancestors = ys\<rparr> \<and>
     (full \<longrightarrow> chain_full lk \<lparr>pl_id = i, pl_seq = T, pl_minSeq = m, pl_ancestors = ys\<rparr>)"

lemma walk_nat:
  assumes "walk sq lk i T D"
  shows "sq i = unat T" "unat (T - D) = unat T - unat D" "0 < unat (T - D)"
proof -
  show "sq i = unat T"
    using assms store_okD(1) by (auto simp: walk_def)
  show "unat (T - D) = unat T - unat D" "0 < unat (T - D)"
    using assms by (simp_all add: walk_def unat_sub word_le_nat_alt)
qed

lemma walk_complete:
  assumes "walk sq lk i T D" "length ys = unat D"
    "\<And>k. 1 \<le> k \<Longrightarrow> k \<le> unat D \<Longrightarrow> anc lk k i = Some (ys ! (unat D - k))"
  shows "chain_good lk i T full ys (T - D)"
proof -
  obtain h where h: "lk i = Some h" "T = lh_seq h"
    using assms(1) by (auto simp: walk_def)
  have "chain_ok lk \<lparr>pl_id = i, pl_seq = T, pl_minSeq = T - D, pl_ancestors = ys\<rparr>"
    using assms walk_nat [OF assms(1)] by (intro chain_okI [of lk i h T, OF h]) (simp_all add: walk_def)
  moreover have "T - D = 1 \<or> unat D = 256"
    using assms(1) walk_nat(2) [OF assms(1)] by (auto simp: walk_def word_unat_eq_iff)
  ultimately show ?thesis
    using assms(2) by (auto simp: chain_good_def chain_full_def)
qed

lemma walk_partial:
  assumes "walk sq lk i T D" "length xs = unat D" "0 < f" "f \<le> unat D" "unat m = unat T - f"
    "\<And>k. 1 \<le> k \<Longrightarrow> k \<le> f \<Longrightarrow> anc lk k i = Some (xs ! (unat D - k))" "full \<longrightarrow> lk (xs ! (unat D - f)) = None"
  shows "chain_good lk i T full (drop (unat D - f) xs) m"
proof -
  obtain h where h: "lk i = Some h" "T = lh_seq h"
    using assms(1) by (auto simp: walk_def)
  have len: "length (drop (unat D - f) xs) = f"
    using assms(2,4) by simp
  have "chain_ok lk \<lparr>pl_id = i, pl_seq = T, pl_minSeq = m, pl_ancestors = drop (unat D - f) xs\<rparr>"
  proof (rule chain_okI [of lk i h T, OF h])
    fix k
    assume k: "1 \<le> k" "k \<le> length (drop (unat D - f) xs)"
    then have d: "drop (unat D - f) xs ! (length (drop (unat D - f) xs) - k) = xs ! (unat D - k)"
      using assms(2,4) len by simp
    have "k \<le> f"
      using k(2) len by simp
    then show "anc lk k i = Some (drop (unat D - f) xs ! (length (drop (unat D - f) xs) - k))"
      unfolding d by (rule assms(6) [OF k(1)])
  qed (use assms len in \<open>simp_all add: walk_def\<close>)
  moreover have "drop (unat D - f) xs \<noteq> []" "hd (drop (unat D - f) xs) = xs ! (unat D - f)"
    using len assms(2-4) by (simp_all add: hd_drop_conv_nth)
  ultimately show ?thesis
    using assms(7) by (auto simp: chain_good_def chain_full_def)
qed

text \<open>Borrowing the chain of the ancestor \<open>f\<close> links back completes the walk as far as that chain goes.\<close>

lemma walk_borrow_entries:
  assumes w: "walk sq lk i T D" and xs: "length xs = unat D" and f: "0 < f" "f < unat D"
    and a: "\<forall>k. 1 \<le> k \<longrightarrow> k \<le> f \<longrightarrow> anc lk k i = Some (xs ! (unat D - k))"
    and cc: "chain_ok lk cc" "pl_id cc = xs ! (unat D - f)"
  obtains zs where "borrow cc (T - D) [0..<unat D - f] xs = Some zs" "length zs = unat D"
    "\<forall>k. 1 \<le> k \<longrightarrow> k \<le> unat D \<longrightarrow> unat (pl_minSeq cc) + k \<le> unat T \<longrightarrow> anc lk k i = Some (zs ! (unat D - k))"
    "unat (pl_seq cc) + f = unat T"
    "\<forall>j. j < unat D - f \<longrightarrow> unat (pl_minSeq cc) \<le> unat T - unat D + j \<longrightarrow>
       zs ! j = pl_ancestors cc ! (unat T - unat D + j - unat (pl_minSeq cc))"
proof -
  have fT: "f < unat T" "unat D < unat T" "sq i = unat T" "unat (T - D) = unat T - unat D" "store_ok sq lk"
    using w f walk_nat [OF w] by (auto simp: walk_def)
  have f1: "anc lk f i = Some (pl_id cc)"
    using a f(1) cc(2) by simp
  have sq: "unat (pl_seq cc) = sq (pl_id cc)"
    using cc(1) store_okD(1) [OF fT(5)] by (auto simp: chain_ok_def)
  then have cs: "unat (pl_seq cc) + f = unat T"
    using anc_seq [OF fT(5) f1] fT(1,3) by simp
  let ?n = "length (pl_ancestors cc)"
  have cl: "unat (pl_minSeq cc) + ?n = unat (pl_seq cc)"
    using cc(1) by (simp add: chain_ok_def)
  have "\<forall>j \<in> set [0..<unat D - f]. unat (T - D) + j < unat (pl_seq cc)"
    using cs fT by auto
  moreover have "\<forall>j \<in> set [0..<unat D - f]. j < length xs"
    using xs by auto
  ultimately obtain zs where zs: "borrow cc (T - D) [0..<unat D - f] xs = Some zs" "length zs = unat D"
    "\<forall>j < unat D. zs ! j = (if j \<in> set [0..<unat D - f] \<and> unat (pl_minSeq cc) \<le> unat (T - D) + j
       then pl_ancestors cc ! (unat (T - D) + j - unat (pl_minSeq cc)) else xs ! j)"
    using borrow_spec [OF cl, of "[0..<unat D - f]" "T - D" xs] xs by (simp only: distinct_upt) blast
  show thesis
  proof (rule that [OF zs(1,2) _ cs])
    show "\<forall>j. j < unat D - f \<longrightarrow> unat (pl_minSeq cc) \<le> unat T - unat D + j \<longrightarrow>
        zs ! j = pl_ancestors cc ! (unat T - unat D + j - unat (pl_minSeq cc))"
      using zs(3) fT(4) by simp
    show "\<forall>k. 1 \<le> k \<longrightarrow> k \<le> unat D \<longrightarrow> unat (pl_minSeq cc) + k \<le> unat T \<longrightarrow> anc lk k i = Some (zs ! (unat D - k))"
    proof (intro allI impI)
      fix k
      assume k: "1 \<le> k" "k \<le> unat D" "unat (pl_minSeq cc) + k \<le> unat T"
      show "anc lk k i = Some (zs ! (unat D - k))"
      proof (cases "k \<le> f")
        case True
        then have "zs ! (unat D - k) = xs ! (unat D - k)"
          using zs(3) k f by auto
        then show ?thesis
          using a k(1) True by simp
      next
        case False
        have z: "zs ! (unat D - k) = pl_ancestors cc ! (?n - (k - f))"
        proof -
          have "unat (T - D) + (unat D - k) - unat (pl_minSeq cc) = ?n - (k - f)"
            using k False fT(2,4) cs cl by linarith
          moreover have "unat D - k < unat D - f" "unat (pl_minSeq cc) \<le> unat (T - D) + (unat D - k)"
            using k False fT(2,4) by linarith+
          ultimately show ?thesis
            using zs(3) [rule_format, of "unat D - k"] by simp
        qed
        have "anc lk k i = anc lk (k - f) (pl_id cc)"
          using anc_add [of lk f "k - f" i] f1 False by simp
        also have "\<dots> = Some ((pl_ancestors cc @ [pl_id cc]) ! (?n - (k - f)))"
          using cc(1) k False cs cl by (simp add: chain_ok_def)
        also have "\<dots> = Some (zs ! (unat D - k))"
        proof -
          have "?n - (k - f) < ?n"
            using False k cs cl by linarith
          then show ?thesis
            by (simp only: z nth_append if_True)
        qed
        finally show ?thesis .
      qed
    qed
  qed
qed

lemma walk_borrow:
  assumes w: "walk sq lk i T D" and xs: "length xs = unat D" and f: "0 < f" "f < unat D"
    and a: "\<forall>k. 1 \<le> k \<longrightarrow> k \<le> f \<longrightarrow> anc lk k i = Some (xs ! (unat D - k))"
    and cc: "chain_ok lk cc" "pl_id cc = xs ! (unat D - f)" "full \<longrightarrow> chain_full lk cc"
  obtains zs where "borrow cc (T - D) [0..<unat D - f] xs = Some zs"
    "pl_minSeq cc > T - D \<Longrightarrow> unat (pl_minSeq cc - (T - D)) \<le> length zs \<and>
       chain_good lk i T full (drop (unat (pl_minSeq cc - (T - D))) zs) (pl_minSeq cc)"
    "\<not> pl_minSeq cc > T - D \<Longrightarrow> chain_good lk i T full zs (T - D)"
proof -
  obtain zs where zs: "borrow cc (T - D) [0..<unat D - f] xs = Some zs" "length zs = unat D"
    "\<forall>k. 1 \<le> k \<longrightarrow> k \<le> unat D \<longrightarrow> unat (pl_minSeq cc) + k \<le> unat T \<longrightarrow> anc lk k i = Some (zs ! (unat D - k))"
    "unat (pl_seq cc) + f = unat T"
    "\<forall>j. j < unat D - f \<longrightarrow> unat (pl_minSeq cc) \<le> unat T - unat D + j \<longrightarrow>
       zs ! j = pl_ancestors cc ! (unat T - unat D + j - unat (pl_minSeq cc))"
    by (rule walk_borrow_entries [OF w xs f a cc(1,2)]) (rule that)
  have D: "unat D < unat T" "unat D \<le> 256" "unat (T - D) = unat T - unat D"
    using w walk_nat [OF w] by (simp_all add: walk_def)
  have c: "0 < unat (pl_minSeq cc)" "unat (pl_minSeq cc) + length (pl_ancestors cc) = unat (pl_seq cc)"
    using cc(1) by (simp_all add: chain_ok_def)
  show thesis
  proof (rule that [OF zs(1)])
    assume "\<not> pl_minSeq cc > T - D"
    then have "unat (pl_minSeq cc) \<le> unat T - unat D"
      using D(3) by (simp add: u32_nat)
    then show "chain_good lk i T full zs (T - D)"
      using zs(3) D(1) by (intro walk_complete [OF w zs(2)]) simp
  next
    assume gt: "pl_minSeq cc > T - D"
    let ?f = "unat T - unat (pl_minSeq cc)"
    have gap: "unat (pl_minSeq cc - (T - D)) = unat D - ?f" and lt: "unat T - unat D < unat (pl_minSeq cc)"
      using gt D c(2) zs(4) by (simp_all add: unat_sub u32_nat less_imp_le)
    have f: "0 < ?f" "?f \<le> unat D"
      using lt c(2) zs(4) assms(3) by linarith+
    have full: "lk (zs ! (unat D - ?f)) = None" if full
    proof -
      have "pl_minSeq cc \<noteq> 1" "length (pl_ancestors cc) \<noteq> 256"
        using lt D c(2) zs(4) by auto
      then have ne: "pl_ancestors cc \<noteq> []" "lk (pl_ancestors cc ! 0) = None"
        using cc(3) that by (auto simp: chain_full_def hd_conv_nth)
      then have "0 < length (pl_ancestors cc)"
        by simp
      then have "unat D - ?f < unat D - f"
        using lt c(2) zs(4) D(1) \<open>f < unat D\<close> by linarith
      then have "zs ! (unat D - ?f) = pl_ancestors cc ! 0"
        using zs(5) [rule_format, of "unat D - ?f"] lt D(1) c(2) zs(4) by simp
      then show ?thesis
        using ne(2) by simp
    qed
    have m: "unat (pl_minSeq cc) = unat T - ?f"
      using c(2) zs(4) by simp
    have "chain_good lk i T full (drop (unat D - ?f) zs) (pl_minSeq cc)"
    proof (rule walk_partial [OF w zs(2) f m])
      show "full \<longrightarrow> lk (zs ! (unat D - ?f)) = None"
        using full by blast
      show "anc lk k i = Some (zs ! (unat D - k))" if "1 \<le> k" "k \<le> ?f" for k
        using that f zs(3) c(2) zs(4) by simp
    qed
    then show "unat (pl_minSeq cc - (T - D)) \<le> length zs \<and>
       chain_good lk i T full (drop (unat (pl_minSeq cc - (T - D))) zs) (pl_minSeq cc)"
      using gap zs(2) by simp
  qed
qed

lemma chainLoop_spec:
  assumes w: "walk sq lk i T D"
  shows "filled < D \<Longrightarrow> anc lk (unat filled) i = Some j \<Longrightarrow> lk j = Some cur \<Longrightarrow> length xs = unat D \<Longrightarrow>
    (\<And>k. 1 \<le> k \<Longrightarrow> k \<le> unat filled \<Longrightarrow> anc lk k i = Some (xs ! (unat D - k))) \<Longrightarrow> cache_inv lk p \<Longrightarrow>
    \<exists>ys m p'. chainLoop lk T D cur filled xs (T - D) p = Some (ys, m, p') \<and> chain_good lk i T (cache_full lk p) ys m \<and>
      cache_inv lk p' \<and> set (lp_lru p') = set (lp_lru p) \<and> lp_maxItems p' = lp_maxItems p"
proof (induction "unat D - unat filled" arbitrary: filled j cur xs p rule: less_induct)
  case less
  let ?P = "lh_parent cur" and ?f = "unat filled + 1"
  have f: "unat (filled + 1) = ?f" "unat (D - 1 - filled) = unat D - ?f" "?f \<le> unat D"
  proof -
    have lt: "unat filled < unat D"
      using less.prems(1) by (simp add: word_less_nat_alt)
    then show "unat (filled + 1) = ?f" "?f \<le> unat D"
      using unat_step [OF less.prems(1)] by simp_all
    have "unat (D - 1) = unat D - 1"
      using lt by (simp add: unat_sub word_le_nat_alt)
    then show "unat (D - 1 - filled) = unat D - ?f"
      using lt by (simp add: unat_sub word_le_nat_alt)
  qed
  let ?xs = "xs[unat D - ?f := ?P]"
  have xs: "length ?xs = unat D" "?xs ! (unat D - ?f) = ?P"
    using less.prems(4) f(3) by simp_all
  have "anc lk ?f i = Some ?P"
    using anc_add [of lk "unat filled" 1 i] less.prems(2,3) by simp
  then have a: "anc lk k i = Some (?xs ! (unat D - k))" if "1 \<le> k" "k \<le> ?f" for k
    using that less.prems(4,5) f(3) xs(2) by (cases "k = ?f") auto
  show ?case
  proof (cases "filled + 1 \<ge> D")
    case True
    then have "?f = unat D"
      using f by (simp add: word_le_nat_alt)
    then have "chain_good lk i T (cache_full lk p) ?xs (T - D)"
      using walk_complete [OF w xs(1)] a by simp
    then show ?thesis
      using True less.prems(1,6) f(2) by (subst chainLoop.simps) (simp add: Let_def)
  next
    case False
    then have lt: "?f < unat D"
      using f by (simp add: word_le_nat_alt)
    obtain r p' where get: "cacheGet ?P p = (r, p')"
      by (cases "cacheGet ?P p")
    note spec = cacheGet_spec [OF less.prems(6) get]
    show ?thesis
    proof (cases r)
      case (Some cc)
      obtain zs where zs: "borrow cc (T - D) [0..<unat D - ?f] ?xs = Some zs"
        "pl_minSeq cc > T - D \<Longrightarrow> unat (pl_minSeq cc - (T - D)) \<le> length zs \<and>
           chain_good lk i T (cache_full lk p) (drop (unat (pl_minSeq cc - (T - D))) zs) (pl_minSeq cc)"
        "\<not> pl_minSeq cc > T - D \<Longrightarrow> chain_good lk i T (cache_full lk p) zs (T - D)"
        using walk_borrow [OF w xs(1) _ lt, of cc "cache_full lk p"] spec(4) [OF Some] xs(2) a by auto
      have "chainLoop lk T D cur filled xs (T - D) p =
          (if pl_minSeq cc > T - D then Some (drop (unat (pl_minSeq cc - (T - D))) zs, pl_minSeq cc, p')
           else Some (zs, T - D, p'))"
        using False less.prems(1) f(2) get Some zs(1,2) by (subst chainLoop.simps) (simp add: Let_def)
      then show ?thesis
        using zs(2,3) spec(1-3) by auto
    next
      case None
      then have p': "p' = p"
        using spec(5) by blast
      show ?thesis
      proof (cases "lk ?P")
        case lkNone: None
        have m: "unat (T - (filled + 1)) = unat T - ?f"
          using f(1,3) w by (simp add: unat_sub word_le_nat_alt walk_def)
        have "chain_good lk i T (cache_full lk p) (drop (unat D - ?f) ?xs) (T - (filled + 1))"
          using walk_partial [OF w xs(1) _ f(3) m a] lkNone xs(2) by simp
        moreover have "chainLoop lk T D cur filled xs (T - D) p = Some (drop (unat D - ?f) ?xs, T - (filled + 1), p)"
          using False less.prems(1) f(2) get None lkNone p' by (subst chainLoop.simps) (simp add: Let_def)
        ultimately show ?thesis
          using less.prems(6) by blast
      next
        case (Some h)
        have "chainLoop lk T D cur filled xs (T - D) p = chainLoop lk T D h (filled + 1) ?xs (T - D) p"
          using False less.prems(1) f(2) get None Some p' by (subst chainLoop.simps) (simp add: Let_def)
        moreover have "unat D - unat (filled + 1) < unat D - unat filled"
          using f(1,3) by simp
        ultimately show ?thesis
          using less.hyps [of "filled + 1" ?P h ?xs p] f(1) Some xs(1) a less.prems(6) \<open>anc lk ?f i = Some ?P\<close> False
          by (simp add: not_le)
      qed
    qed
  qed
qed

lemma buildChain_spec:
  assumes "store_ok sq lk" "cache_inv lk p"
  obtains r p' where "buildChain lk i p = Some (r, p')" "cache_inv lk p'" "set (lp_lru p') = set (lp_lru p)"
    "lp_maxItems p' = lp_maxItems p" "r = None \<longleftrightarrow> lk i = None \<or> sq i = 0"
    "\<And>l. r = Some l \<Longrightarrow> pl_id l = i \<and> chain_ok lk l \<and> (cache_full lk p \<longrightarrow> chain_full lk l)"
proof (cases "lk i")
  case None
  then show thesis
    using that [of None p] assms by (simp add: buildChain_def)
next
  case (Some h)
  let ?T = "lh_seq h"
  define D where "D = (if ?T - 1 > maxProviderAncestors then maxProviderAncestors else ?T - 1)"
  have sq: "unat ?T = sq i"
    by (rule store_okD(1) [OF assms(1) Some])
  show thesis
  proof (cases "?T = 0")
    case True
    then show thesis
      using that [of None p] assms sq Some by (simp add: buildChain_def)
  next
    case False
    then have T0: "0 < unat ?T"
      by (simp add: unat_gt_0)
    then have T: "0 < unat ?T" "unat (?T - 1) = unat ?T - 1" "sq i \<noteq> 0"
      unfolding sq [symmetric] by (simp_all add: unat_sub word_le_nat_alt Suc_le_eq)
    have D: "unat D < unat ?T" "unat D \<le> 256" "unat D = 256 \<or> unat D + 1 = unat ?T"
      using T(1,2) by (auto simp: D_def maxProviderAncestors_def word_less_nat_alt)
    then have w: "walk sq lk i ?T D"
      using assms(1) Some by (simp add: walk_def)
    show thesis
    proof (cases "D = 0")
      case True
      then have "?T = 1"
        using D(3) by (simp add: word_unat_eq_iff)
      then have "chain_ok lk \<lparr>pl_id = i, pl_seq = ?T, pl_minSeq = ?T, pl_ancestors = []\<rparr>"
        "chain_full lk \<lparr>pl_id = i, pl_seq = ?T, pl_minSeq = ?T, pl_ancestors = []\<rparr>"
        using Some by (simp_all add: chain_ok_def chain_full_def)
      then show thesis
        using that [of "Some \<lparr>pl_id = i, pl_seq = ?T, pl_minSeq = ?T, pl_ancestors = []\<rparr>" p] assms(2) False T(3) Some
          True [unfolded D_def] by (simp add: buildChain_def Let_def)
    next
      case ne: False
      then obtain ys m p' where loop: "chainLoop lk ?T D h 0 (replicate (unat D) zeroID) (?T - D) p = Some (ys, m, p')"
        "chain_good lk i ?T (cache_full lk p) ys m" "cache_inv lk p'" "set (lp_lru p') = set (lp_lru p)" "lp_maxItems p' = lp_maxItems p"
        using chainLoop_spec [OF w, of 0 i h "replicate (unat D) zeroID" p] Some assms(2) by (auto simp: word_gt_0)
      have "buildChain lk i p = Some (Some \<lparr>pl_id = i, pl_seq = ?T, pl_minSeq = m, pl_ancestors = ys\<rparr>, p')"
        using Some False ne loop(1) by (simp add: buildChain_def Let_def D_def [symmetric])
      then show thesis
        using that loop(2-5) T(3) Some by (simp add: chain_good_def)
    qed
  qed
qed

section \<open>Requests to the provider\<close>

lemma cache_full_mono: "cache_full lk p \<Longrightarrow> set (lp_lru p') \<subseteq> set (lp_lru p) \<Longrightarrow> cache_full lk p'"
  by (auto simp: cache_full_def)

lemma LedgerByID_spec:
  assumes "store_ok sq lk" "cache_inv lk p"
  obtains r p' where "LedgerByID (Some lk) i p = Some (map_option providerView r, p')" "cache_inv lk p'"
    "lp_maxItems p' = lp_maxItems p" "cache_full lk p \<Longrightarrow> cache_full lk p'" "r = None \<longleftrightarrow> lk i = None \<or> sq i = 0"
    "\<And>l. r = Some l \<Longrightarrow> pl_id l = i \<and> chain_ok lk l \<and> (cache_full lk p \<longrightarrow> chain_full lk l)"
proof -
  obtain r p1 where get: "cacheGet i p = (r, p1)"
    by (cases "cacheGet i p")
  note spec = cacheGet_spec [OF assms(2) get]
  show thesis
  proof (cases r)
    case (Some l)
    have l: "pl_id l = i" "chain_ok lk l" "cache_full lk p \<longrightarrow> chain_full lk l"
      using spec(4) [OF Some] by blast+
    then have "lk i \<noteq> None \<and> sq i \<noteq> 0"
      using store_okD(1) [OF assms(1)] by (fastforce simp: chain_ok_def)
    then show thesis
      using that [of "Some l" p1] get Some spec(1-3) l cache_full_mono by (simp add: LedgerByID_def)
  next
    case None
    obtain b p2 where build: "buildChain lk i p1 = Some (b, p2)" "cache_inv lk p2" "set (lp_lru p2) = set (lp_lru p1)"
      "lp_maxItems p2 = lp_maxItems p1" "b = None \<longleftrightarrow> lk i = None \<or> sq i = 0"
      "\<And>l. b = Some l \<Longrightarrow> pl_id l = i \<and> chain_ok lk l \<and> (cache_full lk p1 \<longrightarrow> chain_full lk l)"
      by (rule buildChain_spec [OF assms(1) spec(1)]) (rule that)
    have p1: "p1 = p"
      using spec(5) None by blast
    show thesis
    proof (cases b)
      case bNone: None
      then show thesis
        using that [of None p2] get None build p1 cache_full_mono [of lk p p2] by (simp add: LedgerByID_def)
    next
      case (Some l)
      have l: "pl_id l = i" "chain_ok lk l" "cache_full lk p \<longrightarrow> chain_full lk l"
        using build(6) [OF Some] p1 by blast+
      note put = cachePut_spec [OF build(2) l(1,2)]
      have "cache_full lk (cachePut i l p2)" if "cache_full lk p"
        using that put(3) build(3) l(3) p1 by (auto simp: cache_full_def)
      then show thesis
        using that [of "Some l" "cachePut i l p2"] get None Some build(1,4,5) put(1,2) l p1 by (simp add: LedgerByID_def)
    qed
  qed
qed

text \<open>What a chain says about the ancestry of its ledger.\<close>

definition is_ancestry :: "(LedgerID \<Rightarrow> nat) \<Rightarrow> lookup \<Rightarrow> LedgerID \<Rightarrow> Ledger \<Rightarrow> bool" where
  "is_ancestry sq lk i l \<longleftrightarrow> ID l = i \<and> unat (Seq l) = sq i \<and> 0 < MinSeq l \<and> MinSeq l \<le> Seq l \<and>
     (\<forall>s. MinSeq l \<le> s \<longrightarrow> s \<le> Seq l \<longrightarrow> anc lk (unat (Seq l) - unat s) i = Some (Ancestor l s))"

definition is_longest :: "lookup \<Rightarrow> Ledger \<Rightarrow> bool" where
  "is_longest lk l \<longleftrightarrow> unat (Seq l) \<le> unat (MinSeq l) + 256 \<and>
     (MinSeq l = 1 \<or> unat (Seq l) = unat (MinSeq l) + 256 \<or> lk (Ancestor l (MinSeq l)) = None)"

lemma providerView_Ancestor:
  assumes "chain_ok lk l" "pl_minSeq l \<le> s" "s \<le> pl_seq l"
  shows "Ancestor (providerView l) s = (pl_ancestors l @ [pl_id l]) ! (unat s - unat (pl_minSeq l))"
proof (cases "s = pl_seq l")
  case True
  then have "unat s - unat (pl_minSeq l) = length (pl_ancestors l)"
    using assms(1) by (auto simp: chain_ok_def)
  then show ?thesis
    using True by (simp add: providerView_def)
next
  case False
  then have "unat s < unat (pl_seq l)"
    using assms(3) by (simp add: word_le_nat_alt word_unat_eq_iff order_less_le)
  then have "unat s - unat (pl_minSeq l) < length (pl_ancestors l)"
    using assms(1,2) by (auto simp: chain_ok_def word_le_nat_alt)
  then show ?thesis
    using False leD [OF assms(2)] leD [OF assms(3)] assms(2) by (simp add: providerView_def nth_append unat_sub)
qed

lemma chain_ok_ancestry:
  assumes "store_ok sq lk" "chain_ok lk l"
  shows "is_ancestry sq lk (pl_id l) (providerView l)" "chain_full lk l \<Longrightarrow> is_longest lk (providerView l)"
proof -
  let ?n = "length (pl_ancestors l)"
  have l: "0 < unat (pl_minSeq l)" "unat (pl_minSeq l) + ?n = unat (pl_seq l)" "?n \<le> 256"
    "\<forall>k \<le> ?n. anc lk k (pl_id l) = Some ((pl_ancestors l @ [pl_id l]) ! (?n - k))"
    using assms(2) by (simp_all add: chain_ok_def)
  have sq: "unat (pl_seq l) = sq (pl_id l)"
    using assms(2) store_okD(1) [OF assms(1)] by (auto simp: chain_ok_def)
  have v: "ID (providerView l) = pl_id l" "Seq (providerView l) = pl_seq l" "MinSeq (providerView l) = pl_minSeq l"
    by (simp_all add: providerView_def)
  have le: "pl_minSeq l \<le> pl_seq l"
    using l(2) by (simp add: word_le_nat_alt)
  have "anc lk (unat (pl_seq l) - unat s) (pl_id l) = Some (Ancestor (providerView l) s)"
    if s: "pl_minSeq l \<le> s" "s \<le> pl_seq l" for s
  proof -
    have "unat (pl_seq l) - unat s \<le> ?n" "?n - (unat (pl_seq l) - unat s) = unat s - unat (pl_minSeq l)"
      using s l(2) by (simp_all add: word_le_nat_alt)
    then show ?thesis
      using l(4) [rule_format, of "unat (pl_seq l) - unat s"] providerView_Ancestor [OF assms(2) s] by simp
  qed
  then show "is_ancestry sq lk (pl_id l) (providerView l)"
    using v sq le l(1) by (simp add: is_ancestry_def word_less_nat_alt)
  show "is_longest lk (providerView l)" if "chain_full lk l"
    using that v l(2,3) le providerView_Ancestor [OF assms(2) order_refl le]
    by (auto simp: is_longest_def chain_full_def nth_append hd_conv_nth)
qed

fun requests :: "lookup \<Rightarrow> LedgerID list \<Rightarrow> LedgerProvider \<Rightarrow> LedgerProvider option" where
  "requests lk [] p = Some p"
| "requests lk (i # is) p =
     (case LedgerByID (Some lk) i p of None \<Rightarrow> None | Some (_, p') \<Rightarrow> requests lk is p')"

lemma requests_inv:
  assumes "store_ok sq lk"
  shows "cache_inv lk p \<Longrightarrow> cache_full lk p \<Longrightarrow>
    \<exists>p'. requests lk is p = Some p' \<and> cache_inv lk p' \<and> cache_full lk p' \<and> lp_maxItems p' = lp_maxItems p"
proof (induction "is" arbitrary: p)
  case (Cons i "is")
  obtain r p1 where "LedgerByID (Some lk) i p = Some (map_option providerView r, p1)" "cache_inv lk p1"
    "lp_maxItems p1 = lp_maxItems p" "cache_full lk p1"
    using LedgerByID_spec [OF assms Cons.prems(1), of i] Cons.prems(2) by metis
  then show ?case
    using Cons.IH [of p1] by auto
qed simp

lemma cache_inv_new: "cache_inv lk newLedgerProviderFromLookup" "cache_full lk newLedgerProviderFromLookup"
  by (simp_all add: cache_inv_def cache_core_def cache_full_def newLedgerProviderFromLookup_def providerCacheCapacity_def)

section \<open>Properties of the provider\<close>

text \<open>C29: Whatever was requested before, the provider answers without a panic and holds at most 1024
  chains.  It knows exactly the ledgers that the lookup finds and that have a number, and the answer
  is the ancestry along the parent hashes: from the ledger itself back to the first ledger, to 256
  ancestors, or to the first hash that the lookup does not find.\<close>

theorem LedgerByID_ancestry:
  assumes "store_ok sq lk"
  shows "\<exists>p. requests lk ids newLedgerProviderFromLookup = Some p \<and> length (lp_lru p) \<le> 1024 \<and>
    (\<exists>r p'. LedgerByID (Some lk) i p = Some (r, p') \<and> (r = None \<longleftrightarrow> lk i = None \<or> sq i = 0) \<and>
      (\<forall>l. r = Some l \<longrightarrow> is_ancestry sq lk i l \<and> is_longest lk l))"
proof -
  obtain p where p: "requests lk ids newLedgerProviderFromLookup = Some p" "cache_inv lk p" "cache_full lk p" "lp_maxItems p = 1024"
    using requests_inv [OF assms cache_inv_new] by (auto simp: newLedgerProviderFromLookup_def providerCacheCapacity_def)
  obtain r p' where r: "LedgerByID (Some lk) i p = Some (map_option providerView r, p')" "r = None \<longleftrightarrow> lk i = None \<or> sq i = 0"
    "\<forall>l. r = Some l \<longrightarrow> pl_id l = i \<and> chain_ok lk l \<and> chain_full lk l"
    using LedgerByID_spec [OF assms p(2), of i] p(3) by metis
  then have "\<forall>l. map_option providerView r = Some l \<longrightarrow> is_ancestry sq lk i l \<and> is_longest lk l"
    using chain_ok_ancestry [OF assms] by auto
  then show ?thesis
    using p r(1,2) by (auto simp: cache_inv_def)
qed

definition ex_id :: "nat \<Rightarrow> LedgerID" where
  "ex_id n = word_of_nat (n mod 256) # replicate 31 7"

text \<open>A store with the ledgers 3, 4 and 5 of one chain.\<close>

definition ex_store :: lookup where
  "ex_store = map_of [(ex_id 3, \<lparr>lh_seq = 3, lh_parent = ex_id 2\<rparr>), (ex_id 4, \<lparr>lh_seq = 4, lh_parent = ex_id 3\<rparr>),
     (ex_id 5, \<lparr>lh_seq = 5, lh_parent = ex_id 4\<rparr>)]"

definition ex_seq :: "LedgerID \<Rightarrow> nat" where
  "ex_seq i = unat (hd i)"

lemma ex_store_ok: "store_ok ex_seq ex_store"
proof -
  have "hd zeroID = 0"
    by (simp add: zeroID_def)
  then have "zeroID \<noteq> x # xs" "x # xs \<noteq> zeroID" if "x \<noteq> 0" for x xs
    using that by (metis list.sel(1))+
  then have "zeroID \<noteq> 5 # replicate 31 7" "zeroID \<noteq> 4 # replicate 31 7" "zeroID \<noteq> 3 # replicate 31 7" "2 # replicate 31 7 \<noteq> zeroID"
    by simp_all
  then show ?thesis
    by (simp add: store_ok_def ex_store_def ex_id_def ex_seq_def)
qed

theorem LedgerByID_ancestry_witness:
  "\<exists>p. requests ex_store [ex_id 4, ex_id 9] newLedgerProviderFromLookup = Some p \<and> length (lp_lru p) \<le> 1024 \<and>
    (\<exists>r p'. LedgerByID (Some ex_store) (ex_id 5) p = Some (r, p') \<and> (r = None \<longleftrightarrow> ex_store (ex_id 5) = None \<or> ex_seq (ex_id 5) = 0) \<and>
      (\<forall>l. r = Some l \<longrightarrow> is_ancestry ex_seq ex_store (ex_id 5) l \<and> is_longest ex_store l))"
  by (rule LedgerByID_ancestry [OF ex_store_ok])

lemma MoveToFront_cache: "lp_cache (snd (cacheGet i p)) = lp_cache p"
  by (simp add: cacheGet_def split: option.splits)

lemma evict_front:
  assumes "lp_lru p = e # l" "0 < lp_maxItems p" "\<forall>x \<in> set l. fst (snd x) \<noteq> fst (snd e)" "map_of (lp_cache p) (fst (snd e)) = Some e"
  shows "map_of (lp_cache (evict p)) (fst (snd e)) = Some e"
  using assms
proof (induction p arbitrary: l rule: evict.induct)
  case (1 p)
  show ?case
  proof (cases "int (length (lp_lru p)) > lp_maxItems p \<and> lp_lru p \<noteq> []")
    case True
    let ?o = "last (lp_lru p)"
    let ?p = "p\<lparr>lp_cache := AList.delete (fst (snd ?o)) (lp_cache p), lp_lru := butlast (lp_lru p)\<rparr>"
    have "l \<noteq> []"
      using True "1.prems"(1,2) by auto
    then have o: "?o \<in> set l" "butlast (lp_lru p) = e # butlast l"
      using "1.prems"(1) by simp_all
    then have "map_of (lp_cache ?p) (fst (snd e)) = Some e"
      using "1.prems"(3,4) by (auto simp: delete_conv')
    then have "map_of (lp_cache (evict ?p)) (fst (snd e)) = Some e"
      using "1.IH" [OF True refl, of "butlast l"] o(2) "1.prems"(2,3) by (auto dest: in_set_butlastD)
    moreover have "evict p = evict ?p"
      using True by (subst evict.simps) (simp add: Let_def)
    ultimately show ?thesis
      by simp
  next
    case False
    then have "evict p = p"
      by (subst evict.simps) (simp only: if_not_P if_False)
    then show ?thesis
      using "1.prems"(4) by simp
  qed
qed

lemma cachePut_get:
  assumes "cache_inv lk p" "map_of (lp_cache p) i = None" "0 < lp_maxItems p"
  shows "map_of (lp_cache (cachePut i l p)) i = Some (lp_next p, i, l)"
proof -
  let ?e = "(lp_next p, i, l)"
  let ?p = "p\<lparr>lp_lru := ?e # lp_lru p, lp_cache := AList.update i ?e (lp_cache p), lp_next := lp_next p + 1\<rparr>"
  have core: "cache_core lk p"
    using assms(1) by (simp add: cache_inv_def)
  have "\<forall>x \<in> set (lp_lru p). fst (snd x) \<noteq> i"
  proof
    fix x
    assume "x \<in> set (lp_lru p)"
    then have "map_of (lp_cache p) (fst (snd x)) = Some x"
      using cache_coreD [OF core] by blast
    then show "fst (snd x) \<noteq> i"
      using assms(2) by auto
  qed
  then show ?thesis
    using evict_front [of ?p ?e "lp_lru p"] assms(2,3) by (simp add: cachePut_def Let_def update_conv)
qed

text \<open>C30: A chain that the provider has handed out is what it answers to the same request again,
  whatever the lookup finds by then: a chain that was cut short where the lookup failed stays short
  in the cache after the missing ledgers have arrived.\<close>

theorem cached_chain_sticks:
  assumes "store_ok sq lk" "requests lk ids newLedgerProviderFromLookup = Some p" "LedgerByID (Some lk) i p = Some (Some l, p')"
  shows "\<exists>p''. LedgerByID (Some lk') i p' = Some (Some l, p'')"
proof -
  have p: "cache_inv lk p" "lp_maxItems p = 1024"
    using requests_inv [OF assms(1) cache_inv_new, of ids] assms(2)
    by (auto simp: newLedgerProviderFromLookup_def providerCacheCapacity_def)
  obtain r p1 where get: "cacheGet i p = (r, p1)"
    by (cases "cacheGet i p")
  note spec = cacheGet_spec [OF p(1) get]
  have "\<exists>e. map_of (lp_cache p') i = Some e \<and> l = providerView (snd (snd e))"
  proof (cases r)
    case (Some c)
    then have "l = providerView c" "p' = p1"
      using assms(3) get by (simp_all add: LedgerByID_def)
    then show ?thesis
      using get Some by (auto simp: cacheGet_def split: option.splits)
  next
    case None
    have none: "p1 = p" "map_of (lp_cache p) i = None"
      using spec(5) None by blast+
    obtain b p2 where build: "buildChain lk i p = Some (b, p2)" "cache_inv lk p2" "set (lp_lru p2) = set (lp_lru p)"
      "lp_maxItems p2 = lp_maxItems p"
      by (rule buildChain_spec [OF assms(1) p(1)]) (rule that)
    then obtain c where c: "b = Some c" "l = providerView c" "p' = cachePut i c p2"
      using assms(3) get None none(1) by (auto simp: LedgerByID_def split: option.splits)
    have "map_of (lp_cache p2) i = None"
    proof (cases "map_of (lp_cache p2) i")
      case (Some e)
      then have "map_of (lp_cache p) i = Some e"
        using cache_coreD [of lk p2 i e] cache_coreD [of lk p i e] build(2,3) p(1) by (simp add: cache_inv_def)
      then show ?thesis
        using none(2) by simp
    qed
    then show ?thesis
      using cachePut_get [OF build(2), of i c] build(4) p(2) c by simp
  qed
  then show ?thesis
    by (auto simp: LedgerByID_def cacheGet_def)
qed

text \<open>The chain of ledger 5 is cut at number 2, and stays cut when the store gets ledger 2.\<close>

theorem cached_chain_sticks_witness:
  "\<exists>l p' p''. LedgerByID (Some ex_store) (ex_id 5) newLedgerProviderFromLookup = Some (Some l, p') \<and> MinSeq l = 2 \<and>
     LedgerByID (Some (ex_store(ex_id 2 \<mapsto> \<lparr>lh_seq = 2, lh_parent = ex_id 1\<rparr>))) (ex_id 5) p' = Some (Some l, p'')"
proof -
  let ?l = "providerView \<lparr>pl_id = ex_id 5, pl_seq = 5, pl_minSeq = 2, pl_ancestors = [ex_id 2, ex_id 3, ex_id 4]\<rparr>"
  have "buildChain ex_store (ex_id 5) newLedgerProviderFromLookup = Some (Some
      \<lparr>pl_id = ex_id 5, pl_seq = 5, pl_minSeq = 2, pl_ancestors = [ex_id 2, ex_id 3, ex_id 4]\<rparr>, newLedgerProviderFromLookup)"
    by code_simp
  then obtain p' where l: "LedgerByID (Some ex_store) (ex_id 5) newLedgerProviderFromLookup = Some (Some ?l, p')"
    by (simp add: LedgerByID_def cacheGet_def newLedgerProviderFromLookup_def)
  have "MinSeq ?l = 2"
    by (simp add: providerView_def)
  then show ?thesis
    using cached_chain_sticks [OF ex_store_ok, of "[]"] l by auto
qed

end
