(* ===== verification/ValidationTracker.thy ===== *)
theory ValidationTracker
  imports ConsensusTiming ConsensusTypes AncestryProvider
begin

text \<open>
  The tracker of validations (\<open>internal/consensus/rcl/validations.go\<close>, \<open>validations_trie.go\<close>): who
  validated which ledger, when a ledger is fully validated, and the ancestry trie fed with the
  latest ledger of every trusted validator.

  A Go map is an association list with distinct keys, and a loop over a map goes through that list,
  so that the results hold for every iteration order.  A pointer to a validation is its value.  The clock \<open>vt.now\<close> is the argument \<open>now\<close> of the
  operations that read it.  The callbacks \<open>onFullyValidated\<close> and \<open>onStale\<close> are flags that
  tell whether one is installed, and the calls are part of the result.  The ancestry provider is a
  function, the parameter of the model that stands for the ledger store.  A panic of the trie is
  \<open>None\<close>.
\<close>

section \<open>State\<close>

type_synonym LedgerAncestryProvider = "LedgerID \<Rightarrow> Ledger option"

record ValidationTracker =
  validations :: "(LedgerID \<times> (NodeID \<times> Validation) list) list"
  byNode :: "(NodeID \<times> Validation) list"
  trusted :: "NodeID set"
  negUNL :: "NodeID set"
  quorum :: int
  freshness :: Duration
  fired :: "LedgerID set"
  minSeq :: u32
  resolver :: "NodeID \<Rightarrow> NodeID"
  onFullyValidated :: bool
  onStale :: bool
  ancestry :: "LedgerAncestryProvider option"
  trie :: "Trie option"
  trieTips :: "(NodeID \<times> Ledger) list"

definition NewValidationTracker :: "int \<Rightarrow> Duration \<Rightarrow> ValidationTracker" where
  "NewValidationTracker q fresh =
     \<lparr>validations = [], byNode = [], trusted = {}, negUNL = {}, quorum = q, freshness = fresh, fired = {},
      minSeq = 0, resolver = (\<lambda>n. n), onFullyValidated = False, onStale = False, ancestry = None,
      trie = None, trieTips = []\<rparr>"

section \<open>The trie of the latest ledgers\<close>

definition genesisLedger :: Ledger where
  "genesisLedger = \<lparr>ID = zeroID, Seq = 0, MinSeq = 0, Ancestor = (\<lambda>s. zeroID)\<rparr>"

fun rebuildLoop :: "LedgerAncestryProvider \<Rightarrow> (NodeID \<Rightarrow> bool) \<Rightarrow> (NodeID \<times> Validation) list \<Rightarrow>
    Trie \<times> (NodeID \<times> Ledger) list \<Rightarrow> (Trie \<times> (NodeID \<times> Ledger) list) option" where
  "rebuildLoop p counted [] (t, tips) = Some (t, tips)"
| "rebuildLoop p counted ((nodeID, v) # rest) (t, tips) =
     (if \<not> counted nodeID then rebuildLoop p counted rest (t, tips)
      else case p (vLedgerID v) of
             None \<Rightarrow> rebuildLoop p counted rest (t, tips)
           | Some lgr \<Rightarrow>
               (case Insert lgr 1 t of
                  None \<Rightarrow> None
                | Some t' \<Rightarrow> rebuildLoop p counted rest (t', AList.update nodeID lgr tips)))"

definition rebuildTrieLocked :: "ValidationTracker \<Rightarrow> ValidationTracker option" where
  "rebuildTrieLocked vt =
     (case ancestry vt of
        None \<Rightarrow> Some vt
      | Some p \<Rightarrow>
          (case rebuildLoop p (\<lambda>n. n \<in> trusted vt \<and> n \<notin> negUNL vt) (byNode vt) (New genesisLedger, []) of
             None \<Rightarrow> None
           | Some (t, tips) \<Rightarrow> Some (vt\<lparr>trie := Some t, trieTips := tips\<rparr>)))"

definition SetLedgerAncestryProvider :: "LedgerAncestryProvider option \<Rightarrow> ValidationTracker \<Rightarrow> ValidationTracker option" where
  "SetLedgerAncestryProvider p vt =
     (case p of
        None \<Rightarrow> Some (vt\<lparr>ancestry := None, trie := None, trieTips := []\<rparr>)
      | Some f \<Rightarrow> rebuildTrieLocked (vt\<lparr>ancestry := Some f\<rparr>))"

definition updateTrieLocked :: "NodeID \<Rightarrow> LedgerID \<Rightarrow> Ledger option \<Rightarrow> ValidationTracker \<Rightarrow> ValidationTracker option" where
  "updateTrieLocked nodeID newLedgerID preResolved vt =
     (case (trie vt, ancestry vt) of
        (Some t, Some p) \<Rightarrow>
          (case (case preResolved of
                   Some l \<Rightarrow> if ID l \<noteq> newLedgerID then p newLedgerID else Some l
                 | None \<Rightarrow> p newLedgerID) of
             None \<Rightarrow> Some vt
           | Some lgr \<Rightarrow>
               (case (case map_of (trieTips vt) nodeID of
                        Some prev \<Rightarrow> map_option snd (Remove prev 1 t)
                      | None \<Rightarrow> Some t) of
                  None \<Rightarrow> None
                | Some t1 \<Rightarrow>
                    (case Insert lgr 1 t1 of
                       None \<Rightarrow> None
                     | Some t2 \<Rightarrow> Some (vt\<lparr>trie := Some t2, trieTips := AList.update nodeID lgr (trieTips vt)\<rparr>))))
      | _ \<Rightarrow> Some vt)"

section \<open>Settings\<close>

definition SetManifestResolver :: "(NodeID \<Rightarrow> NodeID) option \<Rightarrow> ValidationTracker \<Rightarrow> ValidationTracker" where
  "SetManifestResolver fn vt = vt\<lparr>resolver := (case fn of None \<Rightarrow> (\<lambda>n. n) | Some f \<Rightarrow> f)\<rparr>"

definition SetTrusted :: "NodeID list \<Rightarrow> ValidationTracker \<Rightarrow> ValidationTracker option" where
  "SetTrusted nodes vt = rebuildTrieLocked (vt\<lparr>trusted := set nodes\<rparr>)"

definition SetQuorum :: "int \<Rightarrow> ValidationTracker \<Rightarrow> ValidationTracker" where
  "SetQuorum q vt = vt\<lparr>quorum := q\<rparr>"

definition SetNegativeUNL :: "NodeID list \<Rightarrow> ValidationTracker \<Rightarrow> ValidationTracker option" where
  "SetNegativeUNL nodes vt = rebuildTrieLocked (vt\<lparr>negUNL := set nodes\<rparr>)"

definition SetMinSeq :: "u32 \<Rightarrow> ValidationTracker \<Rightarrow> ValidationTracker" where
  "SetMinSeq sq vt = (if sq > minSeq vt then vt\<lparr>minSeq := sq\<rparr> else vt)"

definition SetFullyValidatedCallback :: "bool \<Rightarrow> ValidationTracker \<Rightarrow> ValidationTracker" where
  "SetFullyValidatedCallback fn vt = vt\<lparr>onFullyValidated := fn\<rparr>"

definition SetOnStale :: "bool \<Rightarrow> ValidationTracker \<Rightarrow> ValidationTracker" where
  "SetOnStale fn vt = vt\<lparr>onStale := fn\<rparr>"

section \<open>Adding a validation\<close>

definition Minute :: Duration where "Minute = 60 * Second"

definition validationCurrentWall :: Duration where "validationCurrentWall = 5 * Minute"
definition validationCurrentLocal :: Duration where "validationCurrentLocal = 3 * Minute"
definition validationCurrentEarly :: Duration where "validationCurrentEarly = 3 * Minute"

definition isCurrent :: "Time \<Rightarrow> Time \<Rightarrow> Time \<Rightarrow> bool" where
  "isCurrent now signTime seenTime =
     (if \<not> signTime > now - validationCurrentEarly then False
      else if \<not> signTime < now + validationCurrentWall then False
      else if \<not> IsZero seenTime \<and> \<not> seenTime < now + validationCurrentLocal then False
      else True)"

definition countTrustedExcludingNegUNLLocked :: "ValidationTracker \<Rightarrow> (NodeID \<times> Validation) list \<Rightarrow> nat" where
  "countTrustedExcludingNegUNLLocked vt ledgerVals =
     length (filter (\<lambda>(nodeID, v). nodeID \<in> trusted vt \<and> nodeID \<notin> negUNL vt) ledgerVals)"

text \<open>The call of the callback that is due, if any, and the tracker with the ledger recorded as fired.\<close>

definition checkFullValidationLocked :: "LedgerID \<Rightarrow> ValidationTracker \<Rightarrow> (LedgerID \<times> u32) option \<times> ValidationTracker" where
  "checkFullValidationLocked ledgerID vt =
     (if \<not> onFullyValidated vt then (None, vt)
      else if ledgerID \<in> fired vt then (None, vt)
      else case map_of (validations vt) ledgerID of
             None \<Rightarrow> (None, vt)
           | Some [] \<Rightarrow> (None, vt)
           | Some ((n, v) # rest) \<Rightarrow>
               if int (countTrustedExcludingNegUNLLocked vt ((n, v) # rest)) \<ge> quorum vt
               then (Some (ledgerID, vLedgerSeq v), vt\<lparr>fired := insert ledgerID (fired vt)\<rparr>)
               else (None, vt))"

definition ledgerValsOf :: "ValidationTracker \<Rightarrow> LedgerID \<Rightarrow> (NodeID \<times> Validation) list" where
  "ledgerValsOf vt ledgerID = (case map_of (validations vt) ledgerID of None \<Rightarrow> [] | Some vals \<Rightarrow> vals)"

text \<open>Result: whether the validation was added, the call of the callback, and the tracker.\<close>

definition Add :: "Time \<Rightarrow> Validation \<Rightarrow> ValidationTracker \<Rightarrow>
    (bool \<times> (LedgerID \<times> u32) option \<times> ValidationTracker) option" where
  "Add now v vt =
     (let preResolved = (case (trie vt, ancestry vt) of (Some _, Some p) \<Rightarrow> p (vLedgerID v) | _ \<Rightarrow> None);
          resolvedID = resolver vt (vNodeID v)
      in if \<not> vFull v then Some (False, None, vt)
         else if \<not> isCurrent now (vSignTime v) (vSeenTime v) then Some (False, None, vt)
         else if minSeq vt > 0 \<and> vLedgerSeq v < minSeq vt then Some (False, None, vt)
         else if (case map_of (byNode vt) resolvedID of
                    Some existing \<Rightarrow> vLedgerSeq v \<le> vLedgerSeq existing | None \<Rightarrow> False)
         then Some (False, None, vt)
         else let vt1 = vt\<lparr>byNode := AList.update resolvedID v (byNode vt),
                          validations := AList.update (vLedgerID v)
                            (AList.update resolvedID v (ledgerValsOf vt (vLedgerID v))) (validations vt)\<rparr>
              in case (if resolvedID \<in> trusted vt \<and> resolvedID \<notin> negUNL vt
                       then updateTrieLocked resolvedID (vLedgerID v) preResolved vt1 else Some vt1) of
                   None \<Rightarrow> None
                 | Some vt2 \<Rightarrow>
                     let (fire, vt3) = checkFullValidationLocked (vLedgerID v) vt2
                     in Some (True, fire, vt3))"

section \<open>Queries\<close>

definition GetValidations :: "ValidationTracker \<Rightarrow> LedgerID \<Rightarrow> Validation list" where
  "GetValidations vt ledgerID = map snd (ledgerValsOf vt ledgerID)"

definition GetTrustedValidations :: "ValidationTracker \<Rightarrow> LedgerID \<Rightarrow> Validation list" where
  "GetTrustedValidations vt ledgerID =
     map snd (filter (\<lambda>(nodeID, v). nodeID \<in> trusted vt) (ledgerValsOf vt ledgerID))"

definition GetValidationCount :: "ValidationTracker \<Rightarrow> LedgerID \<Rightarrow> nat" where
  "GetValidationCount vt ledgerID = length (ledgerValsOf vt ledgerID)"

definition GetTrustedValidationCount :: "ValidationTracker \<Rightarrow> LedgerID \<Rightarrow> nat" where
  "GetTrustedValidationCount vt ledgerID =
     (case map_of (validations vt) ledgerID of
        None \<Rightarrow> 0 | Some vals \<Rightarrow> countTrustedExcludingNegUNLLocked vt vals)"

definition GetTrustedSupport :: "ValidationTracker \<Rightarrow> LedgerID \<Rightarrow> nat" where
  "GetTrustedSupport vt ledgerID =
     (case (trie vt, ancestry vt) of
        (Some t, Some p) \<Rightarrow>
          (case p ledgerID of
             None \<Rightarrow> GetTrustedValidationCount vt ledgerID
           | Some lgr \<Rightarrow> unat (BranchSupport t lgr))
      | _ \<Rightarrow> GetTrustedValidationCount vt ledgerID)"

text \<open>Outer \<open>None\<close>: the trie panics; inner \<open>None\<close>: there is no preferred ledger.\<close>

definition GetPreferredLedger :: "ValidationTracker \<Rightarrow> u32 \<Rightarrow> (LedgerID \<times> u32) option option" where
  "GetPreferredLedger vt largestIssued =
     (case trie vt of
        None \<Rightarrow> Some None
      | Some t \<Rightarrow> map_option (map_option (\<lambda>s. (TipID s, TipSeq s))) (GetPreferred t largestIssued))"

definition IsFullyValidated :: "ValidationTracker \<Rightarrow> LedgerID \<Rightarrow> bool" where
  "IsFullyValidated vt ledgerID = (int (GetTrustedValidationCount vt ledgerID) \<ge> quorum vt)"

definition ProposersValidated :: "ValidationTracker \<Rightarrow> LedgerID \<Rightarrow> nat" where
  "ProposersValidated vt ledgerID =
     length (filter (\<lambda>(nodeID, v). nodeID \<in> trusted vt \<and> nodeID \<notin> negUNL vt \<and> vFull v \<and> vLedgerID v = ledgerID) (byNode vt))"

definition GetLatestValidation :: "ValidationTracker \<Rightarrow> NodeID \<Rightarrow> Validation option" where
  "GetLatestValidation vt nodeID = map_of (byNode vt) nodeID"

definition GetCurrentValidators :: "Time \<Rightarrow> ValidationTracker \<Rightarrow> NodeID list" where
  "GetCurrentValidators now vt =
     (let cutoff = now - freshness vt
      in map fst (filter (\<lambda>(nodeID, v). vSignTime v > cutoff) (byNode vt)))"

section \<open>Expiry\<close>

text \<open>The inner loop drops the validations of one ledger from the index by validator and the trie.\<close>

fun expireNodes :: "(NodeID \<times> Validation) list \<Rightarrow> ValidationTracker \<Rightarrow> ValidationTracker option" where
  "expireNodes [] vt = Some vt"
| "expireNodes ((nodeID, v) # rest) vt =
     (if map_of (byNode vt) nodeID = Some v
      then let vt1 = vt\<lparr>byNode := AList.delete nodeID (byNode vt)\<rparr>
           in case (trie vt1, map_of (trieTips vt1) nodeID) of
                (Some t, Some prev) \<Rightarrow>
                  (case Remove prev 1 t of
                     None \<Rightarrow> None
                   | Some (_, t') \<Rightarrow>
                       expireNodes rest (vt1\<lparr>trie := Some t', trieTips := AList.delete nodeID (trieTips vt1)\<rparr>))
              | _ \<Rightarrow> expireNodes rest vt1
      else expireNodes rest vt)"

fun expireLedgers :: "u32 \<Rightarrow> (LedgerID \<times> (NodeID \<times> Validation) list) list \<Rightarrow> ValidationTracker \<Rightarrow> Validation list \<Rightarrow>
    (Validation list \<times> ValidationTracker) option" where
  "expireLedgers bound [] vt stale = Some (stale, vt)"
| "expireLedgers bound ((ledgerID, ledgerVals) # rest) vt stale =
     (case ledgerVals of
        [] \<Rightarrow> expireLedgers bound rest vt stale
      | (n, sample) # _ \<Rightarrow>
          if vLedgerSeq sample \<ge> bound then expireLedgers bound rest vt stale
          else (case expireNodes ledgerVals vt of
                  None \<Rightarrow> None
                | Some vt1 \<Rightarrow>
                    expireLedgers bound rest
                      (vt1\<lparr>validations := AList.delete ledgerID (validations vt1), fired := fired vt1 - {ledgerID}\<rparr>)
                      (stale @ map snd ledgerVals)))"

text \<open>The stale validations are handed to \<open>onStale\<close>, if one is installed.\<close>

definition ExpireOld :: "u32 \<Rightarrow> ValidationTracker \<Rightarrow> (Validation list \<times> ValidationTracker) option" where
  "ExpireOld bound vt =
     map_option (\<lambda>(stale, vt'). (if onStale vt then stale else [], vt')) (expireLedgers bound (validations vt) vt [])"

definition ClearTracker :: "ValidationTracker \<Rightarrow> ValidationTracker option" where
  "ClearTracker vt = rebuildTrieLocked (vt\<lparr>validations := [], byNode := [], fired := {}\<rparr>)"

record ValidationStats =
  TotalValidations :: nat
  TrustedValidations :: nat
  ValidatorsActive :: nat
  LedgersTracked :: nat

definition GetStats :: "ValidationTracker \<Rightarrow> ValidationStats" where
  "GetStats vt =
     \<lparr>TotalValidations = sum_list (map (\<lambda>(l, vals). length vals) (validations vt)),
      TrustedValidations = sum_list (map (\<lambda>(l, vals). length (filter (\<lambda>(n, v). n \<in> trusted vt) vals)) (validations vt)),
      ValidatorsActive = length (byNode vt),
      LedgersTracked = length (validations vt)\<rparr>"

end
