(* ===== verification/ValidationInv.thy ===== *)
theory ValidationInv
  imports ValidationTracker
begin

text \<open>
  The invariant of the validation tracker: its indexes agree, and the trie holds exactly one unit of
  support per recorded tip.  Every operation keeps it and none panics, when the ancestry provider
  answers with ledgers of a family with unique history.
\<close>

section \<open>Association lists\<close>

lemma set_update_sub: "set (AList.update k v al) \<subseteq> insert (k, v) (set al)"
  by (induction al) auto

lemma set_delete_sub: "set (AList.delete k al) \<subseteq> set al"
  by (induction al) auto

lemma length_delete_less: "k \<in> fst ` set al \<Longrightarrow> length (AList.delete k al) < length al"
  using length_delete_le [of k] by (induction al) (fastforce simp: less_Suc_eq_le)+

section \<open>A trie and its tips\<close>

text \<open>The number of tips with an identifier.\<close>

definition tip_count :: "(NodeID \<times> Ledger) list \<Rightarrow> LedgerID \<Rightarrow> nat" where
  "tip_count tips i = length (filter (\<lambda>x. ID (snd x) = i) tips)"

definition tips_ok :: "u32 \<Rightarrow> Ledger set \<Rightarrow> Trie \<Rightarrow> (NodeID \<times> Ledger) list \<Rightarrow> bool" where
  "tips_ok c L t tips \<longleftrightarrow> trie_sem c genesisLedger L t \<and> (\<forall>i. idsum i (root t) = tip_count tips i) \<and>
     distinct (map fst tips) \<and> snd ` set tips \<subseteq> L"

lemma tip_count_delete:
  "distinct (map fst tips) \<Longrightarrow> map_of tips n = Some l \<Longrightarrow>
    tip_count tips i = tip_count (AList.delete n tips) i + (if i = ID l then 1 else 0)"
proof (induction tips)
  case (Cons x tips)
  show ?case
  proof (cases "fst x = n")
    case True
    then have "AList.delete n tips = tips"
      using Cons.prems(1) by (auto simp: delete_id)
    then show ?thesis
      using True Cons.prems(2) by (cases x) (auto simp: tip_count_def)
  next
    case False
    then show ?thesis
      using Cons by (cases x) (auto simp: tip_count_def)
  qed
qed simp

lemma tip_count_update:
  "distinct (map fst tips) \<Longrightarrow> tip_count (AList.update n l tips) i = tip_count (AList.delete n tips) i + (if i = ID l then 1 else 0)"
proof (induction tips)
  case (Cons x tips)
  show ?case
  proof (cases "fst x = n")
    case True
    then have "AList.delete n tips = tips"
      using Cons.prems(1) by (auto simp: delete_id)
    then show ?thesis
      using True by (cases x) (auto simp: tip_count_def)
  next
    case False
    then show ?thesis
      using Cons by (cases x) (auto simp: tip_count_def)
  qed
qed (auto simp: tip_count_def)

lemma tip_count_sum:
  assumes "finite I" "(ID \<circ> snd) ` set tips \<subseteq> I"
  shows "(\<Sum>i \<in> I. tip_count tips i) = length tips"
  using assms(2)
proof (induction tips)
  case (Cons x tips)
  have "(\<Sum>i \<in> I. tip_count (x # tips) i) = (\<Sum>i \<in> I. tip_count tips i + (if i = ID (snd x) then 1 else 0))"
    by (rule sum.cong) (auto simp: tip_count_def)
  also have "\<dots> = (\<Sum>i \<in> I. tip_count tips i) + 1"
    using assms(1) Cons.prems by (simp add: sum.distrib sum.delta)
  finally show ?case
    using Cons by simp
qed (simp add: tip_count_def)

lemma tip_count_zero: "i \<notin> (ID \<circ> snd) ` set tips \<Longrightarrow> tip_count tips i = 0"
  by (auto simp: tip_count_def filter_empty_conv)

text \<open>Every node with support is the tip of one of the recorded ledgers.\<close>

lemma tips_supported:
  assumes "\<forall>i. idsum i (root t) = tip_count tips i" "valid_path p (root t)" "tipSupport (nodeAt p (root t)) \<noteq> 0"
  shows "TipID (tip (sp (nodeAt p (root t)))) \<in> (ID \<circ> snd) ` set tips"
proof (rule ccontr)
  let ?n = "nodeAt p (root t)"
  assume "TipID (tip (sp ?n)) \<notin> (ID \<circ> snd) ` set tips"
  then have "idsum (TipID (tip (sp ?n))) (root t) = 0"
    using assms(1) tip_count_zero by simp
  moreover have "unat (tipSupport ?n) \<le> idsum (TipID (tip (sp ?n))) (root t)"
    using wsum_nodeAt [OF assms(2), of "\<lambda>s. TipID (tip s) = TipID (tip (sp ?n))"] by (simp add: wsum_node [of _ ?n])
  ultimately show False
    using assms(3) by (simp add: unat_eq_0)
qed

lemma tips_total:
  assumes "tips_ok c L t tips"
  shows "total (root t) = length tips"
proof -
  let ?I = "(ID \<circ> snd) ` set tips"
  have i: "\<forall>i. idsum i (root t) = tip_count tips i"
    using assms by (simp add: tips_ok_def)
  have "wsum (\<lambda>_. True) (root t) = wsum (\<lambda>s. TipID (tip s) \<in> ?I) (root t)"
    using tips_supported [OF i] by (intro wsum_cong_path) simp
  also have "\<dots> = (\<Sum>j \<in> ?I. idsum j (root t))"
    by (rule wsum_members) simp
  also have "\<dots> = length tips"
    using i tip_count_sum [of ?I tips] by simp
  finally show ?thesis .
qed

context ledger_family
begin

lemma same_id_descends:
  assumes "m \<in> L" "m' \<in> L" "ID m = ID m'" "l \<in> L"
  shows "descends m l = descends m' l"
proof -
  have "Ancestor m (Seq m) = Ancestor m' (Seq m')"
    using own_id assms(1-3) by simp
  then have "Seq m = Seq m'" "agree c m m' (unat (Seq m) + 1)"
    using history_agree [OF assms(1,2)] window assms(1,2) by blast+
  moreover have "c \<le> Seq l"
    using window assms(4) by blast
  ultimately show ?thesis
    by (auto simp: descends_def agree_def word_le_nat_alt)
qed

text \<open>The branch support of a ledger is the number of tips that descend from it.\<close>

lemma tips_branch:
  assumes t: "trie_sem c g L t" "\<forall>i. idsum i (root t) = tip_count tips i" "snd ` set tips \<subseteq> L" and l: "l \<in> L"
  shows "unat (BranchSupport t l) = length (filter (\<lambda>x. descends (snd x) l) tips)"
proof -
  let ?ds = "filter (\<lambda>x. descends (snd x) l) tips"
  let ?I = "(ID \<circ> snd) ` set ?ds"
  note inv = trie_semD [OF t(1)]
  have "wsum (desc l) (root t) = wsum (\<lambda>s. TipID (tip s) \<in> ?I) (root t)"
  proof (rule wsum_cong_path)
    fix p
    let ?n = "nodeAt p (root t)"
    assume p: "valid_path p (root t)" "tipSupport ?n \<noteq> 0"
    have n: "all_sp (span_ok c g L) ?n" "wfn ?n"
      using all_sp_nodeAt [OF inv(3) p(1)] wfn_nodeAt [OF inv(2) p(1)] by blast+
    obtain x where x: "x \<in> set tips" "TipID (tip (sp ?n)) = ID (snd x)"
      using tips_supported [OF t(2) p] by auto
    have d: "desc l (sp ?n) = descends (snd x) l"
      using desc_descends [OF n _ x(2) l] x(1) t(3) by auto
    show "desc l (sp ?n) = (TipID (tip (sp ?n)) \<in> ?I)"
    proof
      assume "desc l (sp ?n)"
      then show "TipID (tip (sp ?n)) \<in> ?I"
        using d x by auto
    next
      assume "TipID (tip (sp ?n)) \<in> ?I"
      then obtain y where "y \<in> set tips" "descends (snd y) l" "ID (snd x) = ID (snd y)"
        using x(2) by auto
      then show "desc l (sp ?n)"
        using d same_id_descends [of "snd x" "snd y" l] x(1) t(3) l by auto
    qed
  qed
  also have "\<dots> = (\<Sum>i \<in> ?I. tip_count tips i)"
    using wsum_members [of ?I "\<lambda>s. TipID (tip s)" "root t"] t(2) by simp
  also have "\<dots> = (\<Sum>i \<in> ?I. tip_count ?ds i)"
  proof (rule sum.cong [OF refl])
    fix i
    assume "i \<in> ?I"
    then obtain y where y: "y \<in> set tips" "descends (snd y) l" "i = ID (snd y)"
      by auto
    have "ID (snd x) = i \<longleftrightarrow> ID (snd x) = i \<and> descends (snd x) l" if "x \<in> set tips" for x
      using same_id_descends [of "snd x" "snd y" l] y that t(3) l by auto
    then have "filter (\<lambda>x. ID (snd x) = i) tips = filter (\<lambda>x. ID (snd x) = i \<and> descends (snd x) l) tips"
      by (intro filter_cong refl)
    then show "tip_count tips i = tip_count ?ds i"
      by (simp add: tip_count_def conj_commute)
  qed
  also have "\<dots> = length ?ds"
    by (rule tip_count_sum) auto
  finally show ?thesis
    using BranchSupport_desc [OF t(1) l] by simp
qed

end

lemma tips_insert:
  assumes fam: "ledger_family c genesisLedger L" and t: "tips_ok c L t tips" and l: "l \<in> L" and n: "n \<notin> fst ` set tips"
    and len: "length tips + 1 < 2 ^ 32"
  obtains t' where "Insert l 1 t = Some t'" "tips_ok c L t' (AList.update n l tips)"
proof -
  have "total (root t) + unat (1 :: u32) < 2 ^ 32"
    using tips_total [OF t] len by simp
  then obtain t' where t': "Insert l 1 t = Some t'" "trie_sem c genesisLedger L t'"
    "\<forall>i. idsum i (root t') = idsum i (root t) + (if i = ID l then unat (1 :: u32) else 0)"
    using ledger_family.Insert_sem [OF fam _ l, of t 1] t by (auto simp: tips_ok_def)
  have "AList.delete n tips = tips"
    using n by (auto simp: delete_id)
  then have "idsum i (root t') = tip_count (AList.update n l tips) i" for i
    using t t'(3) tip_count_update [of tips n l i] by (simp add: tips_ok_def)
  moreover have "snd ` set (AList.update n l tips) \<subseteq> L"
    by (rule order_trans [OF image_mono [OF set_update_sub]]) (use t l in \<open>simp add: tips_ok_def\<close>)
  moreover have "distinct (map fst (AList.update n l tips))"
    using t by (simp add: tips_ok_def distinct_update)
  ultimately have "tips_ok c L t' (AList.update n l tips)"
    using t'(2) by (simp add: tips_ok_def)
  then show thesis
    using that t'(1) by blast
qed

lemma tips_remove:
  assumes fam: "ledger_family c genesisLedger L" and t: "tips_ok c L t tips" and l: "map_of tips n = Some l"
  obtains b t' where "Remove l 1 t = Some (b, t')" "tips_ok c L t' (AList.delete n tips)"
proof -
  have "l \<in> L"
    using t map_of_SomeD [OF l] by (auto simp: tips_ok_def)
  then obtain t' where t': "Remove l 1 t = Some (idsum (ID l) (root t) \<noteq> 0, t')" "trie_sem c genesisLedger L t'"
    "\<forall>i. idsum i (root t') = (if i = ID l then idsum i (root t) - unat (1 :: u32) else idsum i (root t))"
    using ledger_family.Remove_sem [OF fam, of t l 1] t by (auto simp: tips_ok_def)
  have "idsum i (root t') = tip_count (AList.delete n tips) i" for i
    using t t'(3) tip_count_delete [OF _ l, of i] by (auto simp: tips_ok_def)
  moreover have "snd ` set (AList.delete n tips) \<subseteq> L"
    by (rule order_trans [OF image_mono [OF set_delete_sub]]) (use t in \<open>simp add: tips_ok_def\<close>)
  moreover have "distinct (map fst (AList.delete n tips))"
    using t by (simp add: tips_ok_def distinct_delete)
  ultimately have "tips_ok c L t' (AList.delete n tips)"
    using t'(2) by (simp add: tips_ok_def)
  then show thesis
    by (rule that [OF t'(1)])
qed

section \<open>The invariant\<close>

definition counted :: "ValidationTracker \<Rightarrow> NodeID \<Rightarrow> bool" where
  "counted vt n \<longleftrightarrow> n \<in> trusted vt \<and> n \<notin> negUNL vt"

text \<open>What the tracker relies on of its provider: the answer for an identifier is a ledger of the
  family with that identifier.\<close>

definition provides :: "Ledger set \<Rightarrow> LedgerAncestryProvider \<Rightarrow> bool" where
  "provides L p \<longleftrightarrow> (\<forall>i l. p i = Some l \<longrightarrow> l \<in> L \<and> ID l = i)"

definition vals_ok :: "LedgerID \<Rightarrow> (NodeID \<times> Validation) list \<Rightarrow> bool" where
  "vals_ok i vals \<longleftrightarrow> vals \<noteq> [] \<and> distinct (map fst vals) \<and> (\<forall>x \<in> set vals. vLedgerID (snd x) = i \<and> vFull (snd x))"

text \<open>The latest validation of a node is among the validations of its ledger.\<close>

definition index_ok :: "ValidationTracker \<Rightarrow> bool" where
  "index_ok vt \<longleftrightarrow> distinct (map fst (byNode vt)) \<and> distinct (map fst (validations vt)) \<and>
     (\<forall>x \<in> set (validations vt). vals_ok (fst x) (snd x)) \<and>
     (\<forall>n v. map_of (byNode vt) n = Some v \<longrightarrow> map_of (ledgerValsOf vt (vLedgerID v)) n = Some v)"

definition provider_ok :: "Ledger set \<Rightarrow> ValidationTracker \<Rightarrow> bool" where
  "provider_ok L vt \<longleftrightarrow> (\<forall>p. ancestry vt = Some p \<longrightarrow> provides L p) \<and>
     (ancestry vt = None \<longrightarrow> trie vt = None \<and> trieTips vt = []) \<and> finite (trusted vt) \<and> card (trusted vt) < 2 ^ 32"

definition trie_ok :: "u32 \<Rightarrow> Ledger set \<Rightarrow> ValidationTracker \<Rightarrow> bool" where
  "trie_ok c L vt \<longleftrightarrow> provider_ok L vt \<and>
     (ancestry vt \<noteq> None \<longrightarrow> (\<exists>t. trie vt = Some t \<and> tips_ok c L t (trieTips vt))) \<and>
     (\<forall>n \<in> fst ` set (trieTips vt). counted vt n \<and> n \<in> fst ` set (byNode vt))"

text \<open>The ledger that the latest validation of a counted validator names, as the provider knows it.\<close>

definition resolved :: "LedgerAncestryProvider \<Rightarrow> (NodeID \<Rightarrow> bool) \<Rightarrow> (NodeID \<times> Validation) list \<Rightarrow> NodeID \<Rightarrow> Ledger option" where
  "resolved p cnt xs n = (if cnt n then Option.bind (map_of xs n) (\<lambda>v. p (vLedgerID v)) else None)"

definition latest :: "LedgerAncestryProvider \<Rightarrow> ValidationTracker \<Rightarrow> NodeID \<Rightarrow> Ledger option" where
  "latest p vt = resolved p (counted vt) (byNode vt)"

lemma keys_bound:
  assumes "distinct (map fst xs)" "fst ` set xs \<subseteq> A" "finite A"
  shows "length xs \<le> card A"
  using card_mono [OF assms(3,2)] distinct_card [OF assms(1)] by simp

lemma counted_trie [simp]: "counted (vt\<lparr>trie := t, trieTips := tips\<rparr>) = counted vt"
  by (simp add: counted_def fun_eq_iff)

lemma latest_trie [simp]: "latest p (vt\<lparr>trie := t, trieTips := tips\<rparr>) = latest p vt"
  by (simp add: latest_def)

lemma provides_memb: "provides L p \<Longrightarrow> p i = Some l \<Longrightarrow> l \<in> L \<and> ID l = i"
  by (simp add: provides_def)

lemma map_of_key: "map_of xs k = Some v \<Longrightarrow> k \<in> fst ` set xs"
  by (force dest: map_of_SomeD)

subsection \<open>Rebuilding the trie\<close>

lemma rebuildLoop_spec:
  assumes fam: "ledger_family c genesisLedger L" and p: "provides L p" and A: "finite A" "card A < 2 ^ 32" "\<forall>n. cnt n \<longrightarrow> n \<in> A"
  shows "tips_ok c L t tips \<Longrightarrow> distinct (map fst xs) \<Longrightarrow> fst ` set tips \<inter> fst ` set xs = {} \<Longrightarrow> fst ` set tips \<subseteq> A \<Longrightarrow>
    \<exists>t' tips'. rebuildLoop p cnt xs (t, tips) = Some (t', tips') \<and> tips_ok c L t' tips' \<and>
      (\<forall>n. map_of tips' n = (case resolved p cnt xs n of
         Some l \<Rightarrow> Some l | None \<Rightarrow> map_of tips n))"
proof (induction xs arbitrary: t tips)
  case (Cons x xs)
  obtain n v where x: "x = (n, v)"
    by (cases x)
  have n: "n \<notin> fst ` set tips" "n \<notin> fst ` set xs" "map_of xs n = None" "map_of tips n = None"
    using Cons.prems(2,3) x by (auto simp: map_of_eq_None_iff)
  show ?case
  proof (cases "cnt n \<and> p (vLedgerID v) \<noteq> None")
    case False
    then have "rebuildLoop p cnt (x # xs) (t, tips) = rebuildLoop p cnt xs (t, tips)"
      using x by auto
    moreover have "resolved p cnt (x # xs) = resolved p cnt xs"
      using False x n(3) by (auto simp: resolved_def fun_eq_iff)
    moreover have "fst ` set tips \<inter> fst ` set xs = {}" "distinct (map fst xs)"
      using Cons.prems(2,3) by auto
    ultimately show ?thesis
      using Cons.IH [OF Cons.prems(1) _ _ Cons.prems(4)] by simp
  next
    case True
    then obtain l where l: "p (vLedgerID v) = Some l" "l \<in> L"
      using provides_memb [OF p] by blast
    have "length tips + 1 \<le> card A"
    proof -
      have "fst ` set ((n, l) # tips) \<subseteq> A" "distinct (map fst ((n, l) # tips))"
        using Cons.prems(1,4) A(3) True n(1) by (auto simp: tips_ok_def)
      then show ?thesis
        using keys_bound [OF _ _ A(1), of "(n, l) # tips"] by simp
    qed
    then have "length tips + 1 < 2 ^ 32"
      using A(2) by simp
    then obtain t' where t': "Insert l 1 t = Some t'" "tips_ok c L t' (AList.update n l tips)"
      by (rule tips_insert [OF fam Cons.prems(1) l(2) n(1)])
    let ?tips = "AList.update n l tips"
    have keys: "fst ` set ?tips = insert n (fst ` set tips)"
      using dom_update [of n l tips] by (simp add: insert_commute)
    have "fst ` set ?tips \<inter> fst ` set xs = {}" "fst ` set ?tips \<subseteq> A"
      using Cons.prems(3,4) n(2) A(3) True by (auto simp: keys)
    then obtain t'' tips' where r: "rebuildLoop p cnt xs (t', ?tips) = Some (t'', tips')" "tips_ok c L t'' tips'"
      "\<forall>m. map_of tips' m = (case resolved p cnt xs m of
         Some l \<Rightarrow> Some l | None \<Rightarrow> map_of ?tips m)"
      using Cons.IH [OF t'(2)] Cons.prems(2) by auto
    have "rebuildLoop p cnt (x # xs) (t, tips) = Some (t'', tips')"
      using x True l(1) t'(1) r(1) by simp
    moreover have "map_of tips' m = (case resolved p cnt (x # xs) m of
         Some l \<Rightarrow> Some l | None \<Rightarrow> map_of tips m)" for m
      using r(3) x True l(1) n(3) update_conv [of n l tips m] by (cases "m = n") (simp_all add: resolved_def split: option.split)
    ultimately show ?thesis
      using r(2) by blast
  qed
qed (simp add: resolved_def)

lemma rebuildTrie_spec:
  assumes fam: "ledger_family c genesisLedger L" and vt: "provider_ok L vt" "distinct (map fst (byNode vt))"
  obtains t tips where "rebuildTrieLocked vt = Some (vt\<lparr>trie := t, trieTips := tips\<rparr>)" "trie_ok c L (vt\<lparr>trie := t, trieTips := tips\<rparr>)"
    "\<And>p n. ancestry vt = Some p \<Longrightarrow> map_of tips n = latest p vt n"
proof (cases "ancestry vt")
  case None
  then have "rebuildTrieLocked vt = Some (vt\<lparr>trie := None, trieTips := []\<rparr>)" "trie_ok c L (vt\<lparr>trie := None, trieTips := []\<rparr>)"
    using vt(1) by (cases vt; simp add: rebuildTrieLocked_def provider_ok_def trie_ok_def)+
  then show thesis
    using None by (intro that [of "[]" None]) simp_all
next
  case (Some p)
  have "tips_ok c L (New genesisLedger) []"
    using ledger_family.trie_sem_New [OF fam] by (simp add: tips_ok_def tip_count_def New_def newEmptyNode_def)
  moreover have "provides L p" "finite (trusted vt)" "card (trusted vt) < 2 ^ 32" "\<forall>n. counted vt n \<longrightarrow> n \<in> trusted vt"
    using vt(1) Some by (simp_all add: provider_ok_def counted_def)
  ultimately obtain t tips where r: "rebuildLoop p (counted vt) (byNode vt) (New genesisLedger, []) = Some (t, tips)"
    "tips_ok c L t tips" "\<forall>n. map_of tips n = (case latest p vt n of Some l \<Rightarrow> Some l | None \<Rightarrow> map_of [] n)"
    using rebuildLoop_spec [OF fam, of p "trusted vt" "counted vt" "New genesisLedger" "[]" "byNode vt"] vt(2)
    unfolding latest_def by auto
  have tips: "map_of tips n = latest p vt n" for n
    using r(3) by (simp split: option.splits)
  have "counted vt n \<and> n \<in> fst ` set (byNode vt)" if n: "n \<in> fst ` set tips" for n
  proof -
    obtain l where "latest p vt n = Some l"
      using n tips [of n] map_of_eq_None_iff [of tips n] by fastforce
    then show ?thesis
      by (auto simp: latest_def resolved_def bind_eq_Some_conv intro: map_of_key split: if_splits)
  qed
  then have "trie_ok c L (vt\<lparr>trie := Some t, trieTips := tips\<rparr>)"
    using vt(1) r(2) Some by (simp add: trie_ok_def provider_ok_def)
  moreover have "rebuildTrieLocked vt = Some (vt\<lparr>trie := Some t, trieTips := tips\<rparr>)"
    using Some r(1) by (simp add: rebuildTrieLocked_def counted_def [abs_def])
  ultimately show thesis
    using that tips Some by simp
qed

subsection \<open>One validator moves to another ledger\<close>

text \<open>The tip to insert: the provider's answer, whether it was found before or under the lock.\<close>

lemma updateTrie_resolves:
  assumes "provides L p" "ancestry vt = Some p" "trie vt = Some t"
  shows "updateTrieLocked n i (p i) vt =
    (case p i of
       None \<Rightarrow> Some vt
     | Some lgr \<Rightarrow>
         (case (case map_of (trieTips vt) n of Some prev \<Rightarrow> map_option snd (Remove prev 1 t) | None \<Rightarrow> Some t) of
            None \<Rightarrow> None
          | Some t1 \<Rightarrow>
              (case Insert lgr 1 t1 of
                 None \<Rightarrow> None
               | Some t2 \<Rightarrow> Some (vt\<lparr>trie := Some t2, trieTips := AList.update n lgr (trieTips vt)\<rparr>))))"
  using assms provides_memb [OF assms(1), of i] by (cases "p i") (simp_all add: updateTrieLocked_def)

lemma tips_ok_cong:
  assumes "tips_ok c L t tips" "\<forall>i. tip_count tips' i = tip_count tips i" "distinct (map fst tips')" "snd ` set tips' \<subseteq> L"
  shows "tips_ok c L t tips'"
  using assms by (simp add: tips_ok_def)

lemma tips_replace:
  assumes fam: "ledger_family c genesisLedger L" and t: "tips_ok c L t tips" and l: "l \<in> L"
    and len: "n \<notin> fst ` set tips \<longrightarrow> length tips + 1 < 2 ^ 32" "length tips < 2 ^ 32"
  obtains t1 t2 where "(case map_of tips n of Some prev \<Rightarrow> map_option snd (Remove prev 1 t) | None \<Rightarrow> Some t) = Some t1"
    "Insert l 1 t1 = Some t2" "tips_ok c L t2 (AList.update n l tips)"
proof (cases "map_of tips n")
  case None
  then have n: "n \<notin> fst ` set tips"
    by (simp add: map_of_eq_None_iff)
  then obtain t2 where "Insert l 1 t = Some t2" "tips_ok c L t2 (AList.update n l tips)"
    using len(1) by (meson tips_insert [OF fam t l])
  then show thesis
    using that None by simp
next
  case (Some prev)
  let ?tips = "AList.delete n tips"
  obtain b t1 where t1: "Remove prev 1 t = Some (b, t1)" "tips_ok c L t1 ?tips"
    by (rule tips_remove [OF fam t Some])
  have d: "distinct (map fst tips)" "snd ` set tips \<subseteq> L"
    using t by (simp_all add: tips_ok_def)
  have n: "n \<notin> fst ` set ?tips"
    using dom_delete [of n tips] by auto
  have "length ?tips < length tips"
    using length_delete_less [OF map_of_key [OF Some]] .
  then have "length ?tips + 1 < 2 ^ 32"
    using len(2) by simp
  then obtain t2 where t2: "Insert l 1 t1 = Some t2" "tips_ok c L t2 (AList.update n l ?tips)"
    by (rule tips_insert [OF fam t1(2) l n])
  have "AList.delete n ?tips = ?tips"
    by (simp add: delete_idem)
  then have "tip_count (AList.update n l tips) i = tip_count (AList.update n l ?tips) i" for i
    using tip_count_update [OF d(1), of n l i] tip_count_update [of ?tips n l i] d(1) by (simp add: distinct_delete)
  moreover have "snd ` set (AList.update n l tips) \<subseteq> L"
    by (rule order_trans [OF image_mono [OF set_update_sub]]) (use d(2) l in simp)
  ultimately have "tips_ok c L t2 (AList.update n l tips)"
    using tips_ok_cong [OF t2(2)] d(1) by (simp add: distinct_update)
  then show thesis
    using that t1(1) t2(1) Some by simp
qed

lemma updateTrie_spec:
  assumes fam: "ledger_family c genesisLedger L" and vt: "trie_ok c L vt" and p: "ancestry vt = Some p"
    and n: "counted vt n" "n \<in> fst ` set (byNode vt)"
  obtains t tips where "updateTrieLocked n i (p i) vt = Some (vt\<lparr>trie := t, trieTips := tips\<rparr>)"
    "trie_ok c L (vt\<lparr>trie := t, trieTips := tips\<rparr>)"
    "\<And>m. map_of tips m = (if m = n \<and> p i \<noteq> None then p i else map_of (trieTips vt) m)"
proof -
  have pr: "provides L p"
    using vt p by (simp add: trie_ok_def provider_ok_def)
  obtain t where t: "trie vt = Some t" "tips_ok c L t (trieTips vt)"
    using vt p by (auto simp: trie_ok_def)
  have A: "finite (trusted vt)" "card (trusted vt) < 2 ^ 32" "fst ` set (trieTips vt) \<subseteq> trusted vt"
    using vt by (auto simp: trie_ok_def provider_ok_def counted_def)
  show thesis
  proof (cases "p i")
    case None
    then have "updateTrieLocked n i (p i) vt = Some (vt\<lparr>trie := trie vt, trieTips := trieTips vt\<rparr>)"
      using updateTrie_resolves [OF pr p t(1), of n i] by simp
    then show thesis
      by (rule that) (use vt None in simp_all)
  next
    case (Some l)
    have d: "distinct (map fst (trieTips vt))"
      using t(2) by (simp add: tips_ok_def)
    have len: "length (trieTips vt) < 2 ^ 32"
      using keys_bound [OF d A(3,1)] A(2) by simp
    have "length (trieTips vt) + 1 < 2 ^ 32" if "n \<notin> fst ` set (trieTips vt)"
      using keys_bound [of "(n, l) # trieTips vt" "trusted vt"] d A n(1) that by (simp add: counted_def)
    then obtain t1 t2 where r: "(case map_of (trieTips vt) n of Some prev \<Rightarrow> map_option snd (Remove prev 1 t) | None \<Rightarrow> Some t) = Some t1"
      "Insert l 1 t1 = Some t2" "tips_ok c L t2 (AList.update n l (trieTips vt))"
      using tips_replace [OF fam t(2) conjunct1 [OF provides_memb [OF pr Some]] _ len, of n] by blast
    let ?tips = "AList.update n l (trieTips vt)"
    have "fst ` set ?tips = insert n (fst ` set (trieTips vt))"
      using dom_update [of n l "trieTips vt"] by (simp add: insert_commute)
    then have "trie_ok c L (vt\<lparr>trie := Some t2, trieTips := ?tips\<rparr>)"
      using vt r(3) n p by (simp add: trie_ok_def provider_ok_def)
    moreover have "updateTrieLocked n i (p i) vt = Some (vt\<lparr>trie := Some t2, trieTips := ?tips\<rparr>)"
      using updateTrie_resolves [OF pr p t(1), of n i] Some r by simp
    ultimately show thesis
      using that Some by (simp add: update_conv)
  qed
qed

section \<open>Adding a validation\<close>

definition vt_ok :: "u32 \<Rightarrow> Ledger set \<Rightarrow> ValidationTracker \<Rightarrow> bool" where
  "vt_ok c L vt \<longleftrightarrow> index_ok vt \<and> trie_ok c L vt"

definition accepts :: "Time \<Rightarrow> Validation \<Rightarrow> ValidationTracker \<Rightarrow> bool" where
  "accepts now v vt \<longleftrightarrow> vFull v \<and> isCurrent now (vSignTime v) (vSeenTime v) \<and> minSeq vt \<le> vLedgerSeq v \<and>
     (\<forall>e. map_of (byNode vt) (resolver vt (vNodeID v)) = Some e \<longrightarrow> vLedgerSeq e < vLedgerSeq v)"

definition recorded :: "Validation \<Rightarrow> ValidationTracker \<Rightarrow> ValidationTracker" where
  "recorded v vt = vt\<lparr>byNode := AList.update (resolver vt (vNodeID v)) v (byNode vt),
     validations := AList.update (vLedgerID v)
       (AList.update (resolver vt (vNodeID v)) v (ledgerValsOf vt (vLedgerID v))) (validations vt)\<rparr>"

lemma floor_check: "(m :: u32) > 0 \<and> s < m \<longleftrightarrow> \<not> m \<le> s"
  by (metis not_le order_le_less_trans word_zero_le)

lemma Add_rejects: "\<not> accepts now v vt \<Longrightarrow> Add now v vt = Some (False, None, vt)"
  by (auto simp: Add_def accepts_def Let_def floor_check not_less split: option.splits)

lemma Add_accepts:
  assumes "accepts now v vt"
  shows "Add now v vt =
    (case (if counted vt (resolver vt (vNodeID v))
           then updateTrieLocked (resolver vt (vNodeID v)) (vLedgerID v)
             (case (trie vt, ancestry vt) of (Some _, Some p) \<Rightarrow> p (vLedgerID v) | _ \<Rightarrow> None) (recorded v vt)
           else Some (recorded v vt)) of
       None \<Rightarrow> None
     | Some vt2 \<Rightarrow> let (fire, vt3) = checkFullValidationLocked (vLedgerID v) vt2 in Some (True, fire, vt3))"
proof -
  have "vFull v" "isCurrent now (vSignTime v) (vSeenTime v)" "\<not> (minSeq vt > 0 \<and> vLedgerSeq v < minSeq vt)"
    "\<not> (case map_of (byNode vt) (resolver vt (vNodeID v)) of Some existing \<Rightarrow> vLedgerSeq v \<le> vLedgerSeq existing | None \<Rightarrow> False)"
    using assms by (auto simp: accepts_def floor_check not_le split: option.splits)
  then show ?thesis
    unfolding Add_def Let_def recorded_def counted_def by (simp only: if_False not_True_eq_False not_False_eq_True if_True)
qed

lemma recorded_simps [simp]:
  "trusted (recorded v vt) = trusted vt" "negUNL (recorded v vt) = negUNL vt" "ancestry (recorded v vt) = ancestry vt"
  "trie (recorded v vt) = trie vt" "trieTips (recorded v vt) = trieTips vt" "resolver (recorded v vt) = resolver vt"
  "quorum (recorded v vt) = quorum vt" "fired (recorded v vt) = fired vt" "onFullyValidated (recorded v vt) = onFullyValidated vt"
  "counted (recorded v vt) = counted vt"
  by (simp_all add: recorded_def counted_def fun_eq_iff)

lemma ledgerVals_recorded:
  "ledgerValsOf (recorded v vt) i = (if i = vLedgerID v then AList.update (resolver vt (vNodeID v)) v (ledgerValsOf vt i) else ledgerValsOf vt i)"
  by (simp add: ledgerValsOf_def recorded_def update_conv)

lemma byNode_recorded: "map_of (byNode (recorded v vt)) = (map_of (byNode vt))(resolver vt (vNodeID v) \<mapsto> v)"
  by (simp add: recorded_def update_conv')

lemma vals_ok_of:
  assumes "index_ok vt"
  shows "ledgerValsOf vt i = [] \<or> vals_ok i (ledgerValsOf vt i)"
  using assms by (auto simp: index_ok_def ledgerValsOf_def dest: map_of_SomeD split: option.splits)

lemma index_ok_recorded:
  assumes "index_ok vt" "vFull v"
  shows "index_ok (recorded v vt)"
proof -
  let ?r = "resolver vt (vNodeID v)" and ?i = "vLedgerID v"
  let ?vals = "AList.update ?r v (ledgerValsOf vt ?i)"
  have "\<forall>x \<in> set ?vals. vLedgerID (snd x) = ?i \<and> vFull (snd x)"
    using set_update_sub [of ?r v "ledgerValsOf vt ?i"] vals_ok_of [OF assms(1), of ?i] assms(2) by (auto simp: vals_ok_def)
  moreover have "distinct (map fst ?vals)"
    using vals_ok_of [OF assms(1), of ?i] by (intro distinct_update) (auto simp: vals_ok_def)
  ultimately have "vals_ok ?i ?vals"
    by (simp add: vals_ok_def)
  then have "\<forall>x \<in> set (validations (recorded v vt)). vals_ok (fst x) (snd x)"
    using set_update_sub [of ?i ?vals "validations vt"] assms(1) by (auto simp: index_ok_def recorded_def)
  moreover have "map_of (ledgerValsOf (recorded v vt) (vLedgerID w)) n = Some w" if "map_of (byNode (recorded v vt)) n = Some w" for n w
  proof (cases "n = ?r")
    case False
    then have "map_of (ledgerValsOf vt (vLedgerID w)) n = Some w"
      using that assms(1) unfolding byNode_recorded index_ok_def by simp
    then show ?thesis
      using False by (cases "vLedgerID w = ?i") (simp_all add: ledgerVals_recorded update_conv')
  qed (use that in \<open>simp add: byNode_recorded ledgerVals_recorded update_conv'\<close>)
  moreover have "distinct (map fst (byNode (recorded v vt)))" "distinct (map fst (validations (recorded v vt)))"
    using assms(1) by (simp_all add: recorded_def distinct_update index_ok_def)
  ultimately show ?thesis
    by (simp add: index_ok_def)
qed

lemma trie_ok_recorded:
  assumes "trie_ok c L vt"
  shows "trie_ok c L (recorded v vt)"
proof -
  have "fst ` set (byNode vt) \<subseteq> fst ` set (byNode (recorded v vt))"
    using dom_update [of "resolver vt (vNodeID v)" v "byNode vt"] by (auto simp: recorded_def)
  then show ?thesis
    using assms by (auto simp: trie_ok_def provider_ok_def)
qed

text \<open>The check for full validation changes nothing but the set of fired ledgers.\<close>

lemma check_fired: "checkFullValidationLocked i vt = (fire, vt') \<Longrightarrow> vt' = vt\<lparr>fired := fired vt'\<rparr>"
  by (cases vt) (auto simp: checkFullValidationLocked_def split: if_splits option.splits list.splits)

lemma fired_irrelevant [simp]:
  "counted (vt\<lparr>fired := F\<rparr>) = counted vt" "ledgerValsOf (vt\<lparr>fired := F\<rparr>) = ledgerValsOf vt"
  "countTrustedExcludingNegUNLLocked (vt\<lparr>fired := F\<rparr>) = countTrustedExcludingNegUNLLocked vt"
  by (simp_all add: counted_def ledgerValsOf_def countTrustedExcludingNegUNLLocked_def fun_eq_iff)

lemma vt_ok_fired [simp]: "vt_ok c L (vt\<lparr>fired := F\<rparr>) = vt_ok c L vt"
  by (simp add: vt_ok_def index_ok_def trie_ok_def provider_ok_def)

lemma trie_irrelevant [simp]:
  "ledgerValsOf (vt\<lparr>trie := t, trieTips := tips\<rparr>) = ledgerValsOf vt"
  "index_ok (vt\<lparr>trie := t, trieTips := tips\<rparr>) = index_ok vt"
  by (simp_all add: ledgerValsOf_def index_ok_def fun_eq_iff)

lemma Add_spec:
  assumes fam: "ledger_family c genesisLedger L" and vt: "vt_ok c L vt" and acc: "accepts now v vt"
  obtains t tips fire vt' where "Add now v vt = Some (True, fire, vt')"
    "checkFullValidationLocked (vLedgerID v) ((recorded v vt)\<lparr>trie := t, trieTips := tips\<rparr>) = (fire, vt')" "vt_ok c L vt'"
    "\<forall>p m. ancestry vt = Some p \<longrightarrow> map_of tips m =
       (if m = resolver vt (vNodeID v) \<and> counted vt m \<and> p (vLedgerID v) \<noteq> None then p (vLedgerID v) else map_of (trieTips vt) m)"
proof -
  let ?r = "resolver vt (vNodeID v)" and ?i = "vLedgerID v"
  have ok: "index_ok (recorded v vt)" "trie_ok c L (recorded v vt)"
    using vt acc index_ok_recorded trie_ok_recorded by (simp_all add: vt_ok_def accepts_def)
  have "\<exists>t tips. (if counted vt ?r then updateTrieLocked ?r ?i
      (case (trie vt, ancestry vt) of (Some _, Some p) \<Rightarrow> p ?i | _ \<Rightarrow> None) (recorded v vt) else Some (recorded v vt)) =
        Some ((recorded v vt)\<lparr>trie := t, trieTips := tips\<rparr>) \<and> trie_ok c L ((recorded v vt)\<lparr>trie := t, trieTips := tips\<rparr>) \<and>
      (\<forall>p m. ancestry vt = Some p \<longrightarrow> map_of tips m =
         (if m = ?r \<and> counted vt m \<and> p ?i \<noteq> None then p ?i else map_of (trieTips vt) m))"
  proof (cases "counted vt ?r \<and> ancestry vt \<noteq> None")
    case True
    then obtain p t where p: "ancestry vt = Some p" "trie vt = Some t"
      using vt by (auto simp: vt_ok_def trie_ok_def)
    have "?r \<in> fst ` set (byNode (recorded v vt))"
      using dom_update [of ?r v "byNode vt"] by (simp add: recorded_def)
    moreover have "ancestry (recorded v vt) = Some p" "counted (recorded v vt) ?r"
      using p True by simp_all
    ultimately obtain t' tips where "updateTrieLocked ?r ?i (p ?i) (recorded v vt) = Some ((recorded v vt)\<lparr>trie := t', trieTips := tips\<rparr>)"
      "trie_ok c L ((recorded v vt)\<lparr>trie := t', trieTips := tips\<rparr>)"
      "\<And>m. map_of tips m = (if m = ?r \<and> p ?i \<noteq> None then p ?i else map_of (trieTips (recorded v vt)) m)"
      by (metis updateTrie_spec [OF fam ok(2)])
    then show ?thesis
      using p True by (intro exI [of _ t'] exI [of _ tips]) auto
  next
    case False
    moreover have "updateTrieLocked ?r ?i x (recorded v vt) = Some (recorded v vt)" if "ancestry vt = None" for x
      using that by (simp add: updateTrieLocked_def split: option.split)
    ultimately show ?thesis
      using ok(2) by (intro exI [of _ "trie vt"] exI [of _ "trieTips vt"]) (auto simp: recorded_def)
  qed
  then obtain t tips where r: "Add now v vt = (let (fire, vt3) = checkFullValidationLocked ?i ((recorded v vt)\<lparr>trie := t, trieTips := tips\<rparr>)
      in Some (True, fire, vt3))" "trie_ok c L ((recorded v vt)\<lparr>trie := t, trieTips := tips\<rparr>)"
    "\<forall>p m. ancestry vt = Some p \<longrightarrow> map_of tips m =
       (if m = ?r \<and> counted vt m \<and> p ?i \<noteq> None then p ?i else map_of (trieTips vt) m)"
    using Add_accepts [OF acc] by auto
  obtain fire vt' where c: "checkFullValidationLocked ?i ((recorded v vt)\<lparr>trie := t, trieTips := tips\<rparr>) = (fire, vt')"
    by fastforce
  then have "vt_ok c L vt'"
    using r(2) ok(1) vt_ok_fired [of c L "fired vt'" "recorded v vt\<lparr>trie := t, trieTips := tips\<rparr>"] check_fired [OF c]
    by (simp add: vt_ok_def)
  then show thesis
    using that [OF _ c] r c by simp
qed

section \<open>Expiry\<close>

text \<open>The inner loop of \<open>ExpireOld\<close> on one entry.\<close>

lemma expire_one:
  assumes fam: "ledger_family c genesisLedger L" and vt: "trie_ok c L vt" and v: "map_of (byNode vt) n = Some v"
  obtains t tips where
    "expireNodes ((n, v) # rest) vt = expireNodes rest (vt\<lparr>byNode := AList.delete n (byNode vt), trie := t, trieTips := tips\<rparr>)"
    "trie_ok c L (vt\<lparr>byNode := AList.delete n (byNode vt), trie := t, trieTips := tips\<rparr>)"
    "map_of tips = (map_of (trieTips vt))(n := None)"
proof -
  let ?b = "AList.delete n (byNode vt)"
  have keys: "fst ` set ?b = fst ` set (byNode vt) - {n}"
    using dom_delete [of n "byNode vt"] by simp
  show thesis
  proof (cases "map_of (trieTips vt) n")
    case None
    then have "n \<notin> fst ` set (trieTips vt)"
      by (simp add: map_of_eq_None_iff)
    then have "trie_ok c L (vt\<lparr>byNode := ?b, trie := trie vt, trieTips := trieTips vt\<rparr>)"
      using vt keys by (auto simp: trie_ok_def provider_ok_def counted_def)
    moreover have "expireNodes ((n, v) # rest) vt = expireNodes rest (vt\<lparr>byNode := ?b, trie := trie vt, trieTips := trieTips vt\<rparr>)"
      using v None by (simp add: Let_def split: option.split)
    ultimately show thesis
      using that [of "trieTips vt" "trie vt"] None by (simp add: fun_upd_idem)
  next
    case (Some l)
    then have a: "ancestry vt \<noteq> None"
      using vt by (auto simp: trie_ok_def provider_ok_def)
    then obtain t where t: "trie vt = Some t" "tips_ok c L t (trieTips vt)"
      using vt by (auto simp: trie_ok_def)
    obtain b t' where r: "Remove l 1 t = Some (b, t')" "tips_ok c L t' (AList.delete n (trieTips vt))"
      by (rule tips_remove [OF fam t(2) Some])
    let ?tips = "AList.delete n (trieTips vt)"
    have "fst ` set ?tips = fst ` set (trieTips vt) - {n}"
      using dom_delete [of n "trieTips vt"] by simp
    then have "trie_ok c L (vt\<lparr>byNode := ?b, trie := Some t', trieTips := ?tips\<rparr>)"
      using vt a r(2) keys by (auto simp: trie_ok_def provider_ok_def counted_def)
    moreover have "expireNodes ((n, v) # rest) vt = expireNodes rest (vt\<lparr>byNode := ?b, trie := Some t', trieTips := ?tips\<rparr>)"
      using v Some t(1) r(1) by (simp add: Let_def)
    ultimately show thesis
      using that [of ?tips "Some t'"] by (simp add: delete_conv' restrict_complement_singleton_eq)
  qed
qed

text \<open>After the loop, the entries of the ledger are the latest of no node any more.\<close>

definition kept :: "(NodeID \<times> Validation) list \<Rightarrow> (NodeID \<rightharpoonup> Validation) \<Rightarrow> (NodeID \<rightharpoonup> Validation)" where
  "kept xs m n = (case m n of Some v \<Rightarrow> if (n, v) \<in> set xs then None else Some v | None \<Rightarrow> None)"

lemma expireNodes_spec:
  assumes fam: "ledger_family c genesisLedger L"
  shows "trie_ok c L vt \<Longrightarrow> distinct (map fst (byNode vt)) \<Longrightarrow>
    \<exists>b t tips. expireNodes xs vt = Some (vt\<lparr>byNode := b, trie := t, trieTips := tips\<rparr>) \<and>
      trie_ok c L (vt\<lparr>byNode := b, trie := t, trieTips := tips\<rparr>) \<and> distinct (map fst b) \<and>
      map_of b = kept xs (map_of (byNode vt)) \<and> (\<forall>n. map_of tips n = (if n \<in> fst ` set b then map_of (trieTips vt) n else None))"
proof (induction xs arbitrary: vt)
  case Nil
  have "map_of (trieTips vt) n = None" if "n \<notin> fst ` set (byNode vt)" for n
    using Nil.prems(1) that by (auto simp: trie_ok_def map_of_eq_None_iff)
  then show ?case
    using Nil.prems by (intro exI [of _ "byNode vt"] exI [of _ "trie vt"] exI [of _ "trieTips vt"])
      (auto simp: kept_def fun_eq_iff split: option.split)
next
  case (Cons x xs)
  obtain n v where x: "x = (n, v)"
    by (cases x)
  show ?case
  proof (cases "map_of (byNode vt) n = Some v")
    case False
    then have "kept (x # xs) (map_of (byNode vt)) = kept xs (map_of (byNode vt))"
      using x by (auto simp: kept_def fun_eq_iff split: option.split)
    then show ?thesis
      using Cons.IH [OF Cons.prems] False x by simp
  next
    case True
    obtain t tips where s: "expireNodes (x # xs) vt = expireNodes xs (vt\<lparr>byNode := AList.delete n (byNode vt), trie := t, trieTips := tips\<rparr>)"
      "trie_ok c L (vt\<lparr>byNode := AList.delete n (byNode vt), trie := t, trieTips := tips\<rparr>)"
      "map_of tips = (map_of (trieTips vt))(n := None)"
      unfolding x by (rule expire_one [OF fam Cons.prems(1) True])
    let ?vt = "vt\<lparr>byNode := AList.delete n (byNode vt), trie := t, trieTips := tips\<rparr>"
    have m: "map_of (byNode ?vt) = (map_of (byNode vt))(n := None)"
      by (simp add: delete_conv' restrict_complement_singleton_eq)
    have "distinct (map fst (byNode ?vt))"
      using Cons.prems(2) by (simp add: distinct_delete)
    then obtain b t' tips' where r: "expireNodes xs ?vt = Some (?vt\<lparr>byNode := b, trie := t', trieTips := tips'\<rparr>)"
      "trie_ok c L (?vt\<lparr>byNode := b, trie := t', trieTips := tips'\<rparr>)" "distinct (map fst b)"
      "map_of b = kept xs (map_of (byNode ?vt))" "\<forall>m. map_of tips' m = (if m \<in> fst ` set b then map_of (trieTips ?vt) m else None)"
      using Cons.IH [OF s(2)] by blast
    have k: "kept xs (map_of (byNode ?vt)) = kept (x # xs) (map_of (byNode vt))"
      unfolding m using True x by (auto simp: kept_def fun_eq_iff split: option.split)
    then have "n \<notin> fst ` set b"
      using r(4) True x by (simp add: map_of_eq_None_iff [symmetric] kept_def)
    then have "\<forall>m. map_of tips' m = (if m \<in> fst ` set b then map_of (trieTips vt) m else None)"
      using r(5) s(3) by auto
    then show ?thesis
      using s(1) r(1-4) k by (intro exI [of _ b] exI [of _ t'] exI [of _ tips']) simp
  qed
qed

text \<open>What every operation but the setters leaves alone.\<close>

definition same_settings :: "ValidationTracker \<Rightarrow> ValidationTracker \<Rightarrow> bool" where
  "same_settings vt vt' \<longleftrightarrow> trusted vt' = trusted vt \<and> negUNL vt' = negUNL vt \<and> quorum vt' = quorum vt \<and>
     freshness vt' = freshness vt \<and> minSeq vt' = minSeq vt \<and> resolver vt' = resolver vt \<and>
     onFullyValidated vt' = onFullyValidated vt \<and> onStale vt' = onStale vt \<and> ancestry vt' = ancestry vt"

lemma same_settings_trans: "same_settings a b \<Longrightarrow> same_settings b d \<Longrightarrow> same_settings a d"
  by (simp add: same_settings_def)

text \<open>The tracker without the ledgers of a set.\<close>

definition without :: "LedgerID set \<Rightarrow> ValidationTracker \<Rightarrow> ValidationTracker \<Rightarrow> bool" where
  "without D vt vt' \<longleftrightarrow> same_settings vt vt' \<and> fired vt' = fired vt - D \<and>
     (\<forall>i. map_of (validations vt') i = (if i \<in> D then None else map_of (validations vt) i)) \<and>
     (\<forall>n. map_of (byNode vt') n =
        (case map_of (byNode vt) n of Some v \<Rightarrow> if vLedgerID v \<in> D then None else Some v | None \<Rightarrow> None)) \<and>
     (\<forall>n. map_of (trieTips vt') n = (if n \<in> fst ` set (byNode vt') then map_of (trieTips vt) n else None))"

lemma without_none: "trie_ok c L vt \<Longrightarrow> without {} vt vt"
  by (force simp: without_def same_settings_def trie_ok_def map_of_eq_None_iff split: option.split)

lemma without_trans:
  assumes "without D vt vt1" "without E vt1 vt2"
  shows "without (D \<union> E) vt vt2"
  unfolding without_def
proof (intro conjI allI)
  note a = assms(1) [unfolded without_def] and b = assms(2) [unfolded without_def]
  fix i n
  show "same_settings vt vt2"
    using a b same_settings_trans by blast
  show "fired vt2 = fired vt - (D \<union> E)" "map_of (validations vt2) i = (if i \<in> D \<union> E then None else map_of (validations vt) i)"
    "map_of (byNode vt2) n =
      (case map_of (byNode vt) n of Some v \<Rightarrow> if vLedgerID v \<in> D \<union> E then None else Some v | None \<Rightarrow> None)"
    using a b by (simp_all add: Diff_eq Int_assoc split: option.split)
  have "map_of (byNode vt1) n \<noteq> None" if "map_of (byNode vt2) n \<noteq> None"
    using b that by (cases "map_of (byNode vt1) n") simp_all
  then have "n \<in> fst ` set (byNode vt2) \<Longrightarrow> n \<in> fst ` set (byNode vt1)"
    unfolding map_of_eq_None_iff by blast
  then show "map_of (trieTips vt2) n = (if n \<in> fst ` set (byNode vt2) then map_of (trieTips vt) n else None)"
    using a b by simp
qed

lemma vals_latest:
  assumes "index_ok vt" "map_of (validations vt) i = Some vals" "map_of (byNode vt) n = Some v"
  shows "(n, v) \<in> set vals \<longleftrightarrow> vLedgerID v = i"
proof
  assume "vLedgerID v = i"
  moreover have "map_of (ledgerValsOf vt (vLedgerID v)) n = Some v"
    using assms(1,3) unfolding index_ok_def by blast
  ultimately have "map_of vals n = Some v"
    using assms(2) by (simp add: ledgerValsOf_def)
  then show "(n, v) \<in> set vals"
    by (rule map_of_SomeD)
next
  assume "(n, v) \<in> set vals"
  moreover have "vals_ok i vals"
    using assms(1) map_of_SomeD [OF assms(2)] by (auto simp: index_ok_def)
  ultimately show "vLedgerID v = i"
    by (auto simp: vals_ok_def)
qed

lemma expire_ledger:
  assumes fam: "ledger_family c genesisLedger L" and vt: "vt_ok c L vt" and i: "map_of (validations vt) i = Some vals"
  obtains vt1 where "expireNodes vals vt = Some vt1"
    "vt_ok c L (vt1\<lparr>validations := AList.delete i (validations vt1), fired := fired vt1 - {i}\<rparr>)"
    "without {i} vt (vt1\<lparr>validations := AList.delete i (validations vt1), fired := fired vt1 - {i}\<rparr>)"
proof -
  have ok: "index_ok vt" "trie_ok c L vt" "distinct (map fst (byNode vt))"
    using vt by (simp_all add: vt_ok_def index_ok_def)
  obtain b t tips where r: "expireNodes vals vt = Some (vt\<lparr>byNode := b, trie := t, trieTips := tips\<rparr>)"
      "trie_ok c L (vt\<lparr>byNode := b, trie := t, trieTips := tips\<rparr>)" "distinct (map fst b)"
      "map_of b = kept vals (map_of (byNode vt))" "\<forall>n. map_of tips n = (if n \<in> fst ` set b then map_of (trieTips vt) n else None)"
    using expireNodes_spec [OF fam ok(2,3), of vals] by blast
  let ?vt = "vt\<lparr>byNode := b, trie := t, trieTips := tips, validations := AList.delete i (validations vt), fired := fired vt - {i}\<rparr>"
  have b: "map_of b n = (case map_of (byNode vt) n of Some v \<Rightarrow> if vLedgerID v = i then None else Some v | None \<Rightarrow> None)" for n
    using vals_latest [OF ok(1) i] by (simp add: r(4) kept_def split: option.split)
  have d: "map_of (validations ?vt) j = (if j = i then None else map_of (validations vt) j)" for j
    by (simp add: delete_conv' restrict_map_def)
  have "map_of (ledgerValsOf ?vt (vLedgerID v)) n = Some v" if "map_of b n = Some v" for n v
  proof -
    have "map_of (byNode vt) n = Some v" "vLedgerID v \<noteq> i"
      using that b [of n] by (auto split: option.splits if_splits)
    then show ?thesis
      using ok(1) d unfolding index_ok_def ledgerValsOf_def by simp
  qed
  moreover have "\<forall>x \<in> set (validations ?vt). vals_ok (fst x) (snd x)"
    using ok(1) set_delete_sub [of i "validations vt"] by (auto simp: index_ok_def)
  ultimately have "index_ok ?vt"
    using ok(1) r(3) by (simp add: index_ok_def distinct_delete)
  moreover have "trie_ok c L ?vt"
    using r(2) by (simp add: trie_ok_def provider_ok_def counted_def)
  moreover have "without {i} vt ?vt"
    using b d r(5) by (simp add: without_def same_settings_def split: option.split)
  ultimately show thesis
    using that [OF r(1)] by (simp add: vt_ok_def)
qed

definition is_stale :: "u32 \<Rightarrow> (NodeID \<times> Validation) list \<Rightarrow> bool" where
  "is_stale b vals \<longleftrightarrow> vals \<noteq> [] \<and> vLedgerSeq (snd (hd vals)) < b"

definition stale_vals :: "u32 \<Rightarrow> (LedgerID \<times> (NodeID \<times> Validation) list) list \<Rightarrow> Validation list" where
  "stale_vals b xs = concat (map (\<lambda>x. map snd (snd x)) (filter (\<lambda>x. is_stale b (snd x)) xs))"

definition stale_ledgers :: "u32 \<Rightarrow> (LedgerID \<times> (NodeID \<times> Validation) list) list \<Rightarrow> LedgerID set" where
  "stale_ledgers b xs = fst ` {x \<in> set xs. is_stale b (snd x)}"

lemma expireLedgers_spec:
  assumes fam: "ledger_family c genesisLedger L"
  shows "vt_ok c L vt \<Longrightarrow> distinct (map fst xs) \<Longrightarrow> \<forall>x \<in> set xs. map_of (validations vt) (fst x) = Some (snd x) \<Longrightarrow>
    \<exists>vt'. expireLedgers b xs vt stale = Some (stale @ stale_vals b xs, vt') \<and>
      vt_ok c L vt' \<and> without (stale_ledgers b xs) vt vt'"
proof (induction xs arbitrary: vt stale)
  case Nil
  then show ?case
    using without_none by (auto simp: stale_ledgers_def stale_vals_def vt_ok_def)
next
  case (Cons x xs)
  obtain i vals where x: "x = (i, vals)"
    by (cases x)
  show ?case
  proof (cases "is_stale b vals")
    case False
    then have "expireLedgers b (x # xs) vt stale = expireLedgers b xs vt stale"
      using x by (auto simp: is_stale_def split: list.split)
    moreover have "stale_ledgers b (x # xs) = stale_ledgers b xs" "stale_vals b (x # xs) = stale_vals b xs"
      using False x by (auto simp: stale_ledgers_def stale_vals_def)
    ultimately show ?thesis
      using Cons.IH [OF Cons.prems(1)] Cons.prems(2,3) by simp
  next
    case True
    obtain vt1 where s: "expireNodes vals vt = Some vt1"
      "vt_ok c L (vt1\<lparr>validations := AList.delete i (validations vt1), fired := fired vt1 - {i}\<rparr>)"
      "without {i} vt (vt1\<lparr>validations := AList.delete i (validations vt1), fired := fired vt1 - {i}\<rparr>)"
      using expire_ledger [OF fam Cons.prems(1), of i vals] Cons.prems(3) x by auto
    let ?vt = "vt1\<lparr>validations := AList.delete i (validations vt1), fired := fired vt1 - {i}\<rparr>"
    have "expireLedgers b (x # xs) vt stale = expireLedgers b xs ?vt (stale @ map snd vals)"
      using s(1) True x by (auto simp: is_stale_def split: list.split)
    moreover have "\<forall>y \<in> set xs. map_of (validations ?vt) (fst y) = Some (snd y)"
    proof
      fix y
      assume y: "y \<in> set xs"
      then have "fst y \<noteq> i"
        using Cons.prems(2) x by auto
      then show "map_of (validations ?vt) (fst y) = Some (snd y)"
        using s(3) Cons.prems(3) y unfolding without_def by simp
    qed
    moreover have "distinct (map fst xs)"
      using Cons.prems(2) by simp
    ultimately obtain vt' where "expireLedgers b (x # xs) vt stale =
        Some ((stale @ map snd vals) @ stale_vals b xs, vt')"
      "vt_ok c L vt'" "without (stale_ledgers b xs) ?vt vt'"
      using Cons.IH [OF s(2)] by metis
    moreover have "stale_ledgers b (x # xs) = {i} \<union> stale_ledgers b xs"
      using True x by (force simp: stale_ledgers_def)
    moreover have "stale_vals b (x # xs) = map snd vals @ stale_vals b xs"
      using True x by (simp add: stale_vals_def)
    ultimately show ?thesis
      using without_trans [OF s(3)] by simp
  qed
qed

lemma ExpireOld_spec:
  assumes fam: "ledger_family c genesisLedger L" and vt: "vt_ok c L vt"
  obtains vt' where "ExpireOld b vt =
      Some (if onStale vt then stale_vals b (validations vt) else [], vt')"
    "vt_ok c L vt'" "without (stale_ledgers b (validations vt)) vt vt'"
proof -
  have "distinct (map fst (validations vt))"
    using vt by (simp add: vt_ok_def index_ok_def)
  moreover from this have "\<forall>x \<in> set (validations vt). map_of (validations vt) (fst x) = Some (snd x)"
    by simp
  ultimately show thesis
    using expireLedgers_spec [OF fam vt, of "validations vt" b "[]"] that by (force simp: ExpireOld_def)
qed

end
