(* ===== verification/ValidationRuns.thy ===== *)
theory ValidationRuns
  imports ValidationInv
begin

text \<open>
  Sequences of operations on the validation tracker and what they keep: the invariant, the latest
  tips under a provider whose answers do not change, the calls of the callback, and the order of the
  validations of a node.
\<close>

section \<open>Sequences of operations\<close>

text \<open>\<open>OpLearn\<close> is not a call: the answers of the installed provider change as ledgers arrive.\<close>

datatype vt_op =
    OpAdd Time Validation
  | OpTrusted "NodeID list"
  | OpNegUNL "NodeID list"
  | OpQuorum int
  | OpMinSeq u32
  | OpResolver "(NodeID \<Rightarrow> NodeID) option"
  | OpCallback bool
  | OpOnStale bool
  | OpProvider "LedgerAncestryProvider option"
  | OpLearn LedgerAncestryProvider
  | OpExpire u32
  | OpClear

text \<open>Result: the calls of the callback for fully validated ledgers, and the tracker.\<close>

fun vt_step :: "vt_op \<Rightarrow> ValidationTracker \<Rightarrow> ((LedgerID \<times> u32) list \<times> ValidationTracker) option" where
  "vt_step (OpAdd now v) vt = map_option (\<lambda>(added, fire, vt'). (case fire of None \<Rightarrow> [] | Some e \<Rightarrow> [e], vt')) (Add now v vt)"
| "vt_step (OpTrusted ns) vt = map_option (Pair []) (SetTrusted ns vt)"
| "vt_step (OpNegUNL ns) vt = map_option (Pair []) (SetNegativeUNL ns vt)"
| "vt_step (OpQuorum q) vt = Some ([], SetQuorum q vt)"
| "vt_step (OpMinSeq s) vt = Some ([], SetMinSeq s vt)"
| "vt_step (OpResolver f) vt = Some ([], SetManifestResolver f vt)"
| "vt_step (OpCallback b) vt = Some ([], SetFullyValidatedCallback b vt)"
| "vt_step (OpOnStale b) vt = Some ([], SetOnStale b vt)"
| "vt_step (OpProvider p) vt = map_option (Pair []) (SetLedgerAncestryProvider p vt)"
| "vt_step (OpLearn p) vt = Some ([], vt\<lparr>ancestry := map_option (\<lambda>_. p) (ancestry vt)\<rparr>)"
| "vt_step (OpExpire b) vt = map_option (\<lambda>(stale, vt'). ([], vt')) (ExpireOld b vt)"
| "vt_step OpClear vt = map_option (Pair []) (ClearTracker vt)"

fun vt_run :: "vt_op list \<Rightarrow> ValidationTracker \<Rightarrow> ((LedgerID \<times> u32) list \<times> ValidationTracker) option" where
  "vt_run [] vt = Some ([], vt)"
| "vt_run (op # ops) vt =
     (case vt_step op vt of
        None \<Rightarrow> None
      | Some (evs, vt1) \<Rightarrow> map_option (\<lambda>(evs', vt'). (evs @ evs', vt')) (vt_run ops vt1))"

text \<open>The lists of validators fit in memory; the provider answers from the family.\<close>

fun op_ok :: "Ledger set \<Rightarrow> vt_op \<Rightarrow> bool" where
  "op_ok L (OpTrusted ns) \<longleftrightarrow> length ns < 2 ^ 32"
| "op_ok L (OpProvider p) \<longleftrightarrow> (case p of None \<Rightarrow> True | Some f \<Rightarrow> provides L f)"
| "op_ok L (OpLearn p) \<longleftrightarrow> provides L p"
| "op_ok L op \<longleftrightarrow> True"

text \<open>A provider whose answers do not change.\<close>

fun op_fixed :: "LedgerAncestryProvider \<Rightarrow> vt_op \<Rightarrow> bool" where
  "op_fixed p (OpProvider q) \<longleftrightarrow> (\<forall>f. q = Some f \<longrightarrow> f = p)"
| "op_fixed p (OpLearn q) \<longleftrightarrow> q = p"
| "op_fixed p op \<longleftrightarrow> True"

text \<open>Every counted validator whose latest ledger is known has its tip there.\<close>

definition fresh :: "LedgerAncestryProvider \<Rightarrow> ValidationTracker \<Rightarrow> bool" where
  "fresh p vt \<longleftrightarrow> (\<forall>q. ancestry vt = Some q \<longrightarrow> q = p \<and> (\<forall>n l. latest p vt n = Some l \<longrightarrow> map_of (trieTips vt) n = Some l))"

lemmas vt_ok_defs = vt_ok_def index_ok_def trie_ok_def provider_ok_def counted_def ledgerValsOf_def

lemma rebuild_step:
  assumes fam: "ledger_family c genesisLedger L" and vt: "provider_ok L vt" "index_ok vt" "\<forall>q. ancestry vt = Some q \<longrightarrow> q = p \<or> \<not> fixed"
  shows "\<exists>vt'. rebuildTrieLocked vt = Some vt' \<and> vt_ok c L vt' \<and> (fixed \<longrightarrow> fresh p vt')"
proof -
  have "distinct (map fst (byNode vt))"
    using vt(2) by (simp add: index_ok_def)
  then obtain t tips where "rebuildTrieLocked vt = Some (vt\<lparr>trie := t, trieTips := tips\<rparr>)" "trie_ok c L (vt\<lparr>trie := t, trieTips := tips\<rparr>)"
    "\<And>p n. ancestry vt = Some p \<Longrightarrow> map_of tips n = latest p vt n"
    by (metis rebuildTrie_spec [OF fam vt(1)])
  then show ?thesis
    using vt(2,3) by (auto simp: vt_ok_def fresh_def)
qed

lemma Add_step:
  assumes fam: "ledger_family c genesisLedger L" and vt: "vt_ok c L vt"
  shows "\<exists>b fire vt'. Add now v vt = Some (b, fire, vt') \<and> vt_ok c L vt' \<and> (fresh p vt \<longrightarrow> fresh p vt')"
proof (cases "accepts now v vt")
  case False
  then show ?thesis
    using vt by (auto simp: Add_rejects)
next
  case True
  obtain t tips fire vt' where r: "Add now v vt = Some (True, fire, vt')"
    "checkFullValidationLocked (vLedgerID v) ((recorded v vt)\<lparr>trie := t, trieTips := tips\<rparr>) = (fire, vt')" "vt_ok c L vt'"
    "\<forall>p m. ancestry vt = Some p \<longrightarrow> map_of tips m =
       (if m = resolver vt (vNodeID v) \<and> counted vt m \<and> p (vLedgerID v) \<noteq> None then p (vLedgerID v) else map_of (trieTips vt) m)"
    by (rule Add_spec [OF fam vt True])
  have vt': "vt' = (recorded v vt)\<lparr>trie := t, trieTips := tips, fired := fired vt'\<rparr>"
    using check_fired [OF r(2)] .
  have "fresh p vt'" if "fresh p vt"
    unfolding fresh_def
  proof (intro allI impI)
    fix q
    assume "ancestry vt' = Some q"
    then have q: "ancestry vt = Some q"
      by (subst (asm) vt') simp
    then have p: "ancestry vt = Some p" "q = p" "\<And>n l. latest p vt n = Some l \<Longrightarrow> map_of (trieTips vt) n = Some l"
      using that by (auto simp: fresh_def)
    have "map_of tips n = Some l" if "latest p vt' n = Some l" for n l
    proof -
      have "latest p vt' n = latest p (recorded v vt) n"
        by (subst vt') (simp add: latest_def)
      then have "latest p vt' n = (if n = resolver vt (vNodeID v) then if counted vt n then p (vLedgerID v) else None else latest p vt n)"
        by (simp add: latest_def resolved_def byNode_recorded)
      then show ?thesis
        using that p(1) p(3) [of n l] r(4) [rule_format, of p n]
        by (cases "n = resolver vt (vNodeID v)") (simp_all split: if_splits)
    qed
    moreover have "trieTips vt' = tips"
      by (subst vt') simp
    ultimately show "q = p \<and> (\<forall>n l. latest p vt' n = Some l \<longrightarrow> map_of (trieTips vt') n = Some l)"
      using p(2) by simp
  qed
  then show ?thesis
    using r(1,3) by blast
qed

lemma Expire_step:
  assumes fam: "ledger_family c genesisLedger L" and vt: "vt_ok c L vt"
  shows "\<exists>stale vt'. ExpireOld b vt = Some (stale, vt') \<and> vt_ok c L vt' \<and> (fresh p vt \<longrightarrow> fresh p vt')"
proof -
  obtain stale vt' where r: "ExpireOld b vt = Some (stale, vt')" "vt_ok c L vt'" "without (stale_ledgers b (validations vt)) vt vt'"
    by (rule ExpireOld_spec [OF fam vt])
  have "map_of (trieTips vt') n = Some l"
    if l: "latest p vt' n = Some l" "\<And>n l. latest p vt n = Some l \<Longrightarrow> map_of (trieTips vt) n = Some l" for n l
  proof -
    obtain v where v: "counted vt' n" "map_of (byNode vt') n = Some v" "p (vLedgerID v) = Some l"
      using l(1) by (auto simp: latest_def resolved_def bind_eq_Some_conv split: if_splits)
    moreover from this have "map_of (byNode vt) n = Some v" "counted vt n"
      using r(3) by (auto simp: without_def same_settings_def counted_def split: option.splits if_splits)
    ultimately have "latest p vt n = Some l"
      by (simp add: latest_def resolved_def)
    then show ?thesis
      using l(2) r(3) map_of_key [OF v(2)] by (simp add: without_def)
  qed
  moreover have "ancestry vt' = ancestry vt"
    using r(3) by (simp add: without_def same_settings_def)
  ultimately have "fresh p vt \<longrightarrow> fresh p vt'"
    unfolding fresh_def by metis
  then show ?thesis
    using r(1,2) by blast
qed

lemma vt_step_ok:
  assumes fam: "ledger_family c genesisLedger L" and vt: "vt_ok c L vt" and op: "op_ok L op"
  shows "\<exists>evs vt'. vt_step op vt = Some (evs, vt') \<and> vt_ok c L vt' \<and> (fresh p vt \<and> op_fixed p op \<longrightarrow> fresh p vt')"
proof -
  have ok: "provider_ok L vt" "index_ok vt"
    using vt by (simp_all add: vt_ok_def trie_ok_def)
  note rb = rebuild_step [OF fam, of _ p "fresh p vt \<and> op_fixed p op"]
  show ?thesis
  proof (cases op)
    case (OpAdd now v)
    then show ?thesis
      using Add_step [OF fam vt, of now v p] by auto
  next
    case (OpExpire b)
    then show ?thesis
      using Expire_step [OF fam vt, of b p] by auto
  next
    case (OpTrusted ns)
    have "card (set ns) < 2 ^ 32"
      using op OpTrusted card_length [of ns] by simp
    then show ?thesis
      using rb [of "vt\<lparr>trusted := set ns\<rparr>"] ok OpTrusted
      by (auto simp: SetTrusted_def provider_ok_def index_ok_def ledgerValsOf_def fresh_def)
  next
    case (OpNegUNL ns)
    then show ?thesis
      using rb [of "vt\<lparr>negUNL := set ns\<rparr>"] ok
      by (auto simp: SetNegativeUNL_def provider_ok_def index_ok_def ledgerValsOf_def fresh_def)
  next
    case OpClear
    then show ?thesis
      using rb [of "vt\<lparr>validations := [], byNode := [], fired := {}\<rparr>"] ok
      by (auto simp: ClearTracker_def provider_ok_def index_ok_def ledgerValsOf_def fresh_def)
  next
    case (OpProvider q)
    then show ?thesis
      using rb [of "vt\<lparr>ancestry := q\<rparr>"] ok op
      by (cases q) (auto simp: SetLedgerAncestryProvider_def vt_ok_defs fresh_def)
  next
    case (OpLearn q)
    then show ?thesis
      using vt op by (auto simp: vt_ok_defs fresh_def latest_def counted_def [abs_def])
  qed (use vt in \<open>auto simp: vt_ok_defs fresh_def latest_def counted_def [abs_def] SetQuorum_def SetMinSeq_def SetManifestResolver_def
      SetFullyValidatedCallback_def SetOnStale_def\<close>)
qed

lemma vt_run_ok:
  assumes fam: "ledger_family c genesisLedger L"
  shows "vt_ok c L vt \<Longrightarrow> \<forall>op \<in> set ops. op_ok L op \<Longrightarrow>
    \<exists>evs vt'. vt_run ops vt = Some (evs, vt') \<and> vt_ok c L vt' \<and> (fresh p vt \<and> (\<forall>op \<in> set ops. op_fixed p op) \<longrightarrow> fresh p vt')"
proof (induction ops arbitrary: vt)
  case (Cons op ops)
  obtain evs vt1 where s: "vt_step op vt = Some (evs, vt1)" "vt_ok c L vt1" "fresh p vt \<and> op_fixed p op \<longrightarrow> fresh p vt1"
    using vt_step_ok [OF fam Cons.prems(1), of op p] Cons.prems(2) by auto
  obtain evs' vt' where "vt_run ops vt1 = Some (evs', vt')" "vt_ok c L vt'"
    "fresh p vt1 \<and> (\<forall>op \<in> set ops. op_fixed p op) \<longrightarrow> fresh p vt'"
    using Cons.IH [OF s(2)] Cons.prems(2) by auto
  then show ?case
    using s by simp
qed auto

lemma New_ok: "vt_ok c L (NewValidationTracker q f)" "fresh p (NewValidationTracker q f)"
  by (simp_all add: NewValidationTracker_def vt_ok_defs fresh_def)

lemma filter_card:
  assumes "distinct (map fst xs)"
  shows "length (filter P xs) = card {n. \<exists>v. map_of xs n = Some v \<and> P (n, v)}"
proof -
  have "distinct (map fst (filter P xs))"
    using assms by (rule distinct_map_filter)
  then have "length (filter P xs) = card (fst ` set (filter P xs))"
    using distinct_card [of "map fst (filter P xs)"] by simp
  also have "fst ` set (filter P xs) = {n. \<exists>v. map_of xs n = Some v \<and> P (n, v)}"
    using assms by (force simp: image_iff)
  finally show ?thesis .
qed

section \<open>The trie of the tracker\<close>

text \<open>The branch support, while the provider knows the latest ledger of every counted validator.\<close>

lemma support_counts:
  assumes "ledger_family c genesisLedger L" "\<forall>op \<in> set ops. op_ok L op \<and> op_fixed p op"
    "vt_run ops (NewValidationTracker q f) = Some (evs, vt)" "ancestry vt \<noteq> None" "p i = Some l"
    "\<forall>n v. n \<in> trusted vt - negUNL vt \<longrightarrow> GetLatestValidation vt n = Some v \<longrightarrow> p (vLedgerID v) \<noteq> None"
  shows "GetTrustedSupport vt i = card {n \<in> trusted vt - negUNL vt.
    \<exists>v m. GetLatestValidation vt n = Some v \<and> p (vLedgerID v) = Some m \<and> descends m l}"
proof -
  have ok: "vt_ok c L vt" "fresh p vt"
    using vt_run_ok [OF assms(1) New_ok(1), of ops q f p] assms(2,3) New_ok(2) by auto
  have a: "ancestry vt = Some p"
    using ok(2) assms(4) by (auto simp: fresh_def)
  obtain t where t: "trie vt = Some t" "tips_ok c L t (trieTips vt)"
    using ok(1) assms(4) by (auto simp: vt_ok_def trie_ok_def)
  have "l \<in> L"
    using ok(1) a assms(5) by (auto simp: vt_ok_def trie_ok_def provider_ok_def provides_def)
  then have "GetTrustedSupport vt i = card {n. \<exists>m. map_of (trieTips vt) n = Some m \<and> descends m l}"
    using ledger_family.tips_branch [OF assms(1), of t "trieTips vt" l] t a assms(5)
    by (simp add: GetTrustedSupport_def tips_ok_def filter_card)
  moreover have "map_of (trieTips vt) n = latest p vt n" for n
  proof (cases "map_of (trieTips vt) n")
    case None
    then show ?thesis
      using ok(2) a by (cases "latest p vt n") (auto simp: fresh_def)
  next
    case (Some m)
    then have "counted vt n" "map_of (byNode vt) n \<noteq> None"
      using ok(1) map_of_key [OF Some] by (auto simp: vt_ok_def trie_ok_def map_of_eq_None_iff)
    then have "latest p vt n \<noteq> None"
      using assms(6) by (auto simp: latest_def resolved_def counted_def GetLatestValidation_def)
    then show ?thesis
      using ok(2) a Some by (auto simp: fresh_def)
  qed
  moreover have "latest p vt n = Some m \<longleftrightarrow> n \<in> trusted vt - negUNL vt \<and>
      (\<exists>v. GetLatestValidation vt n = Some v \<and> p (vLedgerID v) = Some m)" for n m
    by (auto simp: latest_def resolved_def counted_def GetLatestValidation_def bind_eq_Some_conv)
  ultimately show ?thesis
    by (auto intro!: arg_cong [of _ _ card])
qed

section \<open>What adding a validation does\<close>

lemma updateTrie_frame: "updateTrieLocked n i x vt = Some vt' \<Longrightarrow> \<exists>t tips. vt' = vt\<lparr>trie := t, trieTips := tips\<rparr>"
  by (cases vt) (auto simp: updateTrieLocked_def split: option.splits if_splits)

lemma rebuildTrie_frame: "rebuildTrieLocked vt = Some vt' \<Longrightarrow> \<exists>t tips. vt' = vt\<lparr>trie := t, trieTips := tips\<rparr>"
  by (cases vt) (auto simp: rebuildTrieLocked_def split: option.splits prod.splits)

lemma Add_result:
  assumes "Add now v vt = Some (added, fire, vt')" "accepts now v vt"
  obtains t tips where "added" "checkFullValidationLocked (vLedgerID v) ((recorded v vt)\<lparr>trie := t, trieTips := tips\<rparr>) = (fire, vt')"
proof -
  let ?r = "resolver vt (vNodeID v)"
  obtain vt2 where vt2: "(if counted vt ?r then updateTrieLocked ?r (vLedgerID v)
      (case (trie vt, ancestry vt) of (Some _, Some p) \<Rightarrow> p (vLedgerID v) | _ \<Rightarrow> None) (recorded v vt) else Some (recorded v vt)) = Some vt2"
    "checkFullValidationLocked (vLedgerID v) vt2 = (fire, vt')" "added"
    using assms(1) unfolding Add_accepts [OF assms(2)] by (auto split: option.splits prod.splits)
  moreover have "\<exists>t tips. recorded v vt = (recorded v vt)\<lparr>trie := t, trieTips := tips\<rparr>"
    by (intro exI [of _ "trie (recorded v vt)"] exI [of _ "trieTips (recorded v vt)"]) simp
  ultimately have "\<exists>t tips. vt2 = (recorded v vt)\<lparr>trie := t, trieTips := tips\<rparr>"
    using updateTrie_frame by (auto split: if_splits)
  then show thesis
    using that vt2(2,3) by blast
qed

lemma check_full:
  assumes "checkFullValidationLocked i vt = (fire, vt')" "ledgerValsOf vt i \<noteq> []"
  shows "fire \<noteq> None \<longleftrightarrow> onFullyValidated vt \<and> i \<notin> fired vt \<and> IsFullyValidated vt i"
    "fire = Some e \<Longrightarrow> fst e = i \<and> snd e \<in> vLedgerSeq ` set (GetValidations vt i)"
    "fired vt' = fired vt \<union> fst ` set_option fire"
  using assms by (auto simp: checkFullValidationLocked_def IsFullyValidated_def GetTrustedValidationCount_def GetValidations_def
      ledgerValsOf_def split: if_splits option.splits list.splits)

lemma Add_fire:
  assumes "Add now v vt = Some (added, fire, vt')" "accepts now v vt"
  shows "fire \<noteq> None \<longleftrightarrow> onFullyValidated vt \<and> vLedgerID v \<notin> fired vt \<and> IsFullyValidated vt' (vLedgerID v)"
    "fire = Some e \<Longrightarrow> fst e = vLedgerID v \<and> snd e \<in> vLedgerSeq ` set (GetValidations vt' (vLedgerID v))"
    "fired vt' = fired vt \<union> fst ` set_option fire" "map_of (byNode vt') = (map_of (byNode vt))(resolver vt (vNodeID v) \<mapsto> v)"
    "ledgerValsOf vt' = ledgerValsOf (recorded v vt)" "same_settings vt vt'"
proof -
  let ?i = "vLedgerID v"
  obtain t tips where c: "checkFullValidationLocked ?i ((recorded v vt)\<lparr>trie := t, trieTips := tips\<rparr>) = (fire, vt')"
    by (rule Add_result [OF assms])
  let ?vt = "(recorded v vt)\<lparr>trie := t, trieTips := tips\<rparr>"
  have vt': "vt' = ?vt\<lparr>fired := fired vt'\<rparr>"
    by (rule check_fired [OF c])
  show "map_of (byNode vt') = (map_of (byNode vt))(resolver vt (vNodeID v) \<mapsto> v)"
    by (subst vt') (simp add: byNode_recorded)
  show v: "ledgerValsOf vt' = ledgerValsOf (recorded v vt)"
    by (subst vt') simp
  show "same_settings vt vt'"
    by (subst vt') (simp add: same_settings_def recorded_def)
  have "GetTrustedValidationCount vt' = GetTrustedValidationCount ?vt"
    by (subst vt') (simp add: GetTrustedValidationCount_def countTrustedExcludingNegUNLLocked_def fun_eq_iff split: option.split)
  moreover have "quorum vt' = quorum ?vt"
    by (subst vt') simp
  ultimately have f: "IsFullyValidated vt' ?i = IsFullyValidated ?vt ?i"
    by (simp add: IsFullyValidated_def)
  have "ledgerValsOf ?vt ?i \<noteq> []"
    by (simp add: ledgerVals_recorded)
  note full = check_full [OF c this]
  show "fire \<noteq> None \<longleftrightarrow> onFullyValidated vt \<and> ?i \<notin> fired vt \<and> IsFullyValidated vt' ?i"
    using full(1) f by simp
  show "fired vt' = fired vt \<union> fst ` set_option fire"
    using full(3) by simp
  show "fire = Some e \<Longrightarrow> fst e = ?i \<and> snd e \<in> vLedgerSeq ` set (GetValidations vt' ?i)"
    using full(2) v by (simp add: GetValidations_def)
qed

text \<open>The count of a ledger never falls as validations are added.\<close>

lemma filter_update_mono:
  "length (filter (\<lambda>x. P (fst x)) xs) \<le> length (filter (\<lambda>x. P (fst x)) (AList.update k v xs))"
  by (induction xs) auto

lemma count_vals: "GetTrustedValidationCount vt i = length (filter (\<lambda>x. counted vt (fst x)) (ledgerValsOf vt i))"
  by (simp add: GetTrustedValidationCount_def countTrustedExcludingNegUNLLocked_def ledgerValsOf_def counted_def case_prod_unfold
      split: option.split)

lemma IsFullyValidated_cong:
  "same_settings vt vt' \<Longrightarrow> ledgerValsOf vt' i = ledgerValsOf vt i \<Longrightarrow> IsFullyValidated vt' i = IsFullyValidated vt i"
  by (simp add: IsFullyValidated_def count_vals same_settings_def counted_def)

lemma Add_full_mono:
  assumes "Add now v vt = Some (added, fire, vt')" "accepts now v vt" "IsFullyValidated vt i"
  shows "IsFullyValidated vt' i"
proof -
  note f = Add_fire(5,6) [OF assms(1,2)]
  have "counted vt' = counted vt" "quorum vt' = quorum vt"
    using f(2) by (auto simp: same_settings_def counted_def fun_eq_iff)
  then have "GetTrustedValidationCount vt i \<le> GetTrustedValidationCount vt' i"
    using filter_update_mono [of "counted vt" "ledgerValsOf vt i"]
    by (cases "i = vLedgerID v") (simp_all add: count_vals f(1) ledgerVals_recorded)
  then show ?thesis
    using assms(3) \<open>quorum vt' = quorum vt\<close> by (simp add: IsFullyValidated_def)
qed

definition full_ledgers :: "ValidationTracker \<Rightarrow> LedgerID set" where
  "full_ledgers vt = {i. GetValidations vt i \<noteq> [] \<and> IsFullyValidated vt i}"

lemma Add_full_ledgers:
  assumes "Add now v vt = Some (added, fire, vt')" "onFullyValidated vt" "fired vt = full_ledgers vt"
  shows "fired vt' = full_ledgers vt'" "onFullyValidated vt'" "fst ` set_option fire \<inter> fired vt = {}"
    "fired vt' = fired vt \<union> fst ` set_option fire"
proof -
  let ?i = "vLedgerID v"
  have "fired vt' = full_ledgers vt' \<and> onFullyValidated vt' \<and> fst ` set_option fire \<inter> fired vt = {} \<and>
      fired vt' = fired vt \<union> fst ` set_option fire"
  proof (cases "accepts now v vt")
    case False
    then show ?thesis
      using assms by (simp add: Add_rejects)
  next
    case True
    note f = Add_fire [OF assms(1) True]
    have i: "fst ` set_option fire = (if fire = None then {} else {?i})"
      using f(2) by (cases fire) auto
    have other: "j \<in> full_ledgers vt' \<longleftrightarrow> j \<in> full_ledgers vt" if "j \<noteq> ?i" for j
      using that IsFullyValidated_cong [OF f(6)] by (simp add: full_ledgers_def GetValidations_def f(5) ledgerVals_recorded)
    have "GetValidations vt' ?i \<noteq> []"
      by (simp add: GetValidations_def f(5) ledgerVals_recorded)
    then have "?i \<in> full_ledgers vt' \<longleftrightarrow> IsFullyValidated vt' ?i" "?i \<in> full_ledgers vt \<Longrightarrow> IsFullyValidated vt' ?i"
      using Add_full_mono [OF assms(1) True] by (simp_all add: full_ledgers_def)
    then have "j \<in> fired vt' \<longleftrightarrow> j \<in> full_ledgers vt'" for j
      using f(1,3) i other [of j] assms(2,3) by (cases "j = ?i") auto
    then have "fired vt' = full_ledgers vt'"
      by blast
    then show ?thesis
      using f(1,3,6) i assms(2) by (simp add: same_settings_def)
  qed
  then show "fired vt' = full_ledgers vt'" "onFullyValidated vt'" "fst ` set_option fire \<inter> fired vt = {}"
    "fired vt' = fired vt \<union> fst ` set_option fire"
    by iprover+
qed

lemma adds_run:
  "vt_run (map (\<lambda>(now, v). OpAdd now v) adds) vt = Some (evs, vt') \<Longrightarrow> onFullyValidated vt \<Longrightarrow> fired vt = full_ledgers vt \<Longrightarrow>
    fired vt' = full_ledgers vt' \<and> distinct (map fst evs) \<and> fst ` set evs \<inter> fired vt = {} \<and> fired vt' = fired vt \<union> fst ` set evs"
proof (induction adds arbitrary: vt evs)
  case (Cons a adds)
  obtain now v where a: "a = (now, v)"
    by (cases a)
  obtain added fire vt1 evs' where r: "Add now v vt = Some (added, fire, vt1)"
    "vt_run (map (\<lambda>(now, v). OpAdd now v) adds) vt1 = Some (evs', vt')" "evs = (case fire of None \<Rightarrow> [] | Some e \<Rightarrow> [e]) @ evs'"
    using Cons.prems(1) a by (auto split: option.splits)
  note s = Add_full_ledgers [OF r(1) Cons.prems(2,3)]
  show ?case
    using Cons.IH [OF r(2) s(2,1)] s r(3) by (cases fire) auto
qed simp

section \<open>One ledger per node and number\<close>

text \<open>The validations carry the numbers of the ledgers they name, a node's latest has the largest
  number, and a node has at most one ledger per number.\<close>

definition ordered :: "(LedgerID \<Rightarrow> u32) \<Rightarrow> ValidationTracker \<Rightarrow> bool" where
  "ordered sq vt \<longleftrightarrow> (\<forall>i n v. map_of (ledgerValsOf vt i) n = Some v \<longrightarrow> vLedgerSeq v = sq i \<and>
     (\<exists>w. map_of (byNode vt) n = Some w \<and> sq i \<le> sq (vLedgerID w)) \<and>
     (\<forall>j w. map_of (ledgerValsOf vt j) n = Some w \<longrightarrow> sq j = sq i \<longrightarrow> j = i))"

fun op_numbered :: "(LedgerID \<Rightarrow> u32) \<Rightarrow> vt_op \<Rightarrow> bool" where
  "op_numbered sq (OpAdd now v) \<longleftrightarrow> vLedgerSeq v = sq (vLedgerID v)"
| "op_numbered sq op \<longleftrightarrow> True"

lemma orderedD:
  assumes "ordered sq vt" "map_of (ledgerValsOf vt i) n = Some v"
  shows "vLedgerSeq v = sq i" "\<exists>w. map_of (byNode vt) n = Some w \<and> sq i \<le> sq (vLedgerID w)"
    "map_of (ledgerValsOf vt j) n = Some w \<Longrightarrow> sq j = sq i \<Longrightarrow> j = i"
  using assms unfolding ordered_def by blast+

lemma ordered_cong:
  "map_of (byNode vt') = map_of (byNode vt) \<Longrightarrow> ledgerValsOf vt' = ledgerValsOf vt \<Longrightarrow> ordered sq vt' = ordered sq vt"
  by (simp add: ordered_def)

lemma ordered_latest:
  assumes "index_ok vt" "ordered sq vt" "map_of (byNode vt) n = Some w"
  shows "vLedgerSeq w = sq (vLedgerID w)"
  using assms orderedD(1) [OF assms(2)] unfolding index_ok_def by blast

lemma Add_ordered:
  assumes add: "Add now v vt = Some (added, fire, vt')" "vLedgerSeq v = sq (vLedgerID v)" and ok: "index_ok vt" "ordered sq vt"
  shows "ordered sq vt'"
proof (cases "accepts now v vt")
  case False
  then show ?thesis
    using assms by (simp add: Add_rejects)
next
  case True
  let ?r = "resolver vt (vNodeID v)" and ?i = "vLedgerID v"
  note f = Add_fire(4,5) [OF add(1) True]
  have newer: "sq j < sq ?i" if w: "map_of (ledgerValsOf vt j) ?r = Some w" for j w
  proof -
    obtain e where e: "map_of (byNode vt) ?r = Some e" "sq j \<le> sq (vLedgerID e)"
      using orderedD(2) [OF ok(2) w] by blast
    then have "vLedgerSeq e < vLedgerSeq v"
      using True by (simp add: accepts_def)
    then show ?thesis
      using e(2) ordered_latest [OF ok e(1)] add(2) by simp
  qed
  have vals: "map_of (ledgerValsOf vt' j) n = (if j = ?i \<and> n = ?r then Some v else map_of (ledgerValsOf vt j) n)" for j n
    by (simp add: f(2) ledgerVals_recorded update_conv')
  show ?thesis
    unfolding ordered_def
  proof (intro allI impI)
    fix j n w
    assume w: "map_of (ledgerValsOf vt' j) n = Some w"
    show "vLedgerSeq w = sq j \<and> (\<exists>x. map_of (byNode vt') n = Some x \<and> sq j \<le> sq (vLedgerID x)) \<and>
        (\<forall>k x. map_of (ledgerValsOf vt' k) n = Some x \<longrightarrow> sq k = sq j \<longrightarrow> k = j)"
    proof (cases "n = ?r")
      case False
      then show ?thesis
        using w orderedD [OF ok(2), of j n w] by (simp add: vals f(1))
    next
      case True
      have latest: "map_of (byNode vt') n = Some v"
        using True by (simp add: f(1))
      show ?thesis
      proof (cases "j = ?i")
        case i: True
        have "k = j" if "map_of (ledgerValsOf vt' k) n = Some x" "sq k = sq j" for k x
          using that newer [of k x] True i by (cases "k = ?i") (simp_all add: vals)
        moreover have "w = v"
          using w True i by (simp add: vals)
        ultimately show ?thesis
          using latest add(2) i by simp
      next
        case False
        then have j: "map_of (ledgerValsOf vt j) n = Some w" "sq j < sq ?i"
          using w newer [of j w] True by (simp_all add: vals)
        then have "k = j" if "map_of (ledgerValsOf vt' k) n = Some x" "sq k = sq j" for k x
          using that orderedD(3) [OF ok(2) j(1)] True by (cases "k = ?i") (simp_all add: vals)
        moreover have "sq j \<le> sq ?i"
          using j(2) by (rule less_imp_le)
        ultimately show ?thesis
          using orderedD(1) [OF ok(2) j(1)] latest by simp
      qed
    qed
  qed
qed

lemma ledgerVals_key:
  assumes "index_ok vt" "(n, v) \<in> set (ledgerValsOf vt i)"
  shows "map_of (ledgerValsOf vt i) n = Some v"
  using assms vals_ok_of [OF assms(1), of i] by (auto simp: vals_ok_def)

lemma stale_iff:
  assumes "index_ok vt"
  shows "i \<in> stale_ledgers b (validations vt) \<longleftrightarrow> is_stale b (ledgerValsOf vt i)"
proof -
  have "(i, vals) \<in> set (validations vt) \<longleftrightarrow> map_of (validations vt) i = Some vals" for vals
    using assms by (simp add: index_ok_def)
  then show ?thesis
    by (force simp: stale_ledgers_def ledgerValsOf_def is_stale_def image_iff split: option.split)
qed

lemma stale_vals_set:
  assumes "index_ok vt"
  shows "set (stale_vals b (validations vt)) = (\<Union>i \<in> stale_ledgers b (validations vt). snd ` set (ledgerValsOf vt i))"
proof -
  have "ledgerValsOf vt (fst x) = snd x" if "x \<in> set (validations vt)" for x
  proof -
    have "map_of (validations vt) (fst x) = Some (snd x)"
      using assms that by (cases x) (simp add: index_ok_def)
    then show ?thesis
      by (simp add: ledgerValsOf_def)
  qed
  then show ?thesis
    by (auto simp: stale_vals_def stale_ledgers_def)
qed

lemma stale_number:
  assumes "index_ok vt" "ordered sq vt"
  shows "is_stale b (ledgerValsOf vt i) \<longleftrightarrow> ledgerValsOf vt i \<noteq> [] \<and> sq i < b"
proof (cases "ledgerValsOf vt i")
  case (Cons x xs)
  then have "map_of (ledgerValsOf vt i) (fst x) = Some (snd x)"
    by simp
  note orderedD(1) [OF assms(2) this]
  then show ?thesis
    using Cons by (simp add: is_stale_def)
qed (simp add: is_stale_def)

lemma without_vals: "without D vt vt' \<Longrightarrow> ledgerValsOf vt' i = (if i \<in> D then [] else ledgerValsOf vt i)"
  by (simp add: without_def ledgerValsOf_def)

lemma Expire_ordered:
  assumes w: "without (stale_ledgers b (validations vt)) vt vt'" and ok: "index_ok vt" "ordered sq vt"
  shows "ordered sq vt'"
  unfolding ordered_def
proof (intro allI impI)
  fix i n v
  assume "map_of (ledgerValsOf vt' i) n = Some v"
  then have i: "i \<notin> stale_ledgers b (validations vt)" "map_of (ledgerValsOf vt i) n = Some v"
    by (auto simp: without_vals [OF w] split: if_splits)
  note o = orderedD [OF ok(2) i(2)]
  obtain x where x: "map_of (byNode vt) n = Some x" "sq i \<le> sq (vLedgerID x)"
    using o(2) by blast
  have "ledgerValsOf vt i \<noteq> []"
    using i(2) by auto
  then have "b \<le> sq i"
    using i(1) stale_iff [OF ok(1)] stale_number [OF ok, of b i] by (simp add: not_less)
  then have "vLedgerID x \<notin> stale_ledgers b (validations vt)"
    using order_trans [OF _ x(2), of b] stale_iff [OF ok(1)] stale_number [OF ok, of b "vLedgerID x"] by (simp add: not_less)
  then have "map_of (byNode vt') n = Some x"
    using w x(1) by (simp add: without_def)
  moreover have "j = i" if "map_of (ledgerValsOf vt' j) n = Some y" "sq j = sq i" for j y
    using that o(3) by (auto simp: without_vals [OF w] split: if_splits)
  ultimately show "vLedgerSeq v = sq i \<and> (\<exists>w. map_of (byNode vt') n = Some w \<and> sq i \<le> sq (vLedgerID w)) \<and>
      (\<forall>j w. map_of (ledgerValsOf vt' j) n = Some w \<longrightarrow> sq j = sq i \<longrightarrow> j = i)"
    using o(1) x(2) by blast
qed

lemma rebuild_ordered: "rebuildTrieLocked vt = Some vt' \<Longrightarrow> ordered sq vt' = ordered sq vt"
  by (drule rebuildTrie_frame) (auto intro!: ordered_cong)

lemma vt_step_ordered:
  assumes fam: "ledger_family c genesisLedger L" and vt: "vt_ok c L vt" "ordered sq vt" and op: "op_numbered sq op"
    and s: "vt_step op vt = Some (evs, vt')"
  shows "ordered sq vt'"
proof -
  have ok: "index_ok vt"
    using vt(1) by (simp add: vt_ok_def)
  have same: "ordered sq w = ordered sq vt" if "byNode w = byNode vt" "validations w = validations vt" for w
    using that by (intro ordered_cong) (simp_all add: ledgerValsOf_def fun_eq_iff)
  show ?thesis
  proof (cases op)
    case (OpAdd now v)
    then show ?thesis
      using s op Add_ordered [OF _ _ ok vt(2)] by auto
  next
    case (OpExpire b)
    obtain stale w where "ExpireOld b vt = Some (stale, w)" "without (stale_ledgers b (validations vt)) vt w"
      by (rule ExpireOld_spec [OF fam vt(1)])
    then show ?thesis
      using s OpExpire Expire_ordered [OF _ ok vt(2)] by auto
  next
    case OpClear
    then show ?thesis
      using s by (auto simp: ClearTracker_def dest!: rebuild_ordered [of _ _ sq]) (simp add: ordered_def ledgerValsOf_def)
  next
    case (OpTrusted ns)
    then show ?thesis
      using s vt(2) same [of "vt\<lparr>trusted := set ns\<rparr>"] rebuild_ordered by (auto simp: SetTrusted_def)
  next
    case (OpNegUNL ns)
    then show ?thesis
      using s vt(2) same [of "vt\<lparr>negUNL := set ns\<rparr>"] rebuild_ordered by (auto simp: SetNegativeUNL_def)
  next
    case (OpProvider p)
    then show ?thesis
      using s vt(2) same [of "vt\<lparr>ancestry := p\<rparr>"] same [of "vt\<lparr>ancestry := None, trie := None, trieTips := []\<rparr>"] rebuild_ordered
      by (auto simp: SetLedgerAncestryProvider_def split: option.splits)
  qed (use s vt(2) same [of vt'] in \<open>auto simp: SetQuorum_def SetMinSeq_def SetManifestResolver_def SetFullyValidatedCallback_def SetOnStale_def\<close>)
qed

lemma vt_run_ordered:
  assumes fam: "ledger_family c genesisLedger L"
  shows "vt_ok c L vt \<Longrightarrow> ordered sq vt \<Longrightarrow> \<forall>op \<in> set ops. op_ok L op \<and> op_numbered sq op \<Longrightarrow> vt_run ops vt = Some (evs, vt') \<Longrightarrow>
    vt_ok c L vt' \<and> ordered sq vt'"
proof (induction ops arbitrary: vt evs)
  case (Cons op ops)
  obtain evs1 vt1 evs2 where s: "vt_step op vt = Some (evs1, vt1)" "vt_run ops vt1 = Some (evs2, vt')"
    using Cons.prems(4) by (auto split: option.splits)
  have "vt_ok c L vt1" "ordered sq vt1"
    using vt_step_ok [OF fam Cons.prems(1), of op "\<lambda>_. None"] vt_step_ordered [OF fam Cons.prems(1,2) _ s(1)] Cons.prems(3) s(1) by auto
  then show ?case
    using Cons.IH s(2) Cons.prems(3) by simp
qed simp

text \<open>Two ledgers with one number have no counted validator in common.\<close>

lemma two_counts:
  assumes "index_ok vt" "ordered sq vt" "finite (trusted vt)" "i \<noteq> j" "sq i = sq j"
  shows "GetTrustedValidationCount vt i + GetTrustedValidationCount vt j \<le> card (trusted vt - negUNL vt)"
proof -
  let ?N = "\<lambda>k. {n. \<exists>v. map_of (ledgerValsOf vt k) n = Some v \<and> counted vt n}"
  have sub: "?N k \<subseteq> trusted vt - negUNL vt" for k
    by (auto simp: counted_def)
  have fin: "finite (trusted vt - negUNL vt)"
    using assms(3) by simp
  have "distinct (map fst (ledgerValsOf vt k))" for k
    using vals_ok_of [OF assms(1), of k] by (auto simp: vals_ok_def)
  then have "GetTrustedValidationCount vt k = card (?N k)" for k
    using filter_card [of "ledgerValsOf vt k" "\<lambda>x. counted vt (fst x)"] by (simp add: count_vals)
  moreover have "?N i \<inter> ?N j = {}"
    using orderedD(3) [OF assms(2)] assms(4,5) by fastforce
  then have "card (?N i) + card (?N j) = card (?N i \<union> ?N j)"
    using finite_subset [OF sub fin] by (intro card_Un_disjoint [symmetric]) auto
  ultimately show ?thesis
    using card_mono [OF fin, of "?N i \<union> ?N j"] sub by simp
qed

end
