(* ===== verification/ProviderLedgers.thy ===== *)
theory ProviderLedgers
  imports ValidationRuns AncestryProvider
begin

text \<open>
  The ancestry provider behind the validation tracker.  The ledgers that the provider builds from a
  store of headers meet the contract of the trie, as far as their ancestries reach back to a common
  ancestor, and the answers do not depend on the state of the cache.
\<close>

section \<open>Ancestries of a store are a family\<close>

text \<open>The ancestries that reach the ledger \<open>r\<close> with the number \<open>c\<close>.\<close>

definition ancestries :: "(LedgerID \<Rightarrow> nat) \<Rightarrow> lookup \<Rightarrow> u32 \<Rightarrow> LedgerID \<Rightarrow> Ledger set" where
  "ancestries sq lk c r = {l. is_ancestry sq lk (ID l) l \<and> lk (ID l) \<noteq> None \<and> MinSeq l \<le> c \<and> c \<le> Seq l \<and> fits l \<and> Ancestor l c = r}"

locale ledger_store =
  fixes sq :: "LedgerID \<Rightarrow> nat" and lk :: lookup and c :: u32 and r :: LedgerID
  assumes store: "store_ok sq lk" and floor: "0 < c"
begin

lemma anc_at:
  assumes "a \<in> ancestries sq lk c r" "MinSeq a \<le> s" "s \<le> Seq a"
  shows "anc lk (unat (Seq a) - unat s) (ID a) = Some (Ancestor a s)" "unat (Seq a) = sq (ID a)"
  using assms by (auto simp: ancestries_def is_ancestry_def)

lemma seq_at:
  assumes "a \<in> ancestries sq lk c r" "MinSeq a \<le> s" "s \<le> Seq a"
  shows "sq (Ancestor a s) = unat s" "Ancestor a s \<noteq> zeroID"
proof -
  note a = anc_at [OF assms]
  have s: "0 < unat s" "unat s \<le> unat (Seq a)"
    using assms by (auto simp: ancestries_def is_ancestry_def word_le_nat_alt word_less_nat_alt)
  then have k: "unat (Seq a) - unat s < sq (ID a)"
    using a(2) by simp
  show "sq (Ancestor a s) = unat s"
    using anc_seq [OF store a(1) k] a(2) s by simp
  have "lk (ID a) \<noteq> None"
    using assms(1) by (simp add: ancestries_def)
  then have "ID a \<noteq> zeroID"
    using store by (auto simp: store_ok_def)
  then show "Ancestor a s \<noteq> zeroID"
    by (rule anc_nonzero [OF store a(1) k])
qed

lemma anc_below:
  assumes "a \<in> ancestries sq lk c r" "MinSeq a \<le> p" "p \<le> s" "s \<le> Seq a"
  shows "anc lk (unat s - unat p) (Ancestor a s) = Some (Ancestor a p)"
proof -
  have "unat p \<le> unat s" "unat s \<le> unat (Seq a)"
    using assms(3,4) by (simp_all add: word_le_nat_alt)
  then have "unat (Seq a) - unat p = (unat (Seq a) - unat s) + (unat s - unat p)"
    by simp
  moreover have "anc lk (unat (Seq a) - unat s) (ID a) = Some (Ancestor a s)" "anc lk (unat (Seq a) - unat p) (ID a) = Some (Ancestor a p)"
    using anc_at(1) [OF assms(1)] assms(2-4) by auto
  ultimately show ?thesis
    using anc_add [of lk "unat (Seq a) - unat s" "unat s - unat p" "ID a"] by simp
qed

lemma unique_history:
  assumes a: "a \<in> ancestries sq lk c r" "MinSeq a \<le> s" "s \<le> Seq a" and b: "b \<in> ancestries sq lk c r" "MinSeq b \<le> s'" "s' \<le> Seq b"
    and eq: "Ancestor a s = Ancestor b s'"
  shows "s = s' \<and> (\<forall>p. MinSeq a \<le> p \<longrightarrow> MinSeq b \<le> p \<longrightarrow> p \<le> s \<longrightarrow> Ancestor a p = Ancestor b p)"
proof -
  have "s = s'"
    using seq_at(1) [OF a] seq_at(1) [OF b] eq by (simp add: word_unat_eq_iff)
  moreover have "Ancestor a p = Ancestor b p" if "MinSeq a \<le> p" "MinSeq b \<le> p" "p \<le> s" for p
    using anc_below [OF a(1) that(1,3) a(3)] anc_below [OF b(1) that(2) _ b(3), of] that(3) \<open>s = s'\<close> eq by simp
  ultimately show ?thesis
    by blast
qed

text \<open>A ledger descends from another of the family exactly when the parent hashes lead there.\<close>

lemma descends_anc:
  assumes "m \<in> ancestries sq lk c r" "l \<in> ancestries sq lk c r"
  shows "descends m l \<longleftrightarrow> (\<exists>k < sq (ID m). anc lk k (ID m) = Some (ID l))"
proof -
  have m: "unat (Seq m) = sq (ID m)" "MinSeq m \<le> c" and l: "unat (Seq l) = sq (ID l)" "c \<le> Seq l" "0 < unat (Seq l)"
    using assms floor by (auto simp: ancestries_def is_ancestry_def word_less_nat_alt word_le_nat_alt)
  have low: "MinSeq m \<le> Seq l"
    using m(2) l(2) by (rule order_trans)
  show ?thesis
  proof
    assume d: "descends m l"
    then have "anc lk (unat (Seq m) - unat (Seq l)) (ID m) = Some (ID l)"
      using anc_at(1) [OF assms(1) low] by (simp add: descends_def)
    moreover have "unat (Seq m) - unat (Seq l) < sq (ID m)"
      using d m(1) l(3) by (simp add: descends_def word_le_nat_alt)
    ultimately show "\<exists>k < sq (ID m). anc lk k (ID m) = Some (ID l)"
      by blast
  next
    assume "\<exists>k < sq (ID m). anc lk k (ID m) = Some (ID l)"
    then obtain k where k: "k < sq (ID m)" "anc lk k (ID m) = Some (ID l)"
      by blast
    then have "sq (ID l) + k = sq (ID m)"
      using anc_seq [OF store] by blast
    then have "Seq l \<le> Seq m" "unat (Seq m) - unat (Seq l) = k"
      using m(1) l(1) by (simp_all add: word_le_nat_alt)
    then show "descends m l"
      using anc_at(1) [OF assms(1) low] k(2) by (simp add: descends_def)
  qed
qed

end

sublocale ledger_store \<subseteq> ledger_family c genesisLedger "ancestries sq lk c r"
proof
  let ?L = "ancestries sq lk c r"
  show "Seq genesisLedger = 0"
    by (simp add: genesisLedger_def)
  show "fits a" "MinSeq a \<le> c \<and> c \<le> Seq a \<and> 0 < Seq a" if "a \<in> ?L" for a
    using that floor by (auto simp: ancestries_def)
  show "Ancestor a (Seq a) = ID a" if a: "a \<in> ?L" for a
  proof -
    have "MinSeq a \<le> Seq a"
      using a by (auto simp: ancestries_def)
    then show ?thesis
      using anc_at(1) [OF a, of "Seq a"] by simp
  qed
  show "Ancestor a s \<noteq> Ancestor genesisLedger 0" if a: "a \<in> ?L" "c \<le> s" "0 < s" "s \<le> Seq a" for a s
  proof -
    have "MinSeq a \<le> s"
      using a by (auto simp: ancestries_def)
    then show ?thesis
      using seq_at(2) [OF a(1) _ a(4)] by (simp add: genesisLedger_def)
  qed
  show "Ancestor a 0 = Ancestor genesisLedger 0" if "c = 0" for a
    using that floor by simp
  show "Ancestor a c = Ancestor b c" if "a \<in> ?L" "b \<in> ?L" for a b
    using that by (simp add: ancestries_def)
qed (use unique_history in blast)

context ledger_store
begin

lemma family: "ledger_family c genesisLedger (ancestries sq lk c r)"
  by (rule ledger_family_axioms)

end

section \<open>The cache does not show\<close>

text \<open>A chain that is as long as possible is determined by its ledger.\<close>

lemma chain_longest:
  assumes "chain_ok lk a" "chain_full lk a" "chain_ok lk b" "pl_id a = pl_id b"
  shows "length (pl_ancestors b) \<le> length (pl_ancestors a)"
proof (rule ccontr)
  let ?n = "length (pl_ancestors a)"
  assume "\<not> length (pl_ancestors b) \<le> ?n"
  then have lt: "Suc ?n \<le> length (pl_ancestors b)"
    by simp
  have a: "unat (pl_minSeq a) + ?n = unat (pl_seq a)" "anc lk ?n (pl_id a) = Some ((pl_ancestors a @ [pl_id a]) ! 0)"
    "pl_seq a = pl_seq b"
    using assms(1,3,4) by (auto simp: chain_ok_def)
  have b: "unat (pl_minSeq b) + length (pl_ancestors b) = unat (pl_seq b)" "0 < unat (pl_minSeq b)" "length (pl_ancestors b) \<le> 256"
    "anc lk (Suc ?n) (pl_id b) \<noteq> None"
    using assms(3) lt by (auto simp: chain_ok_def)
  have "lk ((pl_ancestors a @ [pl_id a]) ! 0) \<noteq> None"
    using anc_add [of lk ?n 1 "pl_id a"] a(2) b(4) assms(4) by (auto split: option.splits)
  moreover have "pl_minSeq a \<noteq> 1" "?n \<noteq> 256"
    using a b lt by auto
  ultimately show False
    using assms(2) by (auto simp: chain_full_def nth_append hd_conv_nth)
qed

lemma chain_unique:
  assumes "chain_ok lk a" "chain_full lk a" "chain_ok lk b" "chain_full lk b" "pl_id a = pl_id b"
  shows "a = b"
proof -
  let ?n = "length (pl_ancestors a)"
  have n: "length (pl_ancestors b) = ?n"
    using chain_longest [OF assms(1-3,5)] chain_longest [OF assms(3,4,1)] assms(5) by simp
  have s: "pl_seq a = pl_seq b"
    using assms(1,3,5) by (auto simp: chain_ok_def)
  then have m: "pl_minSeq a = pl_minSeq b"
    using assms(1,3) n by (simp add: chain_ok_def word_unat_eq_iff)
  have "pl_ancestors a ! i = pl_ancestors b ! i" if "i < ?n" for i
  proof -
    have "anc lk (?n - i) (pl_id a) = Some (pl_ancestors a ! i)" "anc lk (?n - i) (pl_id b) = Some (pl_ancestors b ! i)"
      using assms(1,3) that n by (simp_all add: chain_ok_def nth_append)
    then show ?thesis
      using assms(5) by simp
  qed
  then have "pl_ancestors a = pl_ancestors b"
    using n by (intro nth_equalityI) simp_all
  then show ?thesis
    using assms(5) s m by (cases a, cases b) simp
qed

lemma LedgerByID_chain:
  assumes "store_ok sq lk" "requests lk ids newLedgerProviderFromLookup = Some p"
  obtains x p' where "LedgerByID (Some lk) i p = Some (map_option providerView x, p')" "x = None \<longleftrightarrow> lk i = None \<or> sq i = 0"
    "\<forall>l. x = Some l \<longrightarrow> pl_id l = i \<and> chain_ok lk l \<and> chain_full lk l"
proof -
  have p: "cache_inv lk p" "cache_full lk p"
    using requests_inv [OF assms(1) cache_inv_new, of ids] assms(2) by auto
  obtain x p' where x: "LedgerByID (Some lk) i p = Some (map_option providerView x, p')" "cache_inv lk p'"
    "lp_maxItems p' = lp_maxItems p" "cache_full lk p \<Longrightarrow> cache_full lk p'" "x = None \<longleftrightarrow> lk i = None \<or> sq i = 0"
    "\<And>l. x = Some l \<Longrightarrow> pl_id l = i \<and> chain_ok lk l \<and> (cache_full lk p \<longrightarrow> chain_full lk l)"
    by (rule LedgerByID_spec [OF assms(1) p(1)]) (rule that)
  have "\<forall>l. x = Some l \<longrightarrow> pl_id l = i \<and> chain_ok lk l \<and> chain_full lk l"
    using x(6) p(2) by simp
  then show thesis
    by (rule that [OF x(1,5)])
qed



section \<open>The tracker over the provider\<close>

text \<open>The answers of the provider, which do not depend on what it was asked before.\<close>

definition answers :: "lookup \<Rightarrow> LedgerAncestryProvider" where
  "answers lk i = (case LedgerByID (Some lk) i newLedgerProviderFromLookup of Some (x, p) \<Rightarrow> x | None \<Rightarrow> None)"

text \<open>Every ledger of the store goes back to the ledger \<open>r\<close> with the number \<open>c\<close> within the limit of the
  provider.\<close>

definition reaches :: "(LedgerID \<Rightarrow> nat) \<Rightarrow> lookup \<Rightarrow> u32 \<Rightarrow> LedgerID \<Rightarrow> bool" where
  "reaches sq lk c r \<longleftrightarrow> (\<forall>i. lk i \<noteq> None \<longrightarrow> unat c \<le> sq i \<and> sq i \<le> unat c + 256 \<and> sq i < 2 ^ 32 - 1 \<and> anc lk (sq i - unat c) i = Some r)"

lemma answers_provide:
  assumes "store_ok sq lk" "0 < c" "reaches sq lk c r"
  shows "provides (ancestries sq lk c r) (answers lk)" "answers lk i = None \<longleftrightarrow> lk i = None"
proof -
  have none: "requests lk [] newLedgerProviderFromLookup = Some newLedgerProviderFromLookup"
    by simp
  have "\<exists>x. answers lk i = map_option providerView x \<and> (x = None \<longleftrightarrow> lk i = None \<or> sq i = 0) \<and>
      (\<forall>l. x = Some l \<longrightarrow> pl_id l = i \<and> chain_ok lk l \<and> chain_full lk l)" for i
    by (rule LedgerByID_chain [OF assms(1) none, of i]) (auto simp: answers_def)
  then obtain x where x: "\<And>i. answers lk i = map_option providerView (x i)" "\<And>i. x i = None \<longleftrightarrow> lk i = None \<or> sq i = 0"
    "\<And>i l. x i = Some l \<Longrightarrow> pl_id l = i \<and> chain_ok lk l \<and> chain_full lk l"
    by metis
  have "sq i \<noteq> 0" if "lk i \<noteq> None"
    using assms(2,3) that by (auto simp: reaches_def word_less_nat_alt)
  then show "answers lk i = None \<longleftrightarrow> lk i = None"
    using x(1,2) [of i] by (cases "lk i") auto
  have "providerView l \<in> ancestries sq lk c r" if l: "x i = Some l" for i l
  proof -
    note ch = x(3) [OF l]
    have an: "is_ancestry sq lk i (providerView l)" "is_longest lk (providerView l)"
      using chain_ok_ancestry [OF assms(1), of l] ch by auto
    have i: "lk i \<noteq> None"
      using x(2) [of i] l by auto
    then have re: "unat c \<le> sq i" "sq i \<le> unat c + 256" "sq i < 2 ^ 32 - 1" "anc lk (sq i - unat c) i = Some r"
      using assms(3) by (simp_all add: reaches_def)
    have v: "ID (providerView l) = i" "unat (Seq (providerView l)) = sq i"
      using an(1) by (simp_all add: is_ancestry_def)
    have low: "MinSeq (providerView l) \<le> c"
    proof (rule ccontr)
      let ?m = "unat (MinSeq (providerView l))"
      assume "\<not> MinSeq (providerView l) \<le> c"
      then have m: "unat c < ?m" "MinSeq (providerView l) \<noteq> 1" "unat (Seq (providerView l)) \<noteq> ?m + 256"
        using assms(2) re(2) v(2) by (auto simp: word_le_nat_alt word_less_nat_alt)
      then have none: "lk (Ancestor (providerView l) (MinSeq (providerView l))) = None"
        using an(2) by (simp add: is_longest_def)
      have le: "?m \<le> sq i" "anc lk (sq i - ?m) i = Some (Ancestor (providerView l) (MinSeq (providerView l)))"
        using an(1) v(2) by (auto simp: is_ancestry_def word_le_nat_alt)
      have "sq i - unat c = (sq i - ?m) + Suc (?m - unat c - 1)"
        using le(1) m(1) by simp
      then show False
        using re(4) anc_add [of lk "sq i - ?m" "Suc (?m - unat c - 1)" i] le(2) none by simp
    qed
    have high: "c \<le> Seq (providerView l)"
      using re(1) v(2) by (simp add: word_le_nat_alt)
    have "Ancestor (providerView l) c = r"
      using an(1) low high v(2) re(4) by (simp add: is_ancestry_def)
    then show ?thesis
      using an(1) v i low high re(3) by (simp add: ancestries_def fits_def)
  qed
  then show "provides (ancestries sq lk c r) (answers lk)"
    using x(1,3) by (auto simp: provides_def providerView_def)
qed

end
