(* ===== verification/ValidationProps.thy ===== *)
theory ValidationProps
  imports ProviderLedgers
begin

text \<open>
  The properties of the validation tracker: no panic, what adding a validation does, when the callback
  is called, what expiry drops, and that two ledgers with one sequence number are never both fully
  validated.  The examples run the tracker over the ancestry provider and a store with a fork.
\<close>

section \<open>An example\<close>

text \<open>The ledgers 3, 4, 5 of one chain and another ledger 5 on top of 4; validators 1, 2, 3.\<close>

definition ex_fork :: LedgerID where
  "ex_fork = 5 # replicate 31 9"

definition ex_lookup :: lookup where
  "ex_lookup = ex_store(ex_fork \<mapsto> \<lparr>lh_seq = 5, lh_parent = ex_id 4\<rparr>)"

definition ex_node :: "nat \<Rightarrow> NodeID" where
  "ex_node n = word_of_nat n # replicate 32 1"

definition ex_number :: "LedgerID \<Rightarrow> u32" where
  "ex_number i = ucast (hd i)"

definition ex_val :: "nat \<Rightarrow> LedgerID \<Rightarrow> Validation" where
  "ex_val n i = zeroValidation\<lparr>vLedgerID := i, vLedgerSeq := ex_number i, vNodeID := ex_node n, vFull := True\<rparr>"

definition ex_setup :: "vt_op list" where
  "ex_setup = [OpProvider (Some (answers ex_lookup)), OpTrusted [ex_node 1, ex_node 2, ex_node 3], OpQuorum 3, OpCallback True]"

definition ex_adds :: "(Time \<times> Validation) list" where
  "ex_adds = [(zeroTime, ex_val 1 (ex_id 4)), (zeroTime, ex_val 2 (ex_id 4)), (zeroTime, ex_val 3 (ex_id 4)),
     (zeroTime, ex_val 1 (ex_id 5)), (zeroTime, ex_val 2 ex_fork)]"

definition ex_run :: "vt_op list" where
  "ex_run = ex_setup @ map (\<lambda>(now, v). OpAdd now v) ex_adds"

lemma ex_lookup_ok: "store_ok ex_seq ex_lookup"
proof -
  have "zeroID \<noteq> ex_fork" "ex_id 4 \<noteq> zeroID"
    by code_simp+
  then show ?thesis
    using ex_store_ok by (simp add: store_ok_def ex_lookup_def) (simp add: ex_fork_def ex_seq_def ex_id_def)
qed

lemma ex_reaches: "reaches ex_seq ex_lookup 3 (ex_id 3)"
proof -
  have "i \<in> {ex_id 3, ex_id 4, ex_id 5, ex_fork}" if "ex_lookup i \<noteq> None" for i
    using that by (auto simp: ex_lookup_def ex_store_def split: if_splits)
  moreover have "\<forall>i \<in> {ex_id 3, ex_id 4, ex_id 5, ex_fork}. 3 \<le> ex_seq i \<and> ex_seq i \<le> 5 \<and> anc ex_lookup (ex_seq i - 3) i = Some (ex_id 3)"
    by code_simp
  ultimately show ?thesis
    by (force simp: reaches_def)
qed

interpretation ex: ledger_store ex_seq ex_lookup 3 "ex_id 3"
  by unfold_locales (simp_all add: ex_lookup_ok)

definition ex_ledgers :: "Ledger set" where
  "ex_ledgers = ancestries ex_seq ex_lookup 3 (ex_id 3)"

lemma ex_family: "ledger_family 3 genesisLedger ex_ledgers"
  unfolding ex_ledgers_def by (rule ex.ledger_family_axioms)

lemma ex_provides: "provides ex_ledgers (answers ex_lookup)"
  unfolding ex_ledgers_def by (rule answers_provide(1) [OF ex_lookup_ok _ ex_reaches]) simp

lemma ex_run_ok: "\<forall>op \<in> set ex_run. op_ok ex_ledgers op"
  using ex_provides by (simp add: ex_run_def ex_setup_def ex_adds_def)

section \<open>Properties\<close>

text \<open>C8: Every sequence of operations runs without a panic, whatever the validators send and as the
  provider learns more ledgers.  The indexes agree, the self check of the trie holds, and the trie
  holds one unit of support for each recorded tip; the tips are of trusted validators not on the
  negative UNL that have a latest validation.\<close>

theorem tracker_run_ok:
  assumes "ledger_family c genesisLedger L" "\<forall>op \<in> set ops. op_ok L op"
  shows "\<exists>evs vt. vt_run ops (NewValidationTracker q f) = Some (evs, vt) \<and> index_ok vt \<and>
    (\<forall>t. trie vt = Some t \<longrightarrow> CheckInvariants t \<and>
       (\<forall>l. unat (TipSupport t l) = card {n. \<exists>m. map_of (trieTips vt) n = Some m \<and> ID m = ID l})) \<and>
    (\<forall>n. map_of (trieTips vt) n \<noteq> None \<longrightarrow> n \<in> trusted vt \<and> n \<notin> negUNL vt \<and> GetLatestValidation vt n \<noteq> None)"
proof -
  obtain evs vt where vt: "vt_run ops (NewValidationTracker q f) = Some (evs, vt)" "vt_ok c L vt"
    using vt_run_ok [OF assms(1) New_ok(1) assms(2)] by blast
  have "CheckInvariants t \<and> (\<forall>l. unat (TipSupport t l) = card {n. \<exists>m. map_of (trieTips vt) n = Some m \<and> ID m = ID l})"
    if t: "trie vt = Some t" for t
  proof -
    have ok: "tips_ok c L t (trieTips vt)"
      using vt(2) t by (auto simp: vt_ok_def trie_ok_def provider_ok_def)
    then have "trie_sem c genesisLedger L t"
      by (simp add: tips_ok_def)
    then show ?thesis
      using ok trie_inv_CheckInvariants trie_semD(1) ledger_family.TipSupport_idsum [OF assms(1)]
      by (auto simp: tips_ok_def tip_count_def filter_card)
  qed
  moreover have "n \<in> trusted vt \<and> n \<notin> negUNL vt \<and> GetLatestValidation vt n \<noteq> None" if "map_of (trieTips vt) n \<noteq> None" for n
    using vt(2) that by (auto simp: vt_ok_def trie_ok_def counted_def GetLatestValidation_def map_of_eq_None_iff)
  ultimately show ?thesis
    using vt by (auto simp: vt_ok_def)
qed

theorem tracker_run_ok_witness:
  "\<exists>evs vt. vt_run ex_run (NewValidationTracker 2 Second) = Some (evs, vt) \<and> index_ok vt \<and>
    (\<forall>t. trie vt = Some t \<longrightarrow> CheckInvariants t \<and>
       (\<forall>l. unat (TipSupport t l) = card {n. \<exists>m. map_of (trieTips vt) n = Some m \<and> ID m = ID l})) \<and>
    (\<forall>n. map_of (trieTips vt) n \<noteq> None \<longrightarrow> n \<in> trusted vt \<and> n \<notin> negUNL vt \<and> GetLatestValidation vt n \<noteq> None)"
  by (rule tracker_run_ok [OF ex_family ex_run_ok])

text \<open>C3: With the quorum that \<open>computeQuorum\<close> gives for the trusted validators less the negative UNL, and
  validations that carry the number of the ledger they name, at no point of any sequence of
  operations are two different ledgers with the same number both fully validated, whatever
  conflicting validations the validators send.\<close>

theorem no_two_fully_validated:
  assumes "ledger_family c genesisLedger L" "\<forall>op \<in> set ops. op_ok L op \<and> op_numbered sq op"
    "vt_run ops (NewValidationTracker q f) = Some (evs, vt)" "trusted vt \<noteq> {}" "negUNL vt \<subseteq> trusted vt"
    "quorum vt = computeQuorum (int (card (trusted vt))) (int (card (negUNL vt)))" "i \<noteq> j" "sq i = sq j"
  shows "\<not> (IsFullyValidated vt i \<and> IsFullyValidated vt j)"
proof
  assume full: "IsFullyValidated vt i \<and> IsFullyValidated vt j"
  have "ordered sq (NewValidationTracker q f)"
    by (simp add: ordered_def NewValidationTracker_def ledgerValsOf_def)
  then have ok: "index_ok vt" "ordered sq vt" "finite (trusted vt)" "card (trusted vt) < 2 ^ 32"
    using vt_run_ordered [OF assms(1) New_ok(1) _ assms(2,3)] by (auto simp: vt_ok_def trie_ok_def provider_ok_def)
  have "card (trusted vt - negUNL vt) = card (trusted vt) - card (negUNL vt)" "card (negUNL vt) \<le> card (trusted vt)"
    using assms(5) ok(3) by (simp_all add: card_Diff_subset finite_subset card_mono)
  moreover have "int (card (trusted vt)) - int (card (negUNL vt)) < 2 * quorum vt"
    unfolding assms(6) using ok(3,4) assms(4) by (intro computeQuorum_majority) (simp_all add: card_gt_0_iff)
  moreover have "GetTrustedValidationCount vt i + GetTrustedValidationCount vt j \<le> card (trusted vt - negUNL vt)"
    by (rule two_counts [OF ok(1-3) assms(7,8)])
  ultimately show False
    using full unfolding IsFullyValidated_def by linarith
qed

theorem no_two_fully_validated_witness:
  "\<exists>evs vt. vt_run ex_run (NewValidationTracker 2 Second) = Some (evs, vt) \<and> GetValidations vt (ex_id 5) \<noteq> [] \<and>
     GetValidations vt ex_fork \<noteq> [] \<and> \<not> (IsFullyValidated vt (ex_id 5) \<and> IsFullyValidated vt ex_fork)"
proof -
  have "(case vt_run ex_run (NewValidationTracker 2 Second) of
      Some (evs, vt) \<Rightarrow> trusted vt = {ex_node 1, ex_node 2, ex_node 3} \<and> negUNL vt = {} \<and> quorum vt = 3 \<and>
        GetValidations vt (ex_id 5) \<noteq> [] \<and> GetValidations vt ex_fork \<noteq> []
    | None \<Rightarrow> False)"
    by code_simp
  then obtain evs vt where vt: "vt_run ex_run (NewValidationTracker 2 Second) = Some (evs, vt)"
    "trusted vt = {ex_node 1, ex_node 2, ex_node 3}" "negUNL vt = {}" "quorum vt = 3"
    "GetValidations vt (ex_id 5) \<noteq> []" "GetValidations vt ex_fork \<noteq> []"
    by (auto split: option.splits)
  have n: "ex_node 1 \<noteq> ex_node 2" "ex_node 1 \<noteq> ex_node 3" "ex_node 2 \<noteq> ex_node 3" "ex_id 5 \<noteq> ex_fork" "ex_number (ex_id 5) = ex_number ex_fork"
    "computeQuorum 3 0 = 3"
    by code_simp+
  then have q: "quorum vt = computeQuorum (int (card (trusted vt))) (int (card (negUNL vt)))" "trusted vt \<noteq> {}" "negUNL vt \<subseteq> trusted vt"
    using vt(2-4) by simp_all
  have ops: "\<forall>op \<in> set ex_run. op_ok ex_ledgers op \<and> op_numbered ex_number op"
    using ex_run_ok by (simp add: ex_run_def ex_setup_def ex_adds_def ex_val_def)
  show ?thesis
    using no_two_fully_validated [OF ex_family ops vt(1) q(2,3,1) n(4,5)] vt(1,5,6) by blast
qed

text \<open>C9: From a tracker without validations, as validations arrive the callback is called exactly once
  for each ledger that ends up fully validated, and for no other.\<close>

theorem adds_fire_exactly:
  assumes "validations vt = []" "fired vt = {}" "onFullyValidated vt"
    "vt_run (map (\<lambda>(now, v). OpAdd now v) adds) vt = Some (evs, vt')"
  shows "distinct (map fst evs) \<and> (\<forall>i. i \<in> fst ` set evs \<longleftrightarrow> GetValidations vt' i \<noteq> [] \<and> IsFullyValidated vt' i)"
proof -
  have "fired vt = full_ledgers vt"
    using assms(1,2) by (simp add: full_ledgers_def GetValidations_def ledgerValsOf_def)
  then show ?thesis
    using adds_run [OF assms(4,3)] assms(2) by (auto simp: full_ledgers_def)
qed

theorem adds_fire_exactly_witness:
  "\<exists>vt evs vt'. vt_run ex_setup (NewValidationTracker 2 Second) = Some ([], vt) \<and>
     vt_run (map (\<lambda>(now, v). OpAdd now v) ex_adds) vt = Some (evs, vt') \<and> evs = [(ex_id 4, 4)] \<and> distinct (map fst evs) \<and>
     (\<forall>i. i \<in> fst ` set evs \<longleftrightarrow> GetValidations vt' i \<noteq> [] \<and> IsFullyValidated vt' i)"
proof -
  have "(case vt_run ex_setup (NewValidationTracker 2 Second) of
      Some (e, vt) \<Rightarrow> e = [] \<and> validations vt = [] \<and> onFullyValidated vt \<and> fired vt = {} \<and>
        map_option fst (vt_run (map (\<lambda>(now, v). OpAdd now v) ex_adds) vt) = Some [(ex_id 4, 4)]
    | None \<Rightarrow> False)"
    by code_simp
  then obtain vt evs vt' where vt: "vt_run ex_setup (NewValidationTracker 2 Second) = Some ([], vt)" "validations vt = []" "fired vt = {}"
    "onFullyValidated vt" "vt_run (map (\<lambda>(now, v). OpAdd now v) ex_adds) vt = Some (evs, vt')" "evs = [(ex_id 4, 4)]"
    by (auto split: option.splits)
  then show ?thesis
    using adds_fire_exactly [OF vt(2-5)] by blast
qed

text \<open>C25: A validation is added exactly when it is full, current, not below the floor, and newer than
  the latest one of its validator.  Then it is the latest of its validator and among those of its
  ledger, and the callback is called exactly when the ledger, not called for before, is fully
  validated with it; the sequence number passed is the one of some validation of the ledger.
  Otherwise nothing changes.\<close>

theorem Add_effect:
  assumes "Add now v vt = Some (added, fire, vt')"
  shows "(added \<longleftrightarrow> vFull v \<and> isCurrent now (vSignTime v) (vSeenTime v) \<and> minSeq vt \<le> vLedgerSeq v \<and>
      (\<forall>e. GetLatestValidation vt (resolver vt (vNodeID v)) = Some e \<longrightarrow> vLedgerSeq e < vLedgerSeq v)) \<and>
    (\<not> added \<longrightarrow> fire = None \<and> vt' = vt) \<and>
    (added \<longrightarrow> GetLatestValidation vt' (resolver vt (vNodeID v)) = Some v \<and> v \<in> set (GetValidations vt' (vLedgerID v)) \<and>
      (fire \<noteq> None \<longleftrightarrow> onFullyValidated vt \<and> vLedgerID v \<notin> fired vt \<and> IsFullyValidated vt' (vLedgerID v)) \<and>
      (\<forall>e. fire = Some e \<longrightarrow> fst e = vLedgerID v \<and> snd e \<in> vLedgerSeq ` set (GetValidations vt' (vLedgerID v))))"
proof (cases "accepts now v vt")
  case False
  then show ?thesis
    using assms by (auto simp: Add_rejects accepts_def GetLatestValidation_def)
next
  case True
  have "added"
    by (rule Add_result [OF assms True])
  note f = Add_fire [OF assms True]
  have "map_of (ledgerValsOf vt' (vLedgerID v)) (resolver vt (vNodeID v)) = Some v"
    by (simp add: f(5) ledgerVals_recorded update_conv')
  then have "v \<in> set (GetValidations vt' (vLedgerID v))"
    by (force simp: GetValidations_def dest: map_of_SomeD)
  then show ?thesis
    using True \<open>added\<close> f(1,2,4) by (auto simp: accepts_def GetLatestValidation_def)
qed

theorem Add_effect_witness:
  "\<exists>fire vt'. Add zeroTime (ex_val 1 (ex_id 4)) (SetQuorum 0 (SetFullyValidatedCallback True (NewValidationTracker 2 Second))) =
     Some (True, fire, vt') \<and> fire \<noteq> None \<and> IsFullyValidated vt' (ex_id 4)"
proof -
  let ?vt = "SetQuorum 0 (SetFullyValidatedCallback True (NewValidationTracker 2 Second))"
  have "map_option (\<lambda>(added, fire, vt'). (added, fire = None)) (Add zeroTime (ex_val 1 (ex_id 4)) ?vt) = Some (True, False)"
    by code_simp
  then obtain fire vt' where "Add zeroTime (ex_val 1 (ex_id 4)) ?vt = Some (True, fire, vt')" "fire \<noteq> None"
    by auto
  moreover have "vLedgerID (ex_val 1 (ex_id 4)) = ex_id 4"
    by (simp add: ex_val_def)
  ultimately show ?thesis
    using Add_effect [of zeroTime "ex_val 1 (ex_id 4)" ?vt True fire vt'] by auto
qed

text \<open>The ledger's first validation is below the bound.\<close>

definition old_ledger :: "u32 \<Rightarrow> ValidationTracker \<Rightarrow> LedgerID \<Rightarrow> bool" where
  "old_ledger b vt i \<longleftrightarrow> GetValidations vt i \<noteq> [] \<and> vLedgerSeq (hd (GetValidations vt i)) < b"




end
