(* ===== verification/LedgerHeaders.thy ===== *)
theory LedgerHeaders
  imports GoBytes "HOL-Library.Monad_Syntax"
begin

text \<open>
  The ledger header and its bytes (\<open>internal/ledger/header/header.go\<close>).  An array \<open>[32]byte\<close> is a
  list of 32 bytes.  A reader is the bytes that are left; a failed read is \<open>None\<close>.
\<close>

record Header =
  LedgerIndex :: u32
  ParentCloseTime :: Time
  Hash :: "u8 list"
  TxHash :: "u8 list"
  AccountHash :: "u8 list"
  ParentHash :: "u8 list"
  HeaderDrops :: u64
  Validated :: bool
  Accepted :: bool
  CloseFlags :: u8
  CloseTimeResolution :: u32
  CloseTime :: Time

definition LCFNoConsensusTime :: u8 where "LCFNoConsensusTime = 1"

definition SizeBase :: nat where "SizeBase = 4 + 8 + 32 + 32 + 32 + 4 + 4 + 1 + 1"

definition SizeWithHash :: nat where "SizeWithHash = SizeBase + 32"

definition timeToXRPLEpoch :: "Time \<Rightarrow> u32" where
  "timeToXRPLEpoch t =
     (if IsZero t then 0
      else let secs = Unix t - xrplEpochOffset
           in if secs < 0 then 0 else word_of_int secs)"

definition xrplEpochToTime :: "u32 \<Rightarrow> Time" where
  "xrplEpochToTime epoch = (if epoch = 0 then zeroTime else (uint epoch + xrplEpochOffset) * Second)"

text \<open>Writing to a buffer does not fail.\<close>

definition AddRaw :: "Header \<Rightarrow> bool \<Rightarrow> u8 list" where
  "AddRaw header includeHash =
     putUint32 (LedgerIndex header) @ putUint64 (HeaderDrops header) @
     ParentHash header @ TxHash header @ AccountHash header @
     putUint32 (timeToXRPLEpoch (ParentCloseTime header)) @ putUint32 (timeToXRPLEpoch (CloseTime header)) @
     [ucast (CloseTimeResolution header), CloseFlags header] @
     (if includeHash then Hash header else [])"

definition GetCloseAgree :: "Header \<Rightarrow> bool" where
  "GetCloseAgree h = (CloseFlags h AND LCFNoConsensusTime = 0)"

text \<open>\<open>binary.Read\<close> of \<open>n\<close> bytes fails when fewer are left; \<open>reader.Read\<close> into an array fails only at
  the end, and leaves the rest of the array zero.\<close>

definition readFull :: "nat \<Rightarrow> u8 list \<Rightarrow> (u8 list \<times> u8 list) option" where
  "readFull n r = (if length r < n then None else Some (take n r, drop n r))"

definition readHash :: "u8 list \<Rightarrow> (u8 list \<times> u8 list) option" where
  "readHash r = (if r = [] then None else Some (take 32 r @ replicate (32 - length r) 0, drop 32 r))"

definition zeroHeader :: Header where
  "zeroHeader = \<lparr>LedgerIndex = 0, ParentCloseTime = zeroTime, Hash = replicate 32 0, TxHash = replicate 32 0,
     AccountHash = replicate 32 0, ParentHash = replicate 32 0, HeaderDrops = 0, Validated = False, Accepted = False,
     CloseFlags = 0, CloseTimeResolution = 0, CloseTime = zeroTime\<rparr>"

definition DeserializeHeader :: "u8 list \<Rightarrow> bool \<Rightarrow> Header option" where
  "DeserializeHeader data hasHash =
     (let minSize = (if hasHash then SizeWithHash else SizeBase)
      in if length data < minSize then None
         else do {
           (idx, r) \<leftarrow> readFull 4 data;
           (drops, r) \<leftarrow> readFull 8 r;
           (parent, r) \<leftarrow> readHash r;
           (tx, r) \<leftarrow> readHash r;
           (acct, r) \<leftarrow> readHash r;
           (pct, r) \<leftarrow> readFull 4 r;
           (ct, r) \<leftarrow> readFull 4 r;
           (res, r) \<leftarrow> readFull 1 r;
           (flags, r) \<leftarrow> readFull 1 r;
           let header = zeroHeader\<lparr>LedgerIndex := getUint32 idx, HeaderDrops := getUint64 drops, ParentHash := parent, TxHash := tx,
             AccountHash := acct, ParentCloseTime := xrplEpochToTime (getUint32 pct), CloseTime := xrplEpochToTime (getUint32 ct),
             CloseTimeResolution := ucast (hd res), CloseFlags := hd flags\<rparr>;
           if hasHash
           then do { (h, r) \<leftarrow> readHash r; Some (header\<lparr>Hash := h\<rparr>) }
           else Some header
         })"

definition DeserializePrefixedHeader :: "u8 list \<Rightarrow> bool \<Rightarrow> Header option" where
  "DeserializePrefixedHeader data hasHash = (if length data < 4 then None else DeserializeHeader (drop 4 data) hasHash)"

section \<open>Round trips\<close>

text \<open>The fields that the bytes can hold: arrays of their size, times of the epoch or the zero time,
  a resolution of one byte.\<close>

definition wire_time :: "Time \<Rightarrow> bool" where
  "wire_time t \<longleftrightarrow> IsZero t \<or> epoch_time t \<and> Unix t \<noteq> xrplEpochOffset"

definition header_ok :: "Header \<Rightarrow> bool" where
  "header_ok h \<longleftrightarrow> length (Hash h) = 32 \<and> length (TxHash h) = 32 \<and> length (AccountHash h) = 32 \<and> length (ParentHash h) = 32 \<and>
     CloseTimeResolution h < 256 \<and> wire_time (ParentCloseTime h) \<and> wire_time (CloseTime h)"

lemma wire_time_roundtrip:
  assumes "wire_time t"
  shows "xrplEpochToTime (timeToXRPLEpoch t) = t"
proof (cases "IsZero t")
  case True
  then show ?thesis
    by (simp add: timeToXRPLEpoch_def xrplEpochToTime_def IsZero_def zeroTime_def)
next
  case False
  then have t: "epoch_time t" "Unix t \<noteq> xrplEpochOffset"
    using assms by (simp_all add: wire_time_def)
  then have u: "uint (timeToXRPLEpoch t) = Unix t - xrplEpochOffset"
    using False uint_epoch [OF t(1)] by (simp add: timeToXRPLEpoch_def epoch_time_def)
  then have "timeToXRPLEpoch t \<noteq> 0"
    using t(2) by auto
  then show ?thesis
    using u epoch_time_Unix [OF t(1)] by (simp add: xrplEpochToTime_def)
qed

lemma readFull_append [simp]: "length a = n \<Longrightarrow> readFull n (a @ r) = Some (a, r)"
  by (simp add: readFull_def)

lemma readHash_append [simp]: "length a = 32 \<Longrightarrow> readHash (a @ r) = Some (a, r)"
  by (cases a) (simp_all add: readHash_def)

lemma readFull_one [simp]: "readFull 1 (b # r) = Some ([b], r)"
  by (simp add: readFull_def)

lemma readFull_Suc0 [simp]: "readFull (Suc 0) (b # r) = Some ([b], r)"
  by (simp add: readFull_def)


definition ex_header :: Header where
  "ex_header = \<lparr>LedgerIndex = 70000000, ParentCloseTime = (946684800 + 9) * Second, Hash = replicate 32 1, TxHash = replicate 32 2,
     AccountHash = replicate 32 3, ParentHash = replicate 32 4, HeaderDrops = 99999999999, Validated = True, Accepted = True,
     CloseFlags = 1, CloseTimeResolution = 30, CloseTime = zeroTime\<rparr>"


end
