(* ===== verification/StValidation.thy ===== *)
theory StValidation
  imports ConsensusTypes
begin

text \<open>
  The wire form of a validation (\<open>internal/consensus/adaptor/stvalidation.go\<close>): parsing the fields
  of a serialized object, with the lengths of all field types, and serializing a validation in the
  canonical order of the fields.

  The position \<open>pos\<close> that the Go functions advance through a pointer is part of their result.  An
  error is a value of \<open>perr\<close>.  The two functions that skip nested structures call each other; they
  take fuel, and \<open>skip_enough\<close> shows that the fuel given by \<open>skipFieldData\<close> is never used up.
\<close>

section \<open>Codes\<close>

definition typeUINT16 :: nat where "typeUINT16 = 1"
definition typeUINT32 :: nat where "typeUINT32 = 2"
definition typeUINT64 :: nat where "typeUINT64 = 3"
definition typeHash128 :: nat where "typeHash128 = 4"
definition typeHash256 :: nat where "typeHash256 = 5"
definition typeAmount :: nat where "typeAmount = 6"
definition typeBlob :: nat where "typeBlob = 7"
definition typeAccountID :: nat where "typeAccountID = 8"
definition typeSTObject :: nat where "typeSTObject = 14"
definition typeSTArray :: nat where "typeSTArray = 15"
definition typeUINT8 :: nat where "typeUINT8 = 16"
definition typeHash160 :: nat where "typeHash160 = 17"
definition typePathSet :: nat where "typePathSet = 18"
definition typeVector256 :: nat where "typeVector256 = 19"
definition typeUINT384 :: nat where "typeUINT384 = 22"
definition typeUINT512 :: nat where "typeUINT512 = 23"

definition fieldFlags :: nat where "fieldFlags = 2"
definition fieldLedgerSequence :: nat where "fieldLedgerSequence = 6"
definition fieldCloseTime :: nat where "fieldCloseTime = 7"
definition fieldSigningTime :: nat where "fieldSigningTime = 9"
definition fieldLoadFee :: nat where "fieldLoadFee = 24"
definition fieldReserveBase :: nat where "fieldReserveBase = 31"
definition fieldReserveInc :: nat where "fieldReserveInc = 32"
definition fieldBaseFee :: nat where "fieldBaseFee = 5"
definition fieldCookie :: nat where "fieldCookie = 10"
definition fieldServerVersion :: nat where "fieldServerVersion = 11"
definition fieldLedgerHash :: nat where "fieldLedgerHash = 1"
definition fieldConsensusHash :: nat where "fieldConsensusHash = 23"
definition fieldValidatedHash :: nat where "fieldValidatedHash = 25"
definition fieldSigningPubKey :: nat where "fieldSigningPubKey = 3"
definition fieldSignature :: nat where "fieldSignature = 6"
definition fieldAmendments :: nat where "fieldAmendments = 3"
definition fieldBaseFeeDrops :: nat where "fieldBaseFeeDrops = 22"
definition fieldReserveBaseDrops :: nat where "fieldReserveBaseDrops = 23"
definition fieldReserveIncrementDrops :: nat where "fieldReserveIncrementDrops = 24"

lemmas st_codes =
  typeUINT16_def typeUINT32_def typeUINT64_def typeHash128_def typeHash256_def typeAmount_def
  typeBlob_def typeAccountID_def typeSTObject_def typeSTArray_def typeUINT8_def typeHash160_def
  typePathSet_def typeVector256_def typeUINT384_def typeUINT512_def fieldFlags_def fieldLedgerSequence_def
  fieldCloseTime_def fieldSigningTime_def fieldLoadFee_def fieldReserveBase_def fieldReserveInc_def fieldBaseFee_def
  fieldCookie_def fieldServerVersion_def fieldLedgerHash_def fieldConsensusHash_def fieldValidatedHash_def fieldSigningPubKey_def
  fieldSignature_def fieldAmendments_def fieldBaseFeeDrops_def fieldReserveBaseDrops_def fieldReserveIncrementDrops_def

definition vfFullValidation :: u32 where "vfFullValidation = 1"
definition vfFullyCanonicalSig :: u32 where "vfFullyCanonicalSig = 0x80000000"

datatype perr = DataTooShort nat | ErrShortData | ErrInvalidVL | ErrMissingFields
  | UnknownType nat | MissingMarker u8 | FieldErr nat nat perr | OutOfFuel

section \<open>Reading\<close>

definition readFieldHeader :: "u8 list \<Rightarrow> nat \<Rightarrow> perr + nat \<times> nat \<times> nat" where
  "readFieldHeader data pos =
     (if pos \<ge> length data then Inl ErrShortData
      else let b = data ! pos; pos = pos + 1;
               typeCode = unat (drop_bit 4 b); fieldCode = unat (b AND 0x0F)
           in case (if typeCode = 0
                    then if pos \<ge> length data then Inl ErrShortData else Inr (unat (data ! pos), pos + 1)
                    else Inr (typeCode, pos)) of
                Inl e \<Rightarrow> Inl e
              | Inr (typeCode, pos) \<Rightarrow>
                  if fieldCode = 0
                  then if pos \<ge> length data then Inl ErrShortData else Inr (typeCode, unat (data ! pos), pos + 1)
                  else Inr (typeCode, fieldCode, pos))"

text \<open>The functions that skip return the length of the data and the new position.\<close>

definition advanceFixed :: "u8 list \<Rightarrow> nat \<Rightarrow> nat \<Rightarrow> perr + nat \<times> nat" where
  "advanceFixed data pos n = (if pos + n > length data then Inl ErrShortData else Inr (n, pos + n))"

definition skipAmount :: "u8 list \<Rightarrow> nat \<Rightarrow> perr + nat \<times> nat" where
  "skipAmount data pos =
     (if pos + 8 > length data then Inl ErrShortData
      else let isNotXRP = (data ! pos AND 0x80 \<noteq> 0)
           in if \<not> isNotXRP then Inr (8, pos + 8)
              else let isZero = (data ! pos = 0x80 \<and> list_all (\<lambda>i. data ! (pos + i) = 0) [1..<8])
                   in if isZero then Inr (8, pos + 8)
                      else if pos + 48 > length data then Inl ErrShortData else Inr (48, pos + 48))"

definition readVLLength :: "u8 list \<Rightarrow> nat \<Rightarrow> perr + nat \<times> nat" where
  "readVLLength data pos =
     (if pos \<ge> length data then Inl ErrShortData
      else let b1 = unat (data ! pos); pos = pos + 1
           in if b1 \<le> 192 then Inr (b1, pos)
              else if b1 \<le> 240
              then if pos \<ge> length data then Inl ErrShortData
                   else Inr (193 + (b1 - 193) * 256 + unat (data ! pos), pos + 1)
              else if b1 \<le> 254
              then if pos + 1 \<ge> length data then Inl ErrShortData
                   else Inr (12481 + (b1 - 241) * 65536 + unat (data ! pos) * 256 + unat (data ! (pos + 1)), pos + 2)
              else Inl ErrInvalidVL)"

definition skipVL :: "u8 list \<Rightarrow> nat \<Rightarrow> perr + nat \<times> nat" where
  "skipVL data pos =
     (case readVLLength data pos of
        Inl e \<Rightarrow> Inl e
      | Inr (len, pos) \<Rightarrow> if pos + len > length data then Inl ErrShortData else Inr (len, pos + len))"

fun skipField :: "nat \<Rightarrow> nat \<Rightarrow> u8 list \<Rightarrow> nat \<Rightarrow> perr + nat \<times> nat"
  and skipUntilMarker :: "nat \<Rightarrow> u8 list \<Rightarrow> nat \<Rightarrow> nat \<Rightarrow> u8 \<Rightarrow> perr + nat \<times> nat" where
  "skipField fuel typeCode data pos =
     (if typeCode = typeUINT8 then advanceFixed data pos 1
      else if typeCode = typeUINT16 then advanceFixed data pos 2
      else if typeCode = typeUINT32 then advanceFixed data pos 4
      else if typeCode = typeUINT64 then advanceFixed data pos 8
      else if typeCode = typeHash128 then advanceFixed data pos 16
      else if typeCode = typeHash160 then advanceFixed data pos 20
      else if typeCode = typeHash256 then advanceFixed data pos 32
      else if typeCode = typeUINT384 then advanceFixed data pos 48
      else if typeCode = typeUINT512 then advanceFixed data pos 64
      else if typeCode = typeAmount then skipAmount data pos
      else if typeCode = typeBlob \<or> typeCode = typeAccountID \<or> typeCode = typeVector256 then skipVL data pos
      else if typeCode = typeSTObject then skipUntilMarker fuel data pos pos 0xE1
      else if typeCode = typeSTArray then skipUntilMarker fuel data pos pos 0xF1
      else if typeCode = typePathSet then skipUntilMarker fuel data pos pos 0x00
      else Inl (UnknownType typeCode))"
| "skipUntilMarker 0 data start pos marker = Inl OutOfFuel"
| "skipUntilMarker (Suc fuel) data start pos marker =
     (if pos < length data
      then if data ! pos = marker then Inr (pos + 1 - start, pos + 1)
           else case readFieldHeader data pos of
                  Inl e \<Rightarrow> Inl e
                | Inr (typeCode, _, pos) \<Rightarrow>
                    (case skipField fuel typeCode data pos of
                       Inl e \<Rightarrow> Inl e
                     | Inr (_, pos) \<Rightarrow> skipUntilMarker fuel data start pos marker)
      else Inl (MissingMarker marker))"

definition skipFieldData :: "nat \<Rightarrow> u8 list \<Rightarrow> nat \<Rightarrow> perr + nat \<times> nat" where
  "skipFieldData typeCode data pos = skipField (Suc (length data)) typeCode data pos"

definition parseXRPAmount :: "u8 list \<Rightarrow> u64 option" where
  "parseXRPAmount data =
     (if length data \<noteq> 8 then None
      else let raw = getUint64 data
           in if raw AND push_bit 63 1 \<noteq> 0 then None else Some (raw AND NOT (push_bit 62 1)))"

definition xrplEpochToTime :: "u32 \<Rightarrow> Time" where
  "xrplEpochToTime epoch = (uint epoch + xrplEpochOffset) * Second"

definition timeToXrplEpoch :: "Time \<Rightarrow> u32" where
  "timeToXrplEpoch t = word_of_int (Unix t - xrplEpochOffset)"

text \<open>The 32-byte chunks of the payload.\<close>

definition chunks32 :: "u8 list \<Rightarrow> u8 list list" where
  "chunks32 d = map (\<lambda>i. take 32 (drop (i * 32) d)) [0..<length d div 32]"

text \<open>The switch over the known fields.\<close>

definition setField :: "nat \<Rightarrow> nat \<Rightarrow> u8 list \<Rightarrow> Validation \<Rightarrow> Validation" where
  "setField typeCode fieldCode d v =
     (if typeCode = typeUINT32 \<and> fieldCode = fieldFlags
      then let flags = getUint32 d in v\<lparr>vFlags := flags, vFull := (flags AND vfFullValidation \<noteq> 0)\<rparr>
      else if typeCode = typeUINT32 \<and> fieldCode = fieldLedgerSequence then v\<lparr>vLedgerSeq := getUint32 d\<rparr>
      else if typeCode = typeUINT32 \<and> fieldCode = fieldSigningTime then v\<lparr>vSignTime := xrplEpochToTime (getUint32 d)\<rparr>
      else if typeCode = typeUINT32 \<and> fieldCode = fieldCloseTime then v\<lparr>vCloseTime := xrplEpochToTime (getUint32 d)\<rparr>
      else if typeCode = typeUINT32 \<and> fieldCode = fieldLoadFee then v\<lparr>vLoadFee := getUint32 d\<rparr>
      else if typeCode = typeUINT32 \<and> fieldCode = fieldReserveBase then v\<lparr>vReserveBase := getUint32 d\<rparr>
      else if typeCode = typeUINT32 \<and> fieldCode = fieldReserveInc then v\<lparr>vReserveIncrement := getUint32 d\<rparr>
      else if typeCode = typeUINT64 \<and> fieldCode = fieldBaseFee then v\<lparr>vBaseFee := getUint64 d\<rparr>
      else if typeCode = typeUINT64 \<and> fieldCode = fieldCookie then v\<lparr>vCookie := getUint64 d\<rparr>
      else if typeCode = typeUINT64 \<and> fieldCode = fieldServerVersion then v\<lparr>vServerVersion := getUint64 d\<rparr>
      else if typeCode = typeAmount \<and> fieldCode = fieldBaseFeeDrops
      then (case parseXRPAmount d of Some amt \<Rightarrow> v\<lparr>vBaseFeeDrops := amt\<rparr> | None \<Rightarrow> v)
      else if typeCode = typeAmount \<and> fieldCode = fieldReserveBaseDrops
      then (case parseXRPAmount d of Some amt \<Rightarrow> v\<lparr>vReserveBaseDrops := amt\<rparr> | None \<Rightarrow> v)
      else if typeCode = typeAmount \<and> fieldCode = fieldReserveIncrementDrops
      then (case parseXRPAmount d of Some amt \<Rightarrow> v\<lparr>vReserveIncrementDrops := amt\<rparr> | None \<Rightarrow> v)
      else if typeCode = typeHash256 \<and> fieldCode = fieldLedgerHash
      then (if length d = 32 then v\<lparr>vLedgerID := d\<rparr> else v)
      else if typeCode = typeHash256 \<and> fieldCode = fieldConsensusHash
      then (if length d = 32 then v\<lparr>vConsensusHash := d\<rparr> else v)
      else if typeCode = typeHash256 \<and> fieldCode = fieldValidatedHash
      then (if length d = 32 then v\<lparr>vValidatedHash := d\<rparr> else v)
      else if typeCode = typeVector256 \<and> fieldCode = fieldAmendments
      then (if length d mod 32 = 0 then v\<lparr>vAmendments := chunks32 d\<rparr> else v)
      else if typeCode = typeBlob \<and> fieldCode = fieldSigningPubKey
      then (if length d = 33 then v\<lparr>vNodeID := d\<rparr> else v)
      else if typeCode = typeBlob \<and> fieldCode = fieldSignature then v\<lparr>vSignature := d\<rparr>
      else v)"

declare skipField.simps [simp del]

lemma readFieldHeader_advances:
  "readFieldHeader data pos = Inr (t, f, p) \<Longrightarrow> pos < p \<and> p \<le> length data"
  by (auto simp: readFieldHeader_def Let_def split: if_splits sum.splits)

lemma skip_VL_advances: "skipVL data pos = Inr (n, p) \<Longrightarrow> pos < p \<and> p \<le> length data \<and> n \<le> p - pos"
  by (auto simp: skipVL_def readVLLength_def Let_def split: if_splits sum.splits)

lemma skip_fixed_advances:
  "advanceFixed data pos k = Inr (n, p) \<Longrightarrow> p = pos + k \<and> n = k \<and> p \<le> length data"
  "skipAmount data pos = Inr (n, p) \<Longrightarrow> pos \<le> p \<and> p \<le> length data \<and> n \<le> p - pos"
  by (auto simp: advanceFixed_def skipAmount_def Let_def split: if_splits)

lemma skip_advances:
  "skipField fuel t data pos = Inr (n, p) \<Longrightarrow> pos \<le> p \<and> p \<le> length data \<and> n \<le> p - pos"
  "skipUntilMarker fuel data start pos m = Inr (n, p) \<Longrightarrow> start \<le> pos \<Longrightarrow> pos < p \<and> p \<le> length data \<and> n \<le> p - start"
proof (induction fuel t data pos and fuel data start pos m arbitrary: n p and n p rule: skipField_skipUntilMarker.induct)
  case (1 fuel t data pos)
  show ?case
    using "1.prems" "1.IH" unfolding skipField.simps [of fuel t data pos]
    by (auto split: if_splits dest: skip_VL_advances skip_fixed_advances)
next
  case (3 fuel data start pos m)
  show ?case
  proof (cases "data ! pos = m")
    case False
    obtain t f p1 where h: "readFieldHeader data pos = Inr (t, f, p1)" and lt: "pos < length data"
      using "3.prems"(1) False by (auto split: if_splits sum.splits)
    obtain k p2 where s: "skipField fuel t data p1 = Inr (k, p2)"
      using "3.prems"(1) False h lt by (auto split: sum.splits)
    have adv: "pos < p1" "p1 \<le> p2"
      using readFieldHeader_advances [OF h] "3.IH"(1) [OF lt False h refl refl s] by auto
    have "skipUntilMarker fuel data start p2 m = Inr (n, p)"
      using "3.prems"(1) False h lt s by simp
    then show ?thesis
      using "3.IH"(2) [OF lt False h refl refl s refl, of n p] adv "3.prems"(2) by auto
  qed (use "3.prems" in \<open>auto split: if_splits\<close>)
qed auto

function parseLoop :: "u8 list \<Rightarrow> nat \<Rightarrow> Validation \<Rightarrow> u8 list \<Rightarrow> perr + Validation \<times> u8 list" where
  "parseLoop data pos v signingBuf =
     (if pos < length data
      then case readFieldHeader data pos of
             Inl e \<Rightarrow> Inl e
           | Inr (typeCode, fieldCode, pos1) \<Rightarrow>
               if typeCode = 0 \<and> fieldCode = 0 then Inr (v, signingBuf)
               else case skipFieldData typeCode data pos1 of
                      Inl e \<Rightarrow> Inl (FieldErr typeCode fieldCode e)
                    | Inr (dataLen, pos2) \<Rightarrow>
                        let fieldData = take dataLen (drop (pos2 - dataLen) data);
                            excludeFromSigning = (typeCode = typeBlob \<and> fieldCode = fieldSignature);
                            signingBuf = (if excludeFromSigning then signingBuf
                              else signingBuf @ take (pos2 - pos) (drop pos data))
                        in parseLoop data pos2 (setField typeCode fieldCode fieldData v) signingBuf
      else Inr (v, signingBuf))"
  by pat_completeness auto
termination
  by (relation "measure (\<lambda>(data, pos, v, b). length data - pos)")
    (auto simp: skipFieldData_def dest!: readFieldHeader_advances skip_advances(1))

declare parseLoop.simps [simp del]

definition parseSTValidation :: "u8 list \<Rightarrow> perr + Validation" where
  "parseSTValidation data =
     (if length data < 50 then Inl (DataTooShort (length data))
      else case parseLoop data 0 zeroValidation [] of
             Inl e \<Rightarrow> Inl e
           | Inr (v, signingBuf) \<Rightarrow>
               let v = v\<lparr>vSigningData := signingBuf, vRaw := data\<rparr>
               in if vLedgerSeq v = 0 \<or> vLedgerID v = zeroID \<or> vNodeID v = zeroNodeID
                  then Inl ErrMissingFields else Inr v)"

section \<open>Writing\<close>

definition fieldHeader :: "nat \<Rightarrow> nat \<Rightarrow> u8 list" where
  "fieldHeader typeCode fieldCode =
     (if typeCode < 16 \<and> fieldCode < 16 then [word_of_nat (push_bit 4 typeCode OR fieldCode)]
      else if typeCode < 16 \<and> fieldCode \<ge> 16 then [word_of_nat (push_bit 4 typeCode), word_of_nat fieldCode]
      else if typeCode \<ge> 16 \<and> fieldCode < 16 then [word_of_nat fieldCode, word_of_nat typeCode]
      else [0, word_of_nat typeCode, word_of_nat fieldCode])"

definition appendFieldHeader :: "u8 list \<Rightarrow> nat \<Rightarrow> nat \<Rightarrow> u8 list" where
  "appendFieldHeader buf typeCode fieldCode = buf @ fieldHeader typeCode fieldCode"

definition xrpAmount :: "u64 \<Rightarrow> u8 list" where
  "xrpAmount drops = putUint64 (drops OR push_bit 62 1)"

definition appendXRPAmount :: "u8 list \<Rightarrow> u64 \<Rightarrow> u8 list" where
  "appendXRPAmount buf drops = buf @ xrpAmount drops"

definition vlPrefix :: "nat \<Rightarrow> u8 list" where
  "vlPrefix n =
     (if n \<le> 192 then [word_of_nat n]
      else if n \<le> 12480 then [word_of_nat (193 + drop_bit 8 (n - 193)), word_of_nat ((n - 193) AND 0xFF)]
      else [word_of_nat (241 + drop_bit 16 (n - 12481)), word_of_nat (drop_bit 8 (n - 12481) AND 0xFF),
            word_of_nat ((n - 12481) AND 0xFF)])"

definition appendVL :: "u8 list \<Rightarrow> u8 list \<Rightarrow> u8 list" where
  "appendVL buf data = buf @ vlPrefix (length data) @ data"

definition SerializeSTValidation :: "Validation \<Rightarrow> u8 list" where
  "SerializeSTValidation v =
     (let flags = (if vFlags v = 0 then if vFull v then vfFullyCanonicalSig OR vfFullValidation else vfFullyCanonicalSig
                   else vFlags v);
          buf = appendFieldHeader [] typeUINT32 fieldFlags @ putUint32 flags;
          buf = appendFieldHeader buf typeUINT32 fieldLedgerSequence @ putUint32 (vLedgerSeq v);
          buf = appendFieldHeader buf typeUINT32 fieldSigningTime @ putUint32 (timeToXrplEpoch (vSignTime v));
          buf = (if vLoadFee v \<noteq> 0 then appendFieldHeader buf typeUINT32 fieldLoadFee @ putUint32 (vLoadFee v) else buf);
          buf = (if vReserveBase v \<noteq> 0 then appendFieldHeader buf typeUINT32 fieldReserveBase @ putUint32 (vReserveBase v) else buf);
          buf = (if vReserveIncrement v \<noteq> 0
                 then appendFieldHeader buf typeUINT32 fieldReserveInc @ putUint32 (vReserveIncrement v) else buf);
          buf = (if vBaseFee v \<noteq> 0 then appendFieldHeader buf typeUINT64 fieldBaseFee @ putUint64 (vBaseFee v) else buf);
          buf = (if vCookie v \<noteq> 0 then appendFieldHeader buf typeUINT64 fieldCookie @ putUint64 (vCookie v) else buf);
          buf = (if vServerVersion v \<noteq> 0
                 then appendFieldHeader buf typeUINT64 fieldServerVersion @ putUint64 (vServerVersion v) else buf);
          buf = appendFieldHeader buf typeHash256 fieldLedgerHash @ vLedgerID v;
          buf = (if vConsensusHash v \<noteq> zeroID then appendFieldHeader buf typeHash256 fieldConsensusHash @ vConsensusHash v else buf);
          buf = (if vValidatedHash v \<noteq> zeroID then appendFieldHeader buf typeHash256 fieldValidatedHash @ vValidatedHash v else buf);
          buf = (if vBaseFeeDrops v \<noteq> 0
                 then appendXRPAmount (appendFieldHeader buf typeAmount fieldBaseFeeDrops) (vBaseFeeDrops v) else buf);
          buf = (if vReserveBaseDrops v \<noteq> 0
                 then appendXRPAmount (appendFieldHeader buf typeAmount fieldReserveBaseDrops) (vReserveBaseDrops v) else buf);
          buf = (if vReserveIncrementDrops v \<noteq> 0
                 then appendXRPAmount (appendFieldHeader buf typeAmount fieldReserveIncrementDrops) (vReserveIncrementDrops v) else buf);
          buf = appendVL (appendFieldHeader buf typeBlob fieldSigningPubKey) (vNodeID v);
          buf = (if length (vSignature v) > 0
                 then appendVL (appendFieldHeader buf typeBlob fieldSignature) (vSignature v) else buf);
          buf = (if length (vAmendments v) > 0
                 then appendVL (appendFieldHeader buf typeVector256 fieldAmendments) (concat (vAmendments v)) else buf)
      in buf)"

section \<open>The fuel is enough\<close>

lemma skip_no_fuel [simp]:
  "advanceFixed data pos n \<noteq> Inl OutOfFuel" "skipAmount data pos \<noteq> Inl OutOfFuel"
  "readVLLength data pos \<noteq> Inl OutOfFuel" "readFieldHeader data pos \<noteq> Inl OutOfFuel"
  by (auto simp: advanceFixed_def skipAmount_def readVLLength_def readFieldHeader_def Let_def split: if_splits sum.splits)

lemma skipVL_no_fuel [simp]: "skipVL data pos \<noteq> Inl OutOfFuel"
  using skip_no_fuel(3) [of data pos] by (auto simp: skipVL_def split: sum.splits)

lemma skip_enough:
  "length data - pos < fuel \<Longrightarrow> skipField fuel t data pos \<noteq> Inl OutOfFuel"
  "length data - pos < fuel \<Longrightarrow> skipUntilMarker fuel data start pos m \<noteq> Inl OutOfFuel"
proof (induction fuel t data pos and fuel data start pos m rule: skipField_skipUntilMarker.induct)
  case (1 fuel t data pos)
  show ?case
    using "1.IH" "1.prems" unfolding skipField.simps [of fuel t data pos] by simp
next
  case (3 fuel data start pos m)
  show ?case
  proof (cases "pos < length data \<and> data ! pos \<noteq> m")
    case True
    show ?thesis
    proof (cases "readFieldHeader data pos")
      case (Inl e)
      then show ?thesis
        using True skip_no_fuel(4) [of data pos] by simp
    next
      case (Inr x)
      then obtain t f p1 where h: "readFieldHeader data pos = Inr (t, f, p1)"
        by (cases x) auto
      have p1: "pos < p1" "p1 \<le> length data"
        using readFieldHeader_advances [OF h] by auto
      have f1: "skipField fuel t data p1 \<noteq> Inl OutOfFuel"
        using "3.IH"(1) [OF _ _ h refl refl] True "3.prems" p1 by simp
      show ?thesis
      proof (cases "skipField fuel t data p1")
        case (Inl e)
        then show ?thesis
          using True h f1 by simp
      next
        case (Inr y)
        then obtain k p2 where s: "skipField fuel t data p1 = Inr (k, p2)"
          by (cases y) auto
        have "p1 \<le> p2"
          using skip_advances(1) [OF s] by blast
        then have "skipUntilMarker fuel data start p2 m \<noteq> Inl OutOfFuel"
          using "3.IH"(2) [OF _ _ h refl refl s refl] True "3.prems" p1 by simp
        then show ?thesis
          using True h s by simp
      qed
    qed
  qed auto
qed simp

end
