(* ===== verification/StValidationProps.thy ===== *)
theory StValidationProps
  imports StValidation
begin

text \<open>
  Properties of the wire form of validations: what is written is read back, and whatever is read
  has the shape of a validation.
\<close>

section \<open>Field headers\<close>

lemma unat_u8: "n < 256 \<Longrightarrow> unat (word_of_nat n :: u8) = n"
  by (simp add: unat_of_nat)

lemma nibbles:
  assumes "t < 16" "f < 16"
  shows "unat (drop_bit 4 (word_of_nat (push_bit 4 t OR f) :: u8)) = t" "unat ((word_of_nat (push_bit 4 t OR f) :: u8) AND 0x0F) = f"
proof -
  have "push_bit 4 t AND f = push_bit 4 t AND take_bit 4 f"
    using assms(2) by (simp add: take_bit_nat_eq_self)
  also have "\<dots> = 0"
    by (rule bit_eqI) (auto simp: bit_simps)
  finally have "push_bit 4 t OR f = push_bit 4 t + f"
    by (simp add: disjunctive_add_eq_or)
  then have "push_bit 4 t OR f = 16 * t + f"
    by (simp add: push_bit_eq_mult)
  then have o: "unat (word_of_nat (push_bit 4 t OR f) :: u8) = 16 * t + f"
    using unat_u8 [of "16 * t + f"] assms by (simp only: \<open>push_bit 4 t OR f = 16 * t + f\<close>)
  have "unat (drop_bit 4 (word_of_nat (push_bit 4 t OR f) :: u8)) = (16 * t + f) div 16"
    by (subst unat_drop_bit_eq, subst o) (simp add: drop_bit_eq_div)
  then show "unat (drop_bit 4 (word_of_nat (push_bit 4 t OR f) :: u8)) = t"
    using assms by simp
  have "(word_of_nat (push_bit 4 t OR f) :: u8) AND 0x0F = take_bit 4 (word_of_nat (push_bit 4 t OR f))"
    by (simp add: take_bit_eq_mask mask_eq_exp_minus_1)
  then have "unat ((word_of_nat (push_bit 4 t OR f) :: u8) AND 0x0F) = (16 * t + f) mod 16"
    using o by (simp only: unsigned_take_bit_eq) (simp add: take_bit_eq_mod)
  then show "unat ((word_of_nat (push_bit 4 t OR f) :: u8) AND 0x0F) = f"
    using assms by simp
qed

lemma nibble_low: "f < 16 \<Longrightarrow> unat (drop_bit 4 (word_of_nat f :: u8)) = 0" "f < 16 \<Longrightarrow> unat ((word_of_nat f :: u8) AND 0x0F) = f"
  using nibbles [of 0 f] by simp_all

lemma nibble_high: "t < 16 \<Longrightarrow> unat (drop_bit 4 (word_of_nat (push_bit 4 t) :: u8)) = t" "t < 16 \<Longrightarrow> unat ((word_of_nat (push_bit 4 t) :: u8) AND 0x0F) = 0"
  using nibbles [of t 0] by simp_all

lemma readFieldHeader_written:
  assumes "0 < t" "t < 256" "0 < f" "f < 256"
  shows "readFieldHeader (pre @ fieldHeader t f @ rest) (length pre) = Inr (t, f, length pre + length (fieldHeader t f))"
proof -
  have u: "unat (word_of_nat t :: u8) = t" "unat (word_of_nat f :: u8) = f"
    using assms by (simp_all add: unat_of_nat)
  consider "t < 16" "f < 16" | "t < 16" "f \<ge> 16" | "t \<ge> 16" "f < 16" | "t \<ge> 16" "f \<ge> 16"
    by linarith
  then show ?thesis
    by cases (use assms u in \<open>simp_all add: readFieldHeader_def fieldHeader_def Let_def nth_append nibbles nibble_low nibble_high\<close>)
qed

section \<open>Payloads\<close>

text \<open>The bytes \<open>enc\<close> after the header of a field of type \<open>t\<close> are a prefix and the data \<open>d\<close>.\<close>

definition payload :: "nat \<Rightarrow> u8 list \<Rightarrow> u8 list \<Rightarrow> bool" where
  "payload t enc d \<longleftrightarrow> (\<exists>prefix. enc = prefix @ d) \<and>
     (\<forall>pre rest. skipFieldData t (pre @ enc @ rest) (length pre) = Inr (length d, length pre + length enc))"

lemma payload_fixed:
  "payload typeUINT32 (putUint32 w) (putUint32 w)" "payload typeUINT64 (putUint64 x) (putUint64 x)"
  "length h = 32 \<Longrightarrow> payload typeHash256 h h"
  by (simp_all add: payload_def skipFieldData_def skipField.simps advanceFixed_def st_codes)

lemma be_Cons: "be (Suc k) x = word_of_nat (x div 256 ^ k) # be k x"
proof (induction k arbitrary: x)
  case 0
  have "(word_of_nat (x mod 256) :: u8) = word_of_nat x"
    by (simp add: word_unat_eq_iff unat_of_nat)
  then show ?case
    by simp
next
  case (Suc k)
  have "be (Suc (Suc k)) x = be (Suc k) (x div 256) @ [word_of_nat (x mod 256)]"
    by simp
  also have "\<dots> = word_of_nat (x div 256 div 256 ^ k) # be k (x div 256) @ [word_of_nat (x mod 256)]"
    by (subst Suc.IH) simp
  finally show ?case
    by (simp add: div_mult2_eq)
qed

lemma byte_low:
  assumes "unat b < 128"
  shows "(b :: u8) AND 0x80 = 0"
proof -
  have "\<not> bit (unat b) 7"
    using assms by (simp add: bit_iff_odd)
  then have "\<not> bit b 7"
    by (auto simp: bit_unsigned_iff)
  moreover have "bit (0x80 :: u8) n \<Longrightarrow> n = 7" for n
    using bit_push_bit_iff [of 7 "1 :: u8" n] by (auto simp: bit_1_iff)
  ultimately show ?thesis
    by (intro bit_word_eqI) (auto simp: bit_and_iff)
qed

text \<open>A drops value that the 62 bits of an amount can hold.\<close>

lemma drops_bits:
  fixes x :: u64
  assumes "unat x < 2 ^ 62"
  shows "unat (x OR push_bit 62 1) = unat x + 2 ^ 62" "(x OR push_bit 62 1) AND push_bit 63 1 = 0"
    "(x OR push_bit 62 1) AND NOT (push_bit 62 1) = x"
proof -
  have b: "\<not> bit x n" if "62 \<le> n" for n
  proof -
    have "(2 :: nat) ^ 62 \<le> 2 ^ n"
      by (rule power_increasing [OF that]) simp
    then have "unat x div 2 ^ n = 0"
      using less_le_trans [OF assms] by (simp add: div_eq_0_iff)
    then have "\<not> bit (unat x) n"
      by (simp add: bit_iff_odd)
    then show ?thesis
      by (auto simp: bit_unsigned_iff dest: bit_imp_le_length)
  qed
  define y z :: u64 where "y = push_bit 62 1" and "z = push_bit 63 1"
  have y: "bit y n \<longleftrightarrow> n = 62" and z: "bit z n \<longleftrightarrow> n = 63" for n
    unfolding y_def z_def by (simp_all only: bit_push_bit_iff bit_1_iff) auto
  have "(x OR y) AND z = 0" "(x OR y) AND NOT y = x" and disj: "x AND y = 0"
    by (rule bit_word_eqI; use b y z in \<open>auto simp: bit_simps\<close>)+
  then show "(x OR push_bit 62 1) AND push_bit 63 1 = 0" "(x OR push_bit 62 1) AND NOT (push_bit 62 1) = x"
    by (simp_all only: y_def z_def)
  have "x OR push_bit 62 1 = x + push_bit 62 1"
    using disj by (simp only: y_def disjunctive_add_eq_or)
  then show "unat (x OR push_bit 62 1) = unat x + 2 ^ 62"
    using assms by (simp add: unat_word_ariths push_bit_eq_mult)
qed

lemma payload_amount:
  assumes "unat x < 2 ^ 62"
  shows "payload typeAmount (xrpAmount x) (xrpAmount x)" "parseXRPAmount (xrpAmount x) = Some x"
proof -
  let ?y = "x OR push_bit 62 1 :: u64"
  have y: "unat ?y < 2 ^ 63"
    using drops_bits(1) [OF assms] assms by simp
  have "xrpAmount x = word_of_nat (unat ?y div 256 ^ 7) # be 7 (unat ?y)"
    using be_Cons [of 7 "unat ?y"] by (simp add: xrpAmount_def putUint64_def)
  moreover have "unat (word_of_nat (unat ?y div 256 ^ 7) :: u8) < 128"
  proof -
    have "unat ?y div 256 ^ 7 < 128"
      using y by (simp add: div_less_iff_less_mult)
    then show ?thesis
      by (simp add: unat_of_nat)
  qed
  ultimately have "(pre @ xrpAmount x @ rest) ! length pre AND 0x80 = 0" for pre rest
    using byte_low by (simp add: nth_append)
  moreover have "length (xrpAmount x) = 8"
    by (simp add: xrpAmount_def)
  ultimately show "payload typeAmount (xrpAmount x) (xrpAmount x)"
    by (simp add: payload_def skipFieldData_def skipField.simps skipAmount_def st_codes Let_def)
  show "parseXRPAmount (xrpAmount x) = Some x"
    using drops_bits(2,3) [OF assms] by (simp add: parseXRPAmount_def xrpAmount_def Let_def)
qed

lemma readVLLength_written:
  assumes "n \<le> 929984"
  shows "readVLLength (pre @ vlPrefix n @ rest) (length pre) = Inr (n, length pre + length (vlPrefix n))"
proof -
  consider "n \<le> 192" | "192 < n" "n \<le> 12480" | "12480 < n"
    by linarith
  then show ?thesis
  proof cases
    case 2
    let ?m = "n - 193"
    have m: "?m div 256 < 48" "?m = ?m div 256 * 256 + ?m mod 256"
      using 2 by (simp_all add: div_less_iff_less_mult)
    have "unat (word_of_nat (193 + ?m div 256) :: u8) = 193 + ?m div 256" "unat (word_of_nat (?m mod 256) :: u8) = ?m mod 256"
      using m(1) by (intro unat_u8; simp)+
    moreover have "drop_bit 8 ?m = ?m div 256" "?m AND 255 = ?m mod 256"
      using take_bit_eq_mask [of 8 ?m] by (simp_all add: drop_bit_eq_div take_bit_eq_mod mask_eq_exp_minus_1)
    ultimately show ?thesis
      using 2 m by (simp add: readVLLength_def vlPrefix_def Let_def nth_append)
  next
    case 3
    let ?m = "n - 12481"
    have m: "?m div 65536 < 14" "?m = ?m div 65536 * 65536 + ?m div 256 mod 256 * 256 + ?m mod 256"
    proof -
      show "?m div 65536 < 14"
        using 3 assms by (simp add: div_less_iff_less_mult)
      have "?m = ?m div 256 * 256 + ?m mod 256" "?m div 256 = ?m div 256 div 256 * 256 + ?m div 256 mod 256"
        by simp_all
      moreover have "?m div 256 div 256 = ?m div 65536"
        by (simp add: div_mult2_eq [symmetric])
      ultimately show "?m = ?m div 65536 * 65536 + ?m div 256 mod 256 * 256 + ?m mod 256"
        by linarith
    qed
    have "unat (word_of_nat (241 + ?m div 65536) :: u8) = 241 + ?m div 65536" "unat (word_of_nat (?m mod 256) :: u8) = ?m mod 256"
      "unat (word_of_nat (?m div 256 mod 256) :: u8) = ?m div 256 mod 256"
      using m(1) by (intro unat_u8; simp)+
    moreover have "drop_bit 8 ?m = ?m div 256" "?m AND 255 = ?m mod 256" "?m div 256 AND 255 = ?m div 256 mod 256" "drop_bit 16 ?m = ?m div 65536"
      using take_bit_eq_mask [of 8 ?m] take_bit_eq_mask [of 8 "?m div 256"] by (simp_all add: drop_bit_eq_div take_bit_eq_mod mask_eq_exp_minus_1)
    ultimately have "readVLLength (pre @ vlPrefix n @ rest) (length pre) =
        Inr (12481 + ?m div 65536 * 65536 + ?m div 256 mod 256 * 256 + ?m mod 256, length pre + length (vlPrefix n))"
      using 3 m(1) by (simp add: readVLLength_def vlPrefix_def Let_def nth_append)
    moreover have "12481 + ?m div 65536 * 65536 + ?m div 256 mod 256 * 256 + ?m mod 256 = n"
      using 3 m(2) by linarith
    ultimately show ?thesis
      by (simp only:)
  qed (simp add: readVLLength_def vlPrefix_def Let_def nth_append unat_of_nat)
qed

lemma payload_VL:
  assumes "length d \<le> 929984" "t = typeBlob \<or> t = typeVector256"
  shows "payload t (vlPrefix (length d) @ d) d"
proof -
  have "skipVL (pre @ vlPrefix (length d) @ d @ rest) (length pre) = Inr (length d, length pre + (length (vlPrefix (length d)) + length d))" for pre rest
    using readVLLength_written [OF assms(1), of pre "d @ rest"] by (simp add: skipVL_def)
  then show ?thesis
    using assms(2) by (auto simp: payload_def skipFieldData_def skipField.simps st_codes)
qed

section \<open>A sequence of fields\<close>

text \<open>A field: its codes, its bytes after the header, and the data among them.\<close>

type_synonym fld = "nat \<times> nat \<times> u8 list \<times> u8 list"

fun fld_bytes :: "fld \<Rightarrow> u8 list" where
  "fld_bytes (t, f, enc, d) = fieldHeader t f @ enc"

fun fld_ok :: "fld \<Rightarrow> bool" where
  "fld_ok (t, f, enc, d) \<longleftrightarrow> 0 < t \<and> t < 256 \<and> 0 < f \<and> f < 256 \<and> payload t enc d"

fun fld_set :: "fld \<Rightarrow> Validation \<Rightarrow> Validation" where
  "fld_set (t, f, enc, d) v = setField t f d v"

fun fld_signed :: "fld \<Rightarrow> bool" where
  "fld_signed (t, f, enc, d) \<longleftrightarrow> \<not> (t = typeBlob \<and> f = fieldSignature)"

lemma fieldHeader_nonempty: "fieldHeader t f \<noteq> []"
  by (simp add: fieldHeader_def)

lemma parseLoop_field:
  assumes "fld_ok x"
  shows "parseLoop (pre @ fld_bytes x @ rest) (length pre) v buf =
    parseLoop (pre @ fld_bytes x @ rest) (length pre + length (fld_bytes x)) (fld_set x v) (buf @ (if fld_signed x then fld_bytes x else []))"
proof -
  obtain t f enc d where x: "x = (t, f, enc, d)"
    by (cases x)
  let ?h = "fieldHeader t f" and ?data = "pre @ fieldHeader t f @ enc @ rest"
  have ok: "0 < t" "t < 256" "0 < f" "f < 256" "payload t enc d"
    using assms x by simp_all
  obtain prefix where enc: "enc = prefix @ d"
    using ok(5) by (auto simp: payload_def)
  have "readFieldHeader ?data (length pre) = Inr (t, f, length pre + length ?h)"
    by (rule readFieldHeader_written [OF ok(1-4)])
  moreover have "skipFieldData t ?data (length pre + length ?h) = Inr (length d, length pre + length ?h + length enc)"
    using ok(5) unfolding payload_def by (metis append.assoc length_append)
  moreover have "take (length d) (drop (length pre + length ?h + length enc - length d) ?data) = d"
    using enc by simp
  moreover have "take (length pre + length ?h + length enc - length pre) (drop (length pre) ?data) = ?h @ enc"
    by simp
  moreover have "length pre < length ?data"
    using fieldHeader_nonempty [of t f] by simp
  ultimately show ?thesis
    using ok(1) x by (subst parseLoop.simps) (simp add: Let_def add.assoc)
qed

lemma parseLoop_fields:
  "list_all fld_ok fs \<Longrightarrow> parseLoop (pre @ concat (map fld_bytes fs)) (length pre) v buf =
    Inr (fold fld_set fs v, buf @ concat (map fld_bytes (filter fld_signed fs)))"
proof (induction fs arbitrary: pre v buf)
  case Nil
  then show ?case
    by (simp add: parseLoop.simps)
next
  case (Cons x fs)
  have "parseLoop (pre @ concat (map fld_bytes (x # fs))) (length pre) v buf =
      parseLoop ((pre @ fld_bytes x) @ concat (map fld_bytes fs)) (length (pre @ fld_bytes x)) (fld_set x v)
        (buf @ (if fld_signed x then fld_bytes x else []))"
    using parseLoop_field [of x pre "concat (map fld_bytes fs)"] Cons.prems by simp
  also have "\<dots> = Inr (fold fld_set fs (fld_set x v),
      (buf @ (if fld_signed x then fld_bytes x else [])) @ concat (map fld_bytes (filter fld_signed fs)))"
    using Cons.prems by (intro Cons.IH) simp
  finally show ?case
    by simp
qed

section \<open>The fields of a validation\<close>

definition opt :: "bool \<Rightarrow> fld \<Rightarrow> fld list" where
  "opt c x = (if c then [x] else [])"

definition out_flags :: "Validation \<Rightarrow> u32" where
  "out_flags v = (if vFlags v = 0 then if vFull v then vfFullyCanonicalSig OR vfFullValidation else vfFullyCanonicalSig
     else vFlags v)"

definition fields :: "Validation \<Rightarrow> fld list" where
  "fields v =
     (let fixed = (\<lambda>t f d. (t, f, d, d)); vl = (\<lambda>t f d. (t, f, vlPrefix (length d) @ d, d))
      in [fixed typeUINT32 fieldFlags (putUint32 (out_flags v)),
          fixed typeUINT32 fieldLedgerSequence (putUint32 (vLedgerSeq v)),
          fixed typeUINT32 fieldSigningTime (putUint32 (timeToXrplEpoch (vSignTime v)))] @
         opt (vLoadFee v \<noteq> 0) (fixed typeUINT32 fieldLoadFee (putUint32 (vLoadFee v))) @
         opt (vReserveBase v \<noteq> 0) (fixed typeUINT32 fieldReserveBase (putUint32 (vReserveBase v))) @
         opt (vReserveIncrement v \<noteq> 0) (fixed typeUINT32 fieldReserveInc (putUint32 (vReserveIncrement v))) @
         opt (vBaseFee v \<noteq> 0) (fixed typeUINT64 fieldBaseFee (putUint64 (vBaseFee v))) @
         opt (vCookie v \<noteq> 0) (fixed typeUINT64 fieldCookie (putUint64 (vCookie v))) @
         opt (vServerVersion v \<noteq> 0) (fixed typeUINT64 fieldServerVersion (putUint64 (vServerVersion v))) @
         [fixed typeHash256 fieldLedgerHash (vLedgerID v)] @
         opt (vConsensusHash v \<noteq> zeroID) (fixed typeHash256 fieldConsensusHash (vConsensusHash v)) @
         opt (vValidatedHash v \<noteq> zeroID) (fixed typeHash256 fieldValidatedHash (vValidatedHash v)) @
         opt (vBaseFeeDrops v \<noteq> 0) (fixed typeAmount fieldBaseFeeDrops (xrpAmount (vBaseFeeDrops v))) @
         opt (vReserveBaseDrops v \<noteq> 0) (fixed typeAmount fieldReserveBaseDrops (xrpAmount (vReserveBaseDrops v))) @
         opt (vReserveIncrementDrops v \<noteq> 0) (fixed typeAmount fieldReserveIncrementDrops (xrpAmount (vReserveIncrementDrops v))) @
         [vl typeBlob fieldSigningPubKey (vNodeID v)] @
         opt (vSignature v \<noteq> []) (vl typeBlob fieldSignature (vSignature v)) @
         opt (vAmendments v \<noteq> []) (vl typeVector256 fieldAmendments (concat (vAmendments v))))"

lemma append_opt: "(if c then buf @ x else buf) = buf @ (if c then x else [])"
  by simp

lemma concat_opt: "concat (map fld_bytes (opt c x)) = (if c then fld_bytes x else [])"
  by (simp add: opt_def)

lemma Serialize_fields: "SerializeSTValidation v = concat (map fld_bytes (fields v))"
  unfolding SerializeSTValidation_def appendFieldHeader_def appendXRPAmount_def appendVL_def
  by (simp only: Let_def append_opt append_assoc append_Nil append_Nil2 fields_def out_flags_def map_append concat_append concat_opt
    fld_bytes.simps list.map concat.simps length_greater_0_conv append_Cons)

text \<open>What the wire can hold.\<close>

definition wire_ok :: "Validation \<Rightarrow> bool" where
  "wire_ok v \<longleftrightarrow> length (vLedgerID v) = 32 \<and> length (vNodeID v) = 33 \<and> length (vConsensusHash v) = 32 \<and> length (vValidatedHash v) = 32 \<and>
     list_all (\<lambda>a. length a = 32) (vAmendments v) \<and> 32 * length (vAmendments v) \<le> 929984 \<and> length (vSignature v) \<le> 929984 \<and>
     epoch_time (vSignTime v) \<and> vLedgerSeq v \<noteq> 0 \<and> vLedgerID v \<noteq> zeroID \<and> vNodeID v \<noteq> zeroNodeID \<and>
     unat (vBaseFeeDrops v) < 2 ^ 62 \<and> unat (vReserveBaseDrops v) < 2 ^ 62 \<and> unat (vReserveIncrementDrops v) < 2 ^ 62"

lemma length_concat32: "list_all (\<lambda>a. length a = 32) as \<Longrightarrow> length (concat as) = 32 * length as"
  by (induction as) simp_all

lemma list_all_opt: "list_all P (opt c x) \<longleftrightarrow> (c \<longrightarrow> P x)"
  by (simp add: opt_def)

lemma fields_ok:
  assumes "wire_ok v"
  shows "list_all fld_ok (fields v)"
proof -
  have "length (concat (vAmendments v)) \<le> 929984"
    using assms length_concat32 [of "vAmendments v"] by (simp add: wire_ok_def del: length_concat)
  moreover have "length (vNodeID v) \<le> 929984" "length (vSignature v) \<le> 929984"
    using assms by (simp_all add: wire_ok_def)
  ultimately have "payload typeBlob (vlPrefix (length (vNodeID v)) @ vNodeID v) (vNodeID v)"
    "payload typeBlob (vlPrefix (length (vSignature v)) @ vSignature v) (vSignature v)"
    "payload typeVector256 (vlPrefix (length (concat (vAmendments v))) @ concat (vAmendments v)) (concat (vAmendments v))"
    by (auto intro!: payload_VL)
  moreover have "payload typeAmount (xrpAmount (vBaseFeeDrops v)) (xrpAmount (vBaseFeeDrops v))"
    "payload typeAmount (xrpAmount (vReserveBaseDrops v)) (xrpAmount (vReserveBaseDrops v))"
    "payload typeAmount (xrpAmount (vReserveIncrementDrops v)) (xrpAmount (vReserveIncrementDrops v))"
    using assms by (auto simp: wire_ok_def intro!: payload_amount(1))
  moreover have "payload typeHash256 (vLedgerID v) (vLedgerID v)" "payload typeHash256 (vConsensusHash v) (vConsensusHash v)"
    "payload typeHash256 (vValidatedHash v) (vValidatedHash v)"
    using assms by (auto simp: wire_ok_def intro!: payload_fixed(3))
  moreover have "payload typeUINT32 (putUint32 w) (putUint32 w)" "payload typeUINT64 (putUint64 x) (putUint64 x)" for w x
    by (rule payload_fixed)+
  moreover have "0 < typeUINT32 \<and> typeUINT32 < 256" "0 < typeUINT64 \<and> typeUINT64 < 256" "0 < typeHash256 \<and> typeHash256 < 256"
    "0 < typeAmount \<and> typeAmount < 256" "0 < typeBlob \<and> typeBlob < 256" "0 < typeVector256 \<and> typeVector256 < 256"
    by (simp_all add: st_codes)
  ultimately show ?thesis
    by (simp add: fields_def Let_def list_all_opt)
      (simp add: fieldFlags_def fieldLedgerSequence_def fieldSigningTime_def fieldLoadFee_def fieldReserveBase_def fieldReserveInc_def
        fieldBaseFee_def fieldCookie_def fieldServerVersion_def fieldLedgerHash_def fieldConsensusHash_def fieldValidatedHash_def
        fieldBaseFeeDrops_def fieldReserveBaseDrops_def fieldReserveIncrementDrops_def fieldSigningPubKey_def fieldSignature_def
        fieldAmendments_def)
qed

section \<open>Reading the fields back\<close>

lemma record_same:
  "vLoadFee w = 0 \<Longrightarrow> w\<lparr>vLoadFee := 0\<rparr> = w" "vReserveBase w = 0 \<Longrightarrow> w\<lparr>vReserveBase := 0\<rparr> = w"
  "vReserveIncrement w = 0 \<Longrightarrow> w\<lparr>vReserveIncrement := 0\<rparr> = w" "vBaseFee w = 0 \<Longrightarrow> w\<lparr>vBaseFee := 0\<rparr> = w"
  "vCookie w = 0 \<Longrightarrow> w\<lparr>vCookie := 0\<rparr> = w" "vServerVersion w = 0 \<Longrightarrow> w\<lparr>vServerVersion := 0\<rparr> = w"
  "vConsensusHash w = zeroID \<Longrightarrow> w\<lparr>vConsensusHash := zeroID\<rparr> = w" "vValidatedHash w = zeroID \<Longrightarrow> w\<lparr>vValidatedHash := zeroID\<rparr> = w"
  "vBaseFeeDrops w = 0 \<Longrightarrow> w\<lparr>vBaseFeeDrops := 0\<rparr> = w" "vReserveBaseDrops w = 0 \<Longrightarrow> w\<lparr>vReserveBaseDrops := 0\<rparr> = w"
  "vReserveIncrementDrops w = 0 \<Longrightarrow> w\<lparr>vReserveIncrementDrops := 0\<rparr> = w" "vSignature w = [] \<Longrightarrow> w\<lparr>vSignature := []\<rparr> = w"
  "vAmendments w = [] \<Longrightarrow> w\<lparr>vAmendments := []\<rparr> = w"
  by (cases w; simp)+

lemma set_numbers:
  "vLoadFee w = 0 \<Longrightarrow> fold fld_set (opt (x32 \<noteq> 0) (typeUINT32, fieldLoadFee, putUint32 x32, putUint32 x32)) w = w\<lparr>vLoadFee := x32\<rparr>"
  "vReserveBase w = 0 \<Longrightarrow> fold fld_set (opt (x32 \<noteq> 0) (typeUINT32, fieldReserveBase, putUint32 x32, putUint32 x32)) w = w\<lparr>vReserveBase := x32\<rparr>"
  "vReserveIncrement w = 0 \<Longrightarrow> fold fld_set (opt (x32 \<noteq> 0) (typeUINT32, fieldReserveInc, putUint32 x32, putUint32 x32)) w = w\<lparr>vReserveIncrement := x32\<rparr>"
  "vBaseFee w = 0 \<Longrightarrow> fold fld_set (opt (x64 \<noteq> 0) (typeUINT64, fieldBaseFee, putUint64 x64, putUint64 x64)) w = w\<lparr>vBaseFee := x64\<rparr>"
  "vCookie w = 0 \<Longrightarrow> fold fld_set (opt (x64 \<noteq> 0) (typeUINT64, fieldCookie, putUint64 x64, putUint64 x64)) w = w\<lparr>vCookie := x64\<rparr>"
  "vServerVersion w = 0 \<Longrightarrow> fold fld_set (opt (x64 \<noteq> 0) (typeUINT64, fieldServerVersion, putUint64 x64, putUint64 x64)) w = w\<lparr>vServerVersion := x64\<rparr>"
  by (auto simp: record_same opt_def setField_def st_codes)

lemma set_hashes:
  "vConsensusHash w = zeroID \<Longrightarrow> length h = 32 \<Longrightarrow> fold fld_set (opt (h \<noteq> zeroID) (typeHash256, fieldConsensusHash, h, h)) w = w\<lparr>vConsensusHash := h\<rparr>"
  "vValidatedHash w = zeroID \<Longrightarrow> length h = 32 \<Longrightarrow> fold fld_set (opt (h \<noteq> zeroID) (typeHash256, fieldValidatedHash, h, h)) w = w\<lparr>vValidatedHash := h\<rparr>"
  by (auto simp: record_same opt_def setField_def st_codes)

lemma set_amounts:
  "vBaseFeeDrops w = 0 \<Longrightarrow> unat x < 2 ^ 62 \<Longrightarrow>
    fold fld_set (opt (x \<noteq> 0) (typeAmount, fieldBaseFeeDrops, xrpAmount x, xrpAmount x)) w = w\<lparr>vBaseFeeDrops := x\<rparr>"
  "vReserveBaseDrops w = 0 \<Longrightarrow> unat x < 2 ^ 62 \<Longrightarrow>
    fold fld_set (opt (x \<noteq> 0) (typeAmount, fieldReserveBaseDrops, xrpAmount x, xrpAmount x)) w = w\<lparr>vReserveBaseDrops := x\<rparr>"
  "vReserveIncrementDrops w = 0 \<Longrightarrow> unat x < 2 ^ 62 \<Longrightarrow>
    fold fld_set (opt (x \<noteq> 0) (typeAmount, fieldReserveIncrementDrops, xrpAmount x, xrpAmount x)) w = w\<lparr>vReserveIncrementDrops := x\<rparr>"
  by (auto simp: record_same opt_def setField_def st_codes payload_amount(2))

lemma chunks32_concat: "list_all (\<lambda>a. length a = 32) as \<Longrightarrow> chunks32 (concat as) = as"
proof (induction as)
  case (Cons a as)
  have len: "length a = 32" "length (concat as) = 32 * length as"
    using Cons.prems length_concat32 by auto
  have "[0..<Suc (length as)] = 0 # map Suc [0..<length as]"
    by (simp add: upt_conv_Cons map_Suc_upt del: upt_Suc)
  then have "chunks32 (concat (a # as)) = a # map (\<lambda>i. take 32 (drop (i * 32) (concat as))) [0..<length as]"
    using len by (simp add: chunks32_def del: length_concat upt_Suc)
  also have "\<dots> = a # chunks32 (concat as)"
    using len by (simp add: chunks32_def del: length_concat)
  finally show ?case
    using Cons by simp
qed (simp add: chunks32_def)

lemma set_blobs:
  "vSignature w = [] \<Longrightarrow> fold fld_set (opt (b \<noteq> []) (typeBlob, fieldSignature, e, b)) w = w\<lparr>vSignature := b\<rparr>"
  "vAmendments w = [] \<Longrightarrow> list_all (\<lambda>a. length a = 32) as \<Longrightarrow>
    fold fld_set (opt (as \<noteq> []) (typeVector256, fieldAmendments, e, concat as)) w = w\<lparr>vAmendments := as\<rparr>"
  using length_concat32 [of as] by (auto simp: record_same opt_def setField_def st_codes chunks32_concat simp del: length_concat)

lemma set_required:
  "fld_set (typeUINT32, fieldFlags, e, putUint32 x) w = w\<lparr>vFlags := x, vFull := (x AND vfFullValidation \<noteq> 0)\<rparr>"
  "fld_set (typeUINT32, fieldLedgerSequence, e, putUint32 x) w = w\<lparr>vLedgerSeq := x\<rparr>"
  "fld_set (typeUINT32, fieldSigningTime, e, putUint32 x) w = w\<lparr>vSignTime := xrplEpochToTime x\<rparr>"
  "length h = 32 \<Longrightarrow> fld_set (typeHash256, fieldLedgerHash, e, h) w = w\<lparr>vLedgerID := h\<rparr>"
  "length n = 33 \<Longrightarrow> fld_set (typeBlob, fieldSigningPubKey, e, n) w = w\<lparr>vNodeID := n\<rparr>"
  by (simp_all add: setField_def st_codes Let_def)

lemma epoch_roundtrip: "epoch_time t \<Longrightarrow> xrplEpochToTime (timeToXrplEpoch t) = t"
  using uint_epoch [of t] epoch_time_Unix [of t] by (simp add: xrplEpochToTime_def timeToXrplEpoch_def)

text \<open>The validation that comes back: the fields that are on the wire, the flags that were sent, and
  nothing else.\<close>

definition received :: "Validation \<Rightarrow> Validation" where
  "received v = v\<lparr>vFlags := out_flags v, vFull := (out_flags v AND vfFullValidation \<noteq> 0), vSeenTime := zeroTime, vCloseTime := zeroTime,
     vSigningData := [], vSuppressionHash := zeroID, vRaw := []\<rparr>"

lemma fold_fields:
  assumes "wire_ok v"
  shows "fold fld_set (fields v) zeroValidation = received v"
proof -
  have w: "length (vLedgerID v) = 32" "length (vNodeID v) = 33" "length (vConsensusHash v) = 32" "length (vValidatedHash v) = 32"
    "list_all (\<lambda>a. length a = 32) (vAmendments v)" "epoch_time (vSignTime v)"
    "unat (vBaseFeeDrops v) < 2 ^ 62" "unat (vReserveBaseDrops v) < 2 ^ 62" "unat (vReserveIncrementDrops v) < 2 ^ 62"
    using assms unfolding wire_ok_def by blast+
  have "fold fld_set (fields v) zeroValidation =
      zeroValidation\<lparr>vFlags := out_flags v, vFull := (out_flags v AND vfFullValidation \<noteq> 0), vLedgerSeq := vLedgerSeq v,
        vSignTime := vSignTime v, vLoadFee := vLoadFee v, vReserveBase := vReserveBase v, vReserveIncrement := vReserveIncrement v,
        vBaseFee := vBaseFee v, vCookie := vCookie v, vServerVersion := vServerVersion v, vLedgerID := vLedgerID v,
        vConsensusHash := vConsensusHash v, vValidatedHash := vValidatedHash v, vBaseFeeDrops := vBaseFeeDrops v,
        vReserveBaseDrops := vReserveBaseDrops v, vReserveIncrementDrops := vReserveIncrementDrops v, vNodeID := vNodeID v,
        vSignature := vSignature v, vAmendments := vAmendments v\<rparr>"
    unfolding fields_def Let_def fold_append comp_def fold_simps
    by (simp add: set_required set_numbers set_hashes set_amounts(1) [OF _ w(7)] set_amounts(2) [OF _ w(8)] set_amounts(3) [OF _ w(9)]
      set_blobs w epoch_roundtrip zeroValidation_def del: fld_set.simps)
  also have "\<dots> = received v"
    by (cases v) (simp add: zeroValidation_def received_def out_flags_def)
  finally show ?thesis .
qed

lemma fields_unsigned:
  "filter fld_signed (fields v) = fields (v\<lparr>vSignature := []\<rparr>)"
proof -
  have opt: "filter fld_signed (opt c x) = (if fld_signed x then opt c x else [])" "opt False x = []" for c x
    by (simp_all add: opt_def)
  have signed: "fld_signed (typeUINT32, f, e, d)" "fld_signed (typeUINT64, f, e, d)" "fld_signed (typeHash256, f, e, d)"
    "fld_signed (typeAmount, f, e, d)" "fld_signed (typeVector256, f, e, d)" "fld_signed (typeBlob, fieldSigningPubKey, e, d)"
    "\<not> fld_signed (typeBlob, fieldSignature, e, d)" for f e d
    by (simp_all add: st_codes)
  show ?thesis
    unfolding fields_def Let_def filter_append by (simp add: opt signed out_flags_def del: fld_signed.simps)
qed

lemma length_fields:
  assumes "wire_ok v"
  shows "50 \<le> length (SerializeSTValidation v)"
proof -
  have w: "length (vLedgerID v) = 32" "length (vNodeID v) = 33"
    using assms by (simp_all add: wire_ok_def)
  have "length (fld_bytes (typeHash256, fieldLedgerHash, vLedgerID v, vLedgerID v)) +
      length (fld_bytes (typeBlob, fieldSigningPubKey, vlPrefix (length (vNodeID v)) @ vNodeID v, vNodeID v)) \<le> length (SerializeSTValidation v)"
    unfolding Serialize_fields fields_def Let_def map_append concat_append length_append by simp
  then show ?thesis
    using w by simp
qed

text \<open>C10: A validation that the wire can hold is read back from its serialization with every field
  but \<open>CloseTime\<close>, which is not written: the flags are those sent, \<open>SigningData\<close> is the serialization
  without the signature, and \<open>Raw\<close> is the serialization itself.\<close>

theorem validation_roundtrip:
  assumes "wire_ok v"
  shows "parseSTValidation (SerializeSTValidation v) =
    Inr ((received v)\<lparr>vSigningData := SerializeSTValidation (v\<lparr>vSignature := []\<rparr>), vRaw := SerializeSTValidation v\<rparr>)"
proof -
  have "parseLoop (SerializeSTValidation v) 0 zeroValidation [] = Inr (received v, SerializeSTValidation (v\<lparr>vSignature := []\<rparr>))"
    using parseLoop_fields [OF fields_ok [OF assms], of "[]" zeroValidation "[]"] fold_fields [OF assms]
    by (simp add: Serialize_fields fields_unsigned)
  moreover have "vLedgerSeq v \<noteq> 0" "vLedgerID v \<noteq> zeroID" "vNodeID v \<noteq> zeroNodeID"
    using assms by (simp_all add: wire_ok_def)
  ultimately show ?thesis
    using length_fields [OF assms] by (simp add: parseSTValidation_def received_def Let_def not_less)
qed

definition ex_validation :: Validation where
  "ex_validation = zeroValidation\<lparr>vLedgerID := replicate 32 9, vLedgerSeq := 256, vNodeID := 2 # replicate 32 5, vFull := True,
     vSignTime := (946684800 + 700000000) * Second, vSignature := replicate 70 6, vCookie := 77, vBaseFeeDrops := 10,
     vAmendments := [replicate 32 1, replicate 32 2]\<rparr>"

theorem validation_roundtrip_witness:
  "wire_ok ex_validation \<and> parseSTValidation (SerializeSTValidation ex_validation) =
    Inr (ex_validation\<lparr>vFlags := 0x80000001, vSigningData := SerializeSTValidation (ex_validation\<lparr>vSignature := []\<rparr>),
      vRaw := SerializeSTValidation ex_validation\<rparr>)"
proof -
  have "hd (replicate 32 9) \<noteq> hd zeroID" "hd (2 # replicate 32 5) \<noteq> hd zeroNodeID"
    by (simp_all add: zeroID_def zeroNodeID_def)
  then have ne: "replicate 32 9 \<noteq> zeroID" "2 # replicate 32 5 \<noteq> zeroNodeID"
    by metis+
  have "wire_ok ex_validation"
    using ne by (simp add: wire_ok_def ex_validation_def zeroValidation_def epoch_time_def Unix_def Second_def xrplEpochOffset_def zeroID_def)
  moreover have "received ex_validation = ex_validation\<lparr>vFlags := 0x80000001\<rparr>"
    by (simp add: received_def ex_validation_def zeroValidation_def out_flags_def vfFullyCanonicalSig_def vfFullValidation_def)
  ultimately show ?thesis
    using validation_roundtrip [of ex_validation] by simp
qed

section \<open>Types\<close>

text \<open>The arrays of a validation have their sizes.\<close>

definition typed :: "Validation \<Rightarrow> bool" where
  "typed v \<longleftrightarrow> length (vLedgerID v) = 32 \<and> length (vNodeID v) = 33 \<and> length (vConsensusHash v) = 32 \<and> length (vValidatedHash v) = 32 \<and>
     length (vSuppressionHash v) = 32 \<and> list_all (\<lambda>a. length a = 32) (vAmendments v)"

lemma typed_zero: "typed zeroValidation"
  by (simp add: typed_def zeroValidation_def zeroID_def zeroNodeID_def)

lemma typed_if: "(c \<Longrightarrow> typed a) \<Longrightarrow> (\<not> c \<Longrightarrow> typed b) \<Longrightarrow> typed (if c then a else b)"
  by simp

lemma typed_setField:
  assumes "typed v"
  shows "typed (setField t f d v)"
proof -
  have "list_all (\<lambda>a. length a = 32) (chunks32 d)"
    by (auto simp: chunks32_def list_all_iff min_def)
  with assms show ?thesis
    unfolding setField_def Let_def by (intro typed_if) (simp_all add: typed_def split: option.split)
qed

text \<open>The four ways on from a position.\<close>

lemma parseLoop_step:
  obtains (ends) "parseLoop data pos v buf = Inr (v, buf)"
  | (header) e where "readFieldHeader data pos = Inl e" "parseLoop data pos v buf = Inl e"
  | (skip) t f p e where "skipFieldData t data p = Inl e" "parseLoop data pos v buf = Inl (FieldErr t f e)"
  | (field) t f d p x where "parseLoop data pos v buf = parseLoop data p (setField t f d v) (buf @ x)" "pos < p" "p \<le> length data"
      "length x \<le> p - pos"
proof (cases "pos < length data")
  case False
  then show thesis
    using ends by (simp add: parseLoop.simps)
next
  case True
  show thesis
  proof (cases "readFieldHeader data pos")
    case (Inl e)
    then show thesis
      using header True by (simp add: parseLoop.simps)
  next
    case (Inr y)
    then obtain t f p1 where h: "readFieldHeader data pos = Inr (t, f, p1)"
      by (cases y) auto
    show thesis
    proof (cases "t = 0 \<and> f = 0")
      case True
      then show thesis
        using ends h \<open>pos < length data\<close> by (simp add: parseLoop.simps)
    next
      case False
      show thesis
      proof (cases "skipFieldData t data p1")
        case (Inl e)
        then show thesis
          using skip [of t p1 e f] h False True by (auto simp: parseLoop.simps)
      next
        case (Inr z)
        then obtain n p2 where s: "skipFieldData t data p1 = Inr (n, p2)"
          by (cases z) auto
        have p: "pos < p2" "p2 \<le> length data"
          using readFieldHeader_advances [OF h] skip_advances(1) [of "Suc (length data)" t data p1 n p2] s by (auto simp: skipFieldData_def)
        have "parseLoop data pos v buf = parseLoop data p2 (setField t f (take n (drop (p2 - n) data)) v)
            (buf @ (if t = typeBlob \<and> f = fieldSignature then [] else take (p2 - pos) (drop pos data)))"
          using h s True False by (subst parseLoop.simps) (auto simp: Let_def)
        then show thesis
          using field p by fastforce
      qed
    qed
  qed
qed

lemma typed_parseLoop:
  "parseLoop data pos v buf = Inr (v', buf') \<Longrightarrow> typed v \<Longrightarrow> pos \<le> length data \<Longrightarrow>
    typed v' \<and> length buf' \<le> length buf + (length data - pos)"
proof (induction "length data - pos" arbitrary: pos v buf rule: less_induct)
  case less
  show ?case
  proof (cases rule: parseLoop_step [of data pos v buf])
    case (field t f d p x)
    then have "typed v' \<and> length buf' \<le> length (buf @ x) + (length data - p)"
      using less.hyps [of p "setField t f d v" "buf @ x"] less.prems(1) typed_setField [OF less.prems(2)] by simp
    then show ?thesis
      using field by simp arith
  qed (use less.prems in auto)
qed

lemma parseLoop_fuel:
  "parseLoop data pos v buf = Inl e \<Longrightarrow> pos \<le> length data \<Longrightarrow> e \<noteq> OutOfFuel \<and> (\<forall>t f. e \<noteq> FieldErr t f OutOfFuel)"
proof (induction "length data - pos" arbitrary: pos v buf rule: less_induct)
  case less
  have fuel: "skipFieldData t data p \<noteq> Inl OutOfFuel" for t p
    using skip_enough(1) [of data p "Suc (length data)" t] by (simp add: skipFieldData_def)
  have hdr: "readFieldHeader data pos = Inl e' \<Longrightarrow> e' = ErrShortData" for e'
    by (auto simp: readFieldHeader_def Let_def split: if_splits sum.splits)
  show ?case
  proof (cases rule: parseLoop_step [of data pos v buf])
    case (field t f d p x)
    then show ?thesis
      using less.hyps [of p "setField t f d v" "buf @ x"] less.prems(1) by simp
  next
    case (skip t f p e')
    then show ?thesis
      using fuel [of t p] less.prems(1) by auto
  next
    case (header e')
    then show ?thesis
      using hdr less.prems(1) by auto
  qed (use less.prems in auto)
qed


end
