(* ===== verification/ManifestCache.thy ===== *)
theory ManifestCache
  imports ConsensusTypes
begin

text \<open>
  The cache of validator manifests (\<open>internal/manifest/cache.go\<close>, and the type of
  \<open>internal/manifest/manifest.go\<close>): which ephemeral signing key belongs to which master key.

  The check of the signatures, \<open>Manifest.Verify\<close>, is the argument \<open>verify\<close> of \<open>ApplyManifest\<close>; the
  manifests come from \<open>Deserialize\<close>, of which only one promise is used, that the signing key of a
  manifest that is not a revocation differs from its master key.  The Go maps are maps.
\<close>

section \<open>Manifests and the cache\<close>

definition RevokedSequence :: u32 where
  "RevokedSequence = 0xFFFFFFFF"

record Manifest =
  MasterKey :: NodeID
  SigningKey :: NodeID
  Sequence :: u32
  Domain :: string
  Serialized :: "u8 list"

definition Revoked :: "Manifest \<Rightarrow> bool" where
  "Revoked m \<longleftrightarrow> Sequence m = RevokedSequence"

datatype Disposition = Accepted | Stale | Invalid | BadMasterKey | BadEphemeralKey

definition DispositionString :: "Disposition \<Rightarrow> string" where
  "DispositionString d =
     (case d of
        Accepted \<Rightarrow> ''accepted'' | Stale \<Rightarrow> ''stale'' | Invalid \<Rightarrow> ''invalid'' | BadMasterKey \<Rightarrow> ''bad_master_key''
      | BadEphemeralKey \<Rightarrow> ''bad_ephemeral_key'')"

record Cache =
  byMaster :: "NodeID \<rightharpoonup> Manifest"
  signingToMaster :: "NodeID \<rightharpoonup> NodeID"

definition NewCache :: Cache where
  "NewCache = \<lparr>byMaster = Map.empty, signingToMaster = Map.empty\<rparr>"

text \<open>The argument is a pointer, \<open>None\<close> if nil.\<close>

definition ApplyManifest :: "(Manifest \<Rightarrow> bool) \<Rightarrow> Manifest option \<Rightarrow> Cache \<Rightarrow> Disposition \<times> Cache" where
  "ApplyManifest verify mp c =
     (case mp of
        None \<Rightarrow> (Invalid, c)
      | Some m \<Rightarrow>
          if (case byMaster c (MasterKey m) of Some existing \<Rightarrow> Sequence m \<le> Sequence existing | None \<Rightarrow> False) then (Stale, c)
          else if \<not> verify m then (Invalid, c)
          else if (case signingToMaster c (MasterKey m) of Some other \<Rightarrow> other \<noteq> MasterKey m | None \<Rightarrow> False) then (BadMasterKey, c)
          else if \<not> Revoked m \<and> (case signingToMaster c (SigningKey m) of Some other \<Rightarrow> other \<noteq> MasterKey m | None \<Rightarrow> False)
          then (BadEphemeralKey, c)
          else if \<not> Revoked m \<and> byMaster c (SigningKey m) \<noteq> None then (BadEphemeralKey, c)
          else let c1 = (case byMaster c (MasterKey m) of
                           Some prev \<Rightarrow> if \<not> Revoked prev then c\<lparr>signingToMaster := (signingToMaster c)(SigningKey prev := None)\<rparr> else c
                         | None \<Rightarrow> c);
                   c2 = c1\<lparr>byMaster := (byMaster c1)(MasterKey m \<mapsto> m)\<rparr>;
                   c3 = (if \<not> Revoked m then c2\<lparr>signingToMaster := (signingToMaster c2)(SigningKey m \<mapsto> MasterKey m)\<rparr> else c2)
               in (Accepted, c3))"

definition GetMasterKey :: "Cache \<Rightarrow> NodeID \<Rightarrow> NodeID" where
  "GetMasterKey c signingKey = (case signingToMaster c signingKey of Some m \<Rightarrow> m | None \<Rightarrow> signingKey)"

definition GetSigningKey :: "Cache \<Rightarrow> NodeID \<Rightarrow> NodeID option" where
  "GetSigningKey c masterKey =
     (case byMaster c masterKey of None \<Rightarrow> None | Some m \<Rightarrow> if Revoked m then None else Some (SigningKey m))"

definition GetManifest :: "Cache \<Rightarrow> NodeID \<Rightarrow> u8 list option" where
  "GetManifest c masterKey =
     (case byMaster c masterKey of None \<Rightarrow> None | Some m \<Rightarrow> if Revoked m then None else Some (Serialized m))"

definition GetSequence :: "Cache \<Rightarrow> NodeID \<Rightarrow> u32 option" where
  "GetSequence c masterKey =
     (case byMaster c masterKey of None \<Rightarrow> None | Some m \<Rightarrow> if Revoked m then None else Some (Sequence m))"

definition GetDomain :: "Cache \<Rightarrow> NodeID \<Rightarrow> string option" where
  "GetDomain c masterKey =
     (case byMaster c masterKey of None \<Rightarrow> None | Some m \<Rightarrow> if Revoked m \<or> Domain m = '''' then None else Some (Domain m))"

definition CacheRevoked :: "Cache \<Rightarrow> NodeID \<Rightarrow> bool" where
  "CacheRevoked c masterKey = (case byMaster c masterKey of None \<Rightarrow> False | Some m \<Rightarrow> Revoked m)"

section \<open>The two maps agree\<close>

text \<open>The signing keys are exactly those of the manifests that are not revoked, and no signing key is a
  master key.\<close>

definition keys_ok :: "Cache \<Rightarrow> bool" where
  "keys_ok c \<longleftrightarrow> (\<forall>m a. byMaster c m = Some a \<longrightarrow> MasterKey a = m) \<and>
     (\<forall>s m. signingToMaster c s = Some m \<longleftrightarrow> (\<exists>a. byMaster c m = Some a \<and> \<not> Revoked a \<and> SigningKey a = s)) \<and>
     (\<forall>s. signingToMaster c s \<noteq> None \<longrightarrow> byMaster c s = None)"

text \<open>What \<open>Deserialize\<close> promises.\<close>

definition wellformed :: "Manifest \<Rightarrow> bool" where
  "wellformed m \<longleftrightarrow> Revoked m \<or> SigningKey m \<noteq> MasterKey m"

definition newer :: "Manifest \<Rightarrow> Cache \<Rightarrow> bool" where
  "newer m c \<longleftrightarrow> (\<forall>a. byMaster c (MasterKey m) = Some a \<longrightarrow> Sequence a < Sequence m)"

text \<open>The cache with a manifest entered.\<close>

definition entered :: "Manifest \<Rightarrow> Cache \<Rightarrow> Cache" where
  "entered m c = c\<lparr>byMaster := (byMaster c)(MasterKey m \<mapsto> m),
     signingToMaster := (\<lambda>s. if \<not> Revoked m \<and> s = SigningKey m then Some (MasterKey m)
       else if signingToMaster c s = Some (MasterKey m) then None else signingToMaster c s)\<rparr>"

lemma keys_okD:
  assumes "keys_ok c"
  shows "byMaster c m = Some a \<Longrightarrow> MasterKey a = m"
    "signingToMaster c s = Some m \<longleftrightarrow> (\<exists>a. byMaster c m = Some a \<and> \<not> Revoked a \<and> SigningKey a = s)"
    "signingToMaster c s = Some m \<Longrightarrow> byMaster c s = None"
  using assms unfolding keys_ok_def by (blast, blast, metis option.distinct(1))

lemma drop_signing:
  assumes "keys_ok c" "byMaster c m = Some prev"
  shows "(if \<not> Revoked prev then (signingToMaster c)(SigningKey prev := None) else signingToMaster c) =
    (\<lambda>s. if signingToMaster c s = Some m then None else signingToMaster c s)"
  using keys_okD(2) [OF assms(1), of _ m] assms(2) by (auto simp: fun_eq_iff)

lemma ApplyManifest_accepted:
  assumes c: "keys_ok c" and acc: "ApplyManifest verify (Some m) c = (Accepted, c')"
  shows "c' = entered m c" "verify m" "newer m c" "signingToMaster c (MasterKey m) = None \<or> signingToMaster c (MasterKey m) = Some (MasterKey m)"
    "\<not> Revoked m \<Longrightarrow> byMaster c (SigningKey m) = None \<and> (\<forall>x. signingToMaster c (SigningKey m) = Some x \<longrightarrow> x = MasterKey m)"
proof -
  let ?k = "MasterKey m"
  have old: "\<not> (case byMaster c ?k of Some existing \<Rightarrow> Sequence m \<le> Sequence existing | None \<Rightarrow> False)"
    and ver: "verify m" and km: "\<not> (case signingToMaster c ?k of Some other \<Rightarrow> other \<noteq> ?k | None \<Rightarrow> False)"
    and ke: "\<not> (\<not> Revoked m \<and> (case signingToMaster c (SigningKey m) of Some other \<Rightarrow> other \<noteq> ?k | None \<Rightarrow> False))"
    and kb: "\<not> (\<not> Revoked m \<and> byMaster c (SigningKey m) \<noteq> None)"
    using acc unfolding ApplyManifest_def by (simp_all split: if_splits)
  show "verify m"
    by (rule ver)
  show "newer m c"
    using old by (auto simp: newer_def not_le)
  show "signingToMaster c ?k = None \<or> signingToMaster c ?k = Some ?k"
    using km by (simp split: option.splits)
  show "\<not> Revoked m \<Longrightarrow> byMaster c (SigningKey m) = None \<and> (\<forall>x. signingToMaster c (SigningKey m) = Some x \<longrightarrow> x = ?k)"
    using ke kb by (auto split: option.splits)
  have none: "signingToMaster c = (\<lambda>s. if signingToMaster c s = Some ?k then None else signingToMaster c s)" if "byMaster c ?k = None"
    using that keys_okD(2) [OF c, of _ ?k] by (simp add: fun_eq_iff)
  have "c' = (let c1 = (case byMaster c ?k of
        Some prev \<Rightarrow> if \<not> Revoked prev then c\<lparr>signingToMaster := (signingToMaster c)(SigningKey prev := None)\<rparr> else c | None \<Rightarrow> c);
      c2 = c1\<lparr>byMaster := (byMaster c1)(?k \<mapsto> m)\<rparr>
      in if \<not> Revoked m then c2\<lparr>signingToMaster := (signingToMaster c2)(SigningKey m \<mapsto> ?k)\<rparr> else c2)"
    using acc unfolding ApplyManifest_def by (simp only: option.case old ver km ke kb not_True_eq_False if_False Let_def prod.inject)
  also have "\<dots> = entered m c"
    using none drop_signing [OF c, of ?k]
    by (cases "byMaster c ?k") (auto simp: entered_def Let_def fun_eq_iff split: if_splits)
  finally show "c' = entered m c" .
qed

lemma keys_ok_entered:
  assumes c: "keys_ok c" and m: "wellformed m" "signingToMaster c (MasterKey m) = None \<or> signingToMaster c (MasterKey m) = Some (MasterKey m)"
    and e: "\<not> Revoked m \<Longrightarrow> byMaster c (SigningKey m) = None \<and> (\<forall>x. signingToMaster c (SigningKey m) = Some x \<longrightarrow> x = MasterKey m)"
  shows "keys_ok (entered m c)"
proof -
  let ?c = "entered m c" and ?k = "MasterKey m"
  have b: "byMaster ?c x = (if x = ?k then Some m else byMaster c x)" for x
    by (simp add: entered_def)
  have s: "signingToMaster ?c s = (if \<not> Revoked m \<and> s = SigningKey m then Some ?k
      else if signingToMaster c s = Some ?k then None else signingToMaster c s)" for s
    by (simp add: entered_def)
  have "signingToMaster ?c s = Some x \<longleftrightarrow> (\<exists>a. byMaster ?c x = Some a \<and> \<not> Revoked a \<and> SigningKey a = s)" for s x
  proof (cases "x = ?k")
    case True
    then show ?thesis
      by (auto simp: b s)
  next
    case False
    then have "signingToMaster ?c s = Some x \<longleftrightarrow> signingToMaster c s = Some x"
      using e by (auto simp: s)
    then show ?thesis
      using False keys_okD(2) [OF c, of s x] by (simp add: b)
  qed
  moreover have "byMaster ?c s = None" if "signingToMaster ?c s = Some x" for s x
    using that e m keys_okD(3) [OF c, of s] by (auto simp: b s wellformed_def split: if_splits)
  moreover have "MasterKey a = x" if "byMaster ?c x = Some a" for x a
    using that keys_okD(1) [OF c] by (auto simp: b split: if_splits)
  ultimately show ?thesis
    unfolding keys_ok_def by blast
qed

lemma ApplyManifest_cases:
  assumes "keys_ok c" "wellformed m"
  shows "snd (ApplyManifest verify (Some m) c) = c \<or> snd (ApplyManifest verify (Some m) c) = entered m c \<and> newer m c \<and> verify m \<and>
    keys_ok (entered m c)"
proof -
  obtain d c' where a: "ApplyManifest verify (Some m) c = (d, c')"
    by fastforce
  show ?thesis
  proof (cases "d = Accepted")
    case True
    then show ?thesis
      using ApplyManifest_accepted [OF assms(1), of verify m c'] keys_ok_entered [OF assms] a by simp
  next
    case False
    then have "c' = c"
      using a unfolding ApplyManifest_def by (simp add: Let_def split: if_splits)
    then show ?thesis
      using a by simp
  qed
qed

fun apply_all :: "(Manifest \<Rightarrow> bool) \<Rightarrow> Manifest list \<Rightarrow> Cache \<Rightarrow> Cache" where
  "apply_all verify [] c = c"
| "apply_all verify (m # ms) c = apply_all verify ms (snd (ApplyManifest verify (Some m) c))"

lemma apply_all_ok: "keys_ok c \<Longrightarrow> \<forall>m \<in> set ms. wellformed m \<Longrightarrow> keys_ok (apply_all verify ms c)"
proof (induction ms arbitrary: c)
  case (Cons m ms)
  then have "keys_ok (snd (ApplyManifest verify (Some m) c))"
    using ApplyManifest_cases [of c m verify] by auto
  then show ?case
    using Cons by simp
qed simp

lemma keys_ok_New: "keys_ok NewCache"
  by (simp add: keys_ok_def NewCache_def)

text \<open>The numbers of a master only grow.\<close>

lemma apply_all_mono:
  "keys_ok c \<Longrightarrow> \<forall>m \<in> set ms. wellformed m \<Longrightarrow> byMaster c k = Some a \<Longrightarrow>
    \<exists>b. byMaster (apply_all verify ms c) k = Some b \<and> (b = a \<or> Sequence a < Sequence b)"
proof (induction ms arbitrary: c a)
  case (Cons m ms)
  let ?c = "snd (ApplyManifest verify (Some m) c)"
  have "keys_ok ?c" "\<exists>b. byMaster ?c k = Some b \<and> (b = a \<or> Sequence a < Sequence b)"
    using ApplyManifest_cases [of c m verify] Cons.prems by (auto simp: entered_def newer_def)
  then obtain b d where "byMaster ?c k = Some b" "b = a \<or> Sequence a < Sequence b"
    "byMaster (apply_all verify ms ?c) k = Some d" "d = b \<or> Sequence b < Sequence d"
    using Cons.IH [of ?c] Cons.prems(2) by auto
  then show ?case
    by auto
qed simp

section \<open>Properties\<close>

text \<open>C12: Whatever manifests arrive, signing keys and master keys stay in agreement: the signing key of a
  master resolves to that master, a key that resolves to another key is the current signing key of
  that master, and resolving twice is resolving once.\<close>

theorem cache_keys_agree:
  fixes verify :: "Manifest \<Rightarrow> bool"
  assumes "\<forall>m \<in> set ms. wellformed m"
  defines "c \<equiv> apply_all verify ms NewCache"
  shows "(\<forall>k s. GetSigningKey c k = Some s \<longrightarrow> GetMasterKey c s = k) \<and>
    (\<forall>s. GetMasterKey c s \<noteq> s \<longrightarrow> GetSigningKey c (GetMasterKey c s) = Some s) \<and>
    (\<forall>s. GetMasterKey c (GetMasterKey c s) = GetMasterKey c s)"
proof -
  have c: "keys_ok c"
    using apply_all_ok [OF keys_ok_New assms(1)] by (simp add: c_def)
  have sign: "GetSigningKey c k = Some s \<longleftrightarrow> signingToMaster c s = Some k" for k s
    using keys_okD(2) [OF c, of s k] by (auto simp: GetSigningKey_def split: option.splits)
  have master: "signingToMaster c k = None" if s: "signingToMaster c s = Some k" for s k
  proof (rule ccontr)
    assume "signingToMaster c k \<noteq> None"
    then have "byMaster c k = None"
      using keys_okD(3) [OF c] by auto
    then show False
      using s keys_okD(2) [OF c, of s k] by simp
  qed
  have "GetMasterKey c s = k" if "GetSigningKey c k = Some s" for k s
    using that by (simp add: sign GetMasterKey_def)
  moreover have "GetSigningKey c (GetMasterKey c s) = Some s" if "GetMasterKey c s \<noteq> s" for s
    using that by (auto simp: sign GetMasterKey_def split: option.splits)
  moreover have "GetMasterKey c (GetMasterKey c s) = GetMasterKey c s" for s
    using master [of s] by (auto simp: GetMasterKey_def split: option.split)
  ultimately show ?thesis
    by blast
qed

section \<open>An example\<close>

definition ex_key :: "nat \<Rightarrow> NodeID" where
  "ex_key n = 0xED # replicate 31 0 @ [word_of_nat n]"

definition ex_manifest :: "nat \<Rightarrow> nat \<Rightarrow> u32 \<Rightarrow> Manifest" where
  "ex_manifest k s n = \<lparr>MasterKey = ex_key k, SigningKey = ex_key s, Sequence = n, Domain = [], Serialized = []\<rparr>"

text \<open>Master 1 has signing key 2, then 3; then another master claims 3; then master 1 is revoked.\<close>

definition ex_manifests :: "Manifest list" where
  "ex_manifests = [ex_manifest 1 2 1, ex_manifest 1 3 2, ex_manifest 4 3 1, ex_manifest 5 6 1]"

lemma ex_manifests_ok: "\<forall>m \<in> set (ex_manifests @ [ex_manifest 1 0 RevokedSequence, ex_manifest 1 7 9]). wellformed m"
  by code_simp

theorem cache_keys_agree_witness:
  "GetMasterKey (apply_all (\<lambda>_. True) ex_manifests NewCache) (ex_key 3) = ex_key 1 \<and>
   GetMasterKey (apply_all (\<lambda>_. True) ex_manifests NewCache) (ex_key 2) = ex_key 2 \<and>
   GetSigningKey (apply_all (\<lambda>_. True) ex_manifests NewCache) (ex_key 1) = Some (ex_key 3)"
proof -
  have "GetMasterKey (apply_all (\<lambda>_. True) ex_manifests NewCache) (ex_key 3) = ex_key 1" "ex_key 1 \<noteq> ex_key 3"
    "GetMasterKey (apply_all (\<lambda>_. True) ex_manifests NewCache) (ex_key 2) = ex_key 2"
    by code_simp+
  moreover have "\<forall>m \<in> set ex_manifests. wellformed m"
    using ex_manifests_ok by simp
  ultimately show ?thesis
    using cache_keys_agree [of ex_manifests "\<lambda>_. True"] by metis
qed

text \<open>C13: The sequence number of a master's manifest never decreases, and a revocation is final: after it
  the manifest of the master stays, the master has no signing key, and no other key resolves to it.\<close>

theorem revocation_final:
  fixes verify :: "Manifest \<Rightarrow> bool"
  assumes "\<forall>m \<in> set (ms @ ms'). wellformed m"
  defines "c \<equiv> apply_all verify ms NewCache"
  defines "c' \<equiv> apply_all verify ms' c"
  shows "(\<forall>a. byMaster c k = Some a \<longrightarrow> (\<exists>b. byMaster c' k = Some b \<and> Sequence a \<le> Sequence b)) \<and>
    (CacheRevoked c k \<longrightarrow> byMaster c' k = byMaster c k \<and> CacheRevoked c' k \<and> GetSigningKey c' k = None \<and>
       (\<forall>s. GetMasterKey c' s = k \<longrightarrow> s = k))"
proof -
  have c: "keys_ok c" "keys_ok c'"
    using apply_all_ok keys_ok_New assms(1) by (simp_all add: c_def c'_def)
  have mono: "\<exists>b. byMaster c' k = Some b \<and> (b = a \<or> Sequence a < Sequence b)" if "byMaster c k = Some a" for a
    using apply_all_mono [OF c(1) _ that, of ms' verify] assms(1) by (simp add: c'_def)
  have "byMaster c' k = byMaster c k \<and> CacheRevoked c' k \<and> GetSigningKey c' k = None \<and> (\<forall>s. GetMasterKey c' s = k \<longrightarrow> s = k)"
    if r: "CacheRevoked c k"
  proof -
    obtain a where a: "byMaster c k = Some a" "Revoked a"
      using r by (auto simp: CacheRevoked_def split: option.splits)
    have "\<not> Sequence a < Sequence b" for b
    proof -
      have "unat (Sequence b) < 4294967296"
        by simp
      then have "unat (Sequence b) \<le> 4294967295"
        by linarith
      then show ?thesis
        using a(2) by (simp add: Revoked_def RevokedSequence_def not_less word_le_nat_alt)
    qed
    then have k: "byMaster c' k = Some a"
      using mono [OF a(1)] by auto
    then have "signingToMaster c' s \<noteq> Some k" for s
      using keys_okD(2) [OF c(2), of s k] a(2) by simp
    then have "GetMasterKey c' s = k \<longrightarrow> s = k" for s
      by (simp add: GetMasterKey_def split: option.split)
    then show ?thesis
      using a k by (simp add: CacheRevoked_def GetSigningKey_def)
  qed
  then show ?thesis
    using mono by (auto intro: less_imp_le)
qed

theorem revocation_final_witness:
  "CacheRevoked (apply_all (\<lambda>_. True) (ex_manifests @ [ex_manifest 1 0 RevokedSequence]) NewCache) (ex_key 1) \<and>
   GetSigningKey (apply_all (\<lambda>_. True) [ex_manifest 1 7 9] (apply_all (\<lambda>_. True) (ex_manifests @ [ex_manifest 1 0 RevokedSequence]) NewCache))
     (ex_key 1) = None"
proof -
  have "CacheRevoked (apply_all (\<lambda>_. True) (ex_manifests @ [ex_manifest 1 0 RevokedSequence]) NewCache) (ex_key 1)"
    by code_simp
  then show ?thesis
    using revocation_final [of "ex_manifests @ [ex_manifest 1 0 RevokedSequence]" "[ex_manifest 1 7 9]" "\<lambda>_. True" "ex_key 1"] ex_manifests_ok
    by simp
qed

end
