(* ===== verification/Spec2Isabelle.thy ===== *)
theory Spec2Isabelle
  imports TxqAcceptProps CompleteLedgers ValidationProps LedgerHeaders StValidationProps ManifestCache
begin

text \<open>
  A verification of parts of goXRPLd, an XRP Ledger daemon written in Go.
\<close>

section \<open>Validations, trie, provider and store together\<close>

text \<open>Operations of a tracker that is fed by the provider over a store of headers.\<close>

fun op_store :: "lookup \<Rightarrow> vt_op \<Rightarrow> bool" where
  "op_store lk (OpTrusted ns) \<longleftrightarrow> length ns < 2 ^ 32"
| "op_store lk (OpProvider p) \<longleftrightarrow> p = None \<or> p = Some (answers lk)"
| "op_store lk (OpLearn p) \<longleftrightarrow> False"
| "op_store lk op \<longleftrightarrow> True"

lemma op_store_ok:
  assumes "store_ok sq lk" "0 < c" "reaches sq lk c r" "op_store lk op"
  shows "op_ok (ancestries sq lk c r) op \<and> op_fixed (answers lk) op"
  using answers_provide(1) [OF assms(1-3)] assms(4) by (cases op) (auto split: option.split)

text \<open>C2: The tracker, the trie and the ancestry provider together: over a store whose ledgers all reach a
  common ancestor within the limit of the provider, every sequence of operations runs without a
  panic, and while the store knows the latest ledger of every counted validator, the support that
  \<open>GetTrustedSupport\<close> reports for a known ledger is the number of trusted validators not on the
  negative UNL from whose latest validated ledger the parent hashes lead to it.\<close>

theorem GetTrustedSupport_of_store:
  assumes "store_ok sq lk" "0 < c" "reaches sq lk c r" "\<forall>op \<in> set ops. op_store lk op"
  shows "\<exists>evs vt. vt_run ops (NewValidationTracker q f) = Some (evs, vt) \<and>
    (\<forall>i. ancestry vt \<noteq> None \<longrightarrow> lk i \<noteq> None \<longrightarrow>
       (\<forall>n \<in> trusted vt - negUNL vt. \<forall>v. GetLatestValidation vt n = Some v \<longrightarrow> lk (vLedgerID v) \<noteq> None) \<longrightarrow>
       GetTrustedSupport vt i = card {n \<in> trusted vt - negUNL vt.
         \<exists>v k. GetLatestValidation vt n = Some v \<and> k < sq (vLedgerID v) \<and> anc lk k (vLedgerID v) = Some i})"
proof -
  let ?L = "ancestries sq lk c r" and ?p = "answers lk"
  have st: "ledger_store sq lk c"
    using assms(1,2) by unfold_locales
  note fam = ledger_store.family [OF st, of r]
  have ops: "\<forall>op \<in> set ops. op_ok ?L op \<and> op_fixed ?p op"
    using op_store_ok [OF assms(1-3)] assms(4) by blast
  obtain evs vt where vt: "vt_run ops (NewValidationTracker q f) = Some (evs, vt)"
    using vt_run_ok [OF fam New_ok(1), of ops q f ?p] ops by blast
  have p: "provides ?L ?p" "\<And>j. ?p j = None \<longleftrightarrow> lk j = None"
    using answers_provide [OF assms(1-3)] by blast+
  have "GetTrustedSupport vt i = card {n \<in> trusted vt - negUNL vt.
      \<exists>v k. GetLatestValidation vt n = Some v \<and> k < sq (vLedgerID v) \<and> anc lk k (vLedgerID v) = Some i}"
    if a: "ancestry vt \<noteq> None" "lk i \<noteq> None"
      "\<forall>n \<in> trusted vt - negUNL vt. \<forall>v. GetLatestValidation vt n = Some v \<longrightarrow> lk (vLedgerID v) \<noteq> None" for i
  proof -
    obtain l where l: "?p i = Some l" "l \<in> ?L" "ID l = i"
      using p(2) [of i] a(2) provides_memb [OF p(1)] by blast
    have known: "\<forall>n v. n \<in> trusted vt - negUNL vt \<longrightarrow> GetLatestValidation vt n = Some v \<longrightarrow> ?p (vLedgerID v) \<noteq> None"
      using a(3) p(2) by blast
    have "(\<exists>m. ?p j = Some m \<and> descends m l) \<longleftrightarrow> (\<exists>k < sq j. anc lk k j = Some i)" if "?p j \<noteq> None" for j
      using that provides_memb [OF p(1), of j] ledger_store.descends_anc [OF st _ l(2)] l(3) by auto
    then have "(\<exists>v m. GetLatestValidation vt n = Some v \<and> ?p (vLedgerID v) = Some m \<and> descends m l) \<longleftrightarrow>
        (\<exists>v k. GetLatestValidation vt n = Some v \<and> k < sq (vLedgerID v) \<and> anc lk k (vLedgerID v) = Some i)"
      if "n \<in> trusted vt - negUNL vt" for n
      using known that by (cases "GetLatestValidation vt n") auto
    then have "{n \<in> trusted vt - negUNL vt. \<exists>v m. GetLatestValidation vt n = Some v \<and> ?p (vLedgerID v) = Some m \<and> descends m l} =
        {n \<in> trusted vt - negUNL vt. \<exists>v k. GetLatestValidation vt n = Some v \<and> k < sq (vLedgerID v) \<and> anc lk k (vLedgerID v) = Some i}"
      by (intro Collect_cong conj_cong refl)
    then show ?thesis
      using support_counts [OF fam ops vt a(1) l(1) known] by simp
  qed
  then show ?thesis
    using vt by blast
qed

theorem GetTrustedSupport_of_store_witness:
  "\<exists>evs vt. vt_run ex_run (NewValidationTracker 2 Second) = Some (evs, vt) \<and> GetTrustedSupport vt (ex_id 4) =
     card {n \<in> trusted vt - negUNL vt. \<exists>v k. GetLatestValidation vt n = Some v \<and> k < ex_seq (vLedgerID v) \<and>
       anc ex_lookup k (vLedgerID v) = Some (ex_id 4)} \<and> GetTrustedSupport vt (ex_id 4) = 3"
proof -
  have ev: "(case vt_run ex_run (NewValidationTracker 2 Second) of
      Some (evs, vt) \<Rightarrow> ancestry vt \<noteq> None \<and> (\<forall>n \<in> trusted vt - negUNL vt.
          case GetLatestValidation vt n of None \<Rightarrow> True | Some v \<Rightarrow> ex_lookup (vLedgerID v) \<noteq> None) \<and>
        GetTrustedSupport vt (ex_id 4) = 3 \<and> ex_lookup (ex_id 4) \<noteq> None
    | None \<Rightarrow> False)"
    by code_simp
  have ops: "\<forall>op \<in> set ex_run. op_store ex_lookup op"
    by (simp add: ex_run_def ex_setup_def ex_adds_def)
  have "0 < (3 :: u32)"
    by simp
  then obtain evs vt where vt: "vt_run ex_run (NewValidationTracker 2 Second) = Some (evs, vt)"
    "\<forall>i. ancestry vt \<noteq> None \<longrightarrow> ex_lookup i \<noteq> None \<longrightarrow>
       (\<forall>n \<in> trusted vt - negUNL vt. \<forall>v. GetLatestValidation vt n = Some v \<longrightarrow> ex_lookup (vLedgerID v) \<noteq> None) \<longrightarrow>
       GetTrustedSupport vt i = card {n \<in> trusted vt - negUNL vt.
         \<exists>v k. GetLatestValidation vt n = Some v \<and> k < ex_seq (vLedgerID v) \<and> anc ex_lookup k (vLedgerID v) = Some i}"
    using GetTrustedSupport_of_store [OF ex_lookup_ok _ ex_reaches ops, of 2 Second] by blast
  have known: "ancestry vt \<noteq> None" "ex_lookup (ex_id 4) \<noteq> None" "GetTrustedSupport vt (ex_id 4) = 3"
    "\<forall>n \<in> trusted vt - negUNL vt. \<forall>v. GetLatestValidation vt n = Some v \<longrightarrow> ex_lookup (vLedgerID v) \<noteq> None"
    using ev unfolding vt(1) by (auto split: option.splits)
  show ?thesis
    using vt(1) vt(2) [rule_format, OF known(1,2)] known(3,4) by blast
qed

end
